(* ===== verification/Run_System.thy ===== *)
theory Run_System
  imports Main
begin

section \<open>Runs of step functions\<close>

text \<open>
  The library of the state machines: a step function consumes one event of the environment
  and returns the new state with the effects it had. \<open>run\<close> iterates it until a final state or
  the end of the events. The locales give invariants over state and effects, and termination,
  from obligations on single steps.
\<close>

fun run :: "('e \<Rightarrow> 's \<Rightarrow> 's \<times> 'o list) \<Rightarrow> ('s \<Rightarrow> bool) \<Rightarrow> 'e list \<Rightarrow> 's \<Rightarrow> 's \<times> 'o list" where
  "run step final [] s = (s, [])"
| "run step final (e # es) s =
     (if final s then (s, [])
      else case step e s of (s', os) \<Rightarrow> (case run step final es s' of (s'', os') \<Rightarrow> (s'', os @ os')))"

text \<open>Every event consumed satisfies the assumption \<open>ok\<close> in the state that consumes it.\<close>

fun run_ok :: "('e \<Rightarrow> 's \<Rightarrow> 's \<times> 'o list) \<Rightarrow> ('s \<Rightarrow> bool) \<Rightarrow> ('e \<Rightarrow> 's \<Rightarrow> bool) \<Rightarrow> 'e list \<Rightarrow> 's \<Rightarrow> bool"
where
  "run_ok step final ok [] s = True"
| "run_ok step final ok (e # es) s =
     (final s \<or> ok e s \<and> run_ok step final ok es (fst (step e s)))"

lemma run_final [simp]: "final s \<Longrightarrow> run step final es s = (s, [])"
  by (cases es) auto

lemma run_append:
  "run step final (es @ fs) s =
     (case run step final es s of (s', os) \<Rightarrow> (case run step final fs s' of (s'', os') \<Rightarrow> (s'', os @ os')))"
  by (induction es arbitrary: s) (auto split: prod.splits)

lemma run_ok_mono:
  assumes "\<And>e s. ok e s \<Longrightarrow> ok' e s" and "run_ok step final ok es s"
  shows "run_ok step final ok' es s"
  using assms(2) by (induction es arbitrary: s) (auto simp: assms(1))

locale traced_system =
  fixes step :: "'e \<Rightarrow> 's \<Rightarrow> 's \<times> 'o list" and final :: "'s \<Rightarrow> bool"
    and ok :: "'e \<Rightarrow> 's \<Rightarrow> bool" and inv :: "'s \<Rightarrow> 'o list \<Rightarrow> bool"
  assumes inv_step: "inv s os \<Longrightarrow> \<not> final s \<Longrightarrow> ok e s \<Longrightarrow> step e s = (s', os') \<Longrightarrow> inv s' (os @ os')"
begin

lemma run_inv:
  assumes "run step final es s = (s', os')" and "run_ok step final ok es s" and "inv s os"
  shows "inv s' (os @ os')"
  using assms
proof (induction es arbitrary: s os os')
  case (Cons e es)
  show ?case
  proof (cases "final s")
    case False
    obtain t ts where t: "step e s = (t, ts)" by (cases "step e s")
    obtain ts' where ts': "run step final es t = (s', ts')" "os' = ts @ ts'"
      using Cons.prems(1) False t by (auto split: prod.splits)
    have "inv t (os @ ts)" using inv_step [OF Cons.prems(3) False _ t] Cons.prems(2) False by simp
    then show ?thesis using Cons.IH [OF ts'(1), of "os @ ts"] Cons.prems(2) False t ts'(2) by simp
  qed (use Cons.prems in auto)
qed auto

end

text \<open>
  A system whose steps decrease a well-founded measure reaches a final state on every infinite
  sequence of admissible events.
\<close>

locale terminating_system = traced_system step final ok inv
  for step :: "'e \<Rightarrow> 's \<Rightarrow> 's \<times> 'o list" and final ok inv +
  fixes smaller :: "('s \<times> 's) set"
  assumes wf_smaller: "wf smaller"
    and step_smaller: "inv s os \<Longrightarrow> \<not> final s \<Longrightarrow> ok e s \<Longrightarrow> (fst (step e s), s) \<in> smaller"
begin

lemma run_reaches_final:
  assumes "inv s os" and "\<And>n. run_ok step final ok (map f [0..<n]) s"
  shows "\<exists>n. final (fst (run step final (map f [0..<n]) s))"
  using wf_smaller assms
proof (induction s arbitrary: f os rule: wf_induct_rule)
  case (less s)
  show ?case
  proof (cases "final s")
    case True
    then show ?thesis by (intro exI [of _ 0]) simp
  next
    case False
    obtain t ts where t: "step (f 0) s = (t, ts)" by (cases "step (f 0) s")
    have up: "map f [0..<Suc n] = f 0 # map (f \<circ> Suc) [0..<n]" for n
      by (simp add: upt_conv_Cons map_Suc_upt [symmetric] del: upt_Suc)
    have ok0: "ok (f 0) s" using less.prems(2) [of "Suc 0"] False by simp
    have "run_ok step final ok (map (f \<circ> Suc) [0..<n]) t" for n
      using less.prems(2) [of "Suc n"] False t unfolding up by simp
    moreover have "(t, s) \<in> smaller" using step_smaller [OF less.prems(1) False ok0] t by simp
    ultimately obtain n where "final (fst (run step final (map (f \<circ> Suc) [0..<n]) t))"
      using less.IH inv_step [OF less.prems(1) False ok0 t] by blast
    then show ?thesis
      using False t by (intro exI [of _ "Suc n"]) (auto simp: up split: prod.splits simp del: upt_Suc)
  qed
qed

end

end
