(* ===== verification/Http_Prelude.thy ===== *)
theory Http_Prelude
  imports Complex_Main "HOL-Library.Word" "HOL-Library.Sublist" "HOL-Library.Multiset"
begin

section \<open>Prelude: the parts of C++ and its standard library the server uses\<close>

text \<open>
  Byte strings are \<^typ>\<open>string\<close> (a \<^typ>\<open>char\<close> is one byte), \<open>size_t\<close> values that are
  counted or configured are 64-bit words, positions inside a string are \<^typ>\<open>nat\<close>. The
  theory defines \<open>string_view::find\<close>, \<open>tolower\<close>, \<open>isalnum\<close>, \<open>from_chars\<close>, the
  decimal output of \<open>ostream\<close> and unsigned subtraction, each with the lemmas the
  components share.
\<close>

named_theorems sv_simps \<open>string_view search on strings of a known shape\<close>
named_theorems byte_simps \<open>character classification\<close>

type_synonym bytes = string
type_synonym size_t = "64 word"

abbreviation CR :: char where "CR \<equiv> CHR 0x0D"
abbreviation LF :: char where "LF \<equiv> CHR 0x0A"
abbreviation SP :: char where "SP \<equiv> CHR 0x20"
abbreviation HTAB :: char where "HTAB \<equiv> CHR 0x09"
abbreviation CRLF :: bytes where "CRLF \<equiv> [CR, LF]"
abbreviation CRLF2 :: bytes where "CRLF2 \<equiv> [CR, LF, CR, LF]"

subsection \<open>Searching\<close>

text \<open>
  \<open>s.find(pat)\<close> is the least position at which \<open>pat\<close> occurs, \<^const>\<open>None\<close> for
  \<open>npos\<close>; \<open>s.find(pat, pos)\<close> searches from \<open>pos\<close> on.
\<close>

fun sv_find :: "'a list \<Rightarrow> 'a list \<Rightarrow> nat option" where
  "sv_find pat [] = (if pat = [] then Some 0 else None)"
| "sv_find pat (x # s) =
     (if prefix pat (x # s) then Some 0 else map_option Suc (sv_find pat s))"

definition sv_find_from :: "'a list \<Rightarrow> 'a list \<Rightarrow> nat \<Rightarrow> nat option" where
  "sv_find_from pat s pos = map_option ((+) pos) (sv_find pat (drop pos s))"

definition substr :: "'a list \<Rightarrow> nat \<Rightarrow> nat \<Rightarrow> 'a list" where
  "substr s pos n = take n (drop pos s)"

lemma sv_find_Some_iff:
  "sv_find pat s = Some i \<longleftrightarrow>
     i \<le> length s \<and> prefix pat (drop i s) \<and> (\<forall>j<i. \<not> prefix pat (drop j s))"
proof (induction s arbitrary: i)
  case Nil
  then show ?case by auto
next
  case (Cons x s)
  show ?case
  proof (cases i)
    case 0
    then show ?thesis by (auto split: if_splits)
  next
    case (Suc k)
    then show ?thesis
      using Cons.IH [of k] by (auto simp: All_less_Suc2)
  qed
qed

lemma sv_find_None_iff: "sv_find pat s = None \<longleftrightarrow> (\<forall>j \<le> length s. \<not> prefix pat (drop j s))"
proof (induction s)
  case Nil
  then show ?case by auto
next
  case (Cons x s)
  have "(\<forall>j < Suc (Suc (length s)). \<not> prefix pat (drop j (x # s))) \<longleftrightarrow>
      \<not> prefix pat (x # s) \<and> (\<forall>j < Suc (length s). \<not> prefix pat (drop j s))"
    by (subst All_less_Suc2) simp
  then show ?case using Cons by (simp add: less_Suc_eq_le [symmetric])
qed

lemma sv_find_SomeD:
  assumes "sv_find pat s = Some i"
  shows "s = take i s @ pat @ drop (i + length pat) s" and "i + length pat \<le> length s"
proof -
  from assms have "i \<le> length s" "prefix pat (drop i s)"
    by (auto simp: sv_find_Some_iff)
  then obtain r where r: "drop i s = pat @ r" by (auto elim: prefixE)
  then have "drop (i + length pat) s = r"
    by (metis add.commute append_eq_conv_conj drop_drop)
  with r show "s = take i s @ pat @ drop (i + length pat) s"
    by (metis append_take_drop_id)
  from r have "length (drop i s) = length pat + length r" by simp
  with \<open>i \<le> length s\<close> show "i + length pat \<le> length s" by simp
qed

text \<open>A match stays the first match when bytes are appended.\<close>

lemma sv_find_append:
  assumes "sv_find pat s = Some i"
  shows "sv_find pat (s @ t) = Some i"
proof -
  note s = sv_find_SomeD [OF assms]
  have "\<not> prefix pat (drop j (s @ t))" if "j < i" for j
  proof
    assume "prefix pat (drop j (s @ t))"
    moreover have "drop j (s @ t) = drop j s @ t" and "length pat \<le> length (drop j s)"
      using that s(2) by auto
    ultimately have "prefix pat (drop j s)"
      by (metis prefix_append prefix_length_prefix prefixI)
    then show False using that assms by (auto simp: sv_find_Some_iff)
  qed
  moreover have "prefix pat (drop i (s @ t))"
    using assms s(2) by (auto simp: sv_find_Some_iff intro: prefix_prefix)
  ultimately show ?thesis using s(2) by (simp add: sv_find_Some_iff)
qed

lemma sv_find_None_sublist: "sv_find pat s = None \<longleftrightarrow> \<not> sublist pat s"
proof -
  have "sublist pat s \<longleftrightarrow> (\<exists>j \<le> length s. prefix pat (drop j s))"
  proof
    assume "sublist pat s"
    then obtain a b where "s = a @ pat @ b" by (auto simp: sublist_def)
    then show "\<exists>j \<le> length s. prefix pat (drop j s)"
      by (intro exI [of _ "length a"]) auto
  next
    assume "\<exists>j \<le> length s. prefix pat (drop j s)"
    then obtain j where "prefix pat (drop j s)" by blast
    then show "sublist pat s"
      by (meson prefix_imp_sublist sublist_drop sublist_order.order_trans)
  qed
  then show ?thesis by (auto simp: sv_find_None_iff)
qed

text \<open>A prefix in which no match starts only shifts the result.\<close>

lemma sv_find_shift:
  assumes "\<And>j. j < length a \<Longrightarrow> \<not> prefix pat (drop j (a @ b))"
  shows "sv_find pat (a @ b) = map_option ((+) (length a)) (sv_find pat b)"
  using assms
proof (induction a)
  case Nil
  then show ?case by (cases "sv_find pat b") auto
next
  case (Cons x a)
  have "\<not> prefix pat (x # a @ b)" using Cons.prems [of 0] by simp
  moreover have "sv_find pat (a @ b) = map_option ((+) (length a)) (sv_find pat b)"
    using Cons.IH Cons.prems [of "Suc j" for j] by simp
  ultimately show ?case by (cases "sv_find pat b") auto
qed

lemma no_CRLF_start:
  assumes "sv_find CRLF l = None" and "j < length l"
  shows "\<not> prefix CRLF (drop j (l @ CR # b))"
proof
  assume "prefix CRLF (drop j (l @ CR # b))"
  then have p: "prefix CRLF (drop j l @ CR # b)" using assms(2) by simp
  obtain y ys where y: "drop j l = y # ys"
    using assms(2) by (metis Cons_nth_drop_Suc)
  from p y obtain z zs where "ys = z # zs" "y = CR" "z = LF" by (cases ys) auto
  then have "prefix CRLF (drop j l)" using y by simp
  with assms show False by (auto simp: sv_find_None_iff)
qed

lemma sv_find_CRLF_hit [sv_simps]:
  "sv_find CRLF l = None \<Longrightarrow> sv_find CRLF (l @ CR # LF # b) = Some (length l)"
  by (subst sv_find_shift, rule no_CRLF_start) simp_all

lemma sv_find_CRLF2_line [sv_simps]:
  assumes "sv_find CRLF l = None"
  shows "sv_find CRLF2 (l @ CR # LF # b) =
    (if prefix CRLF b then Some (length l) else map_option ((+) (length l + 2)) (sv_find CRLF2 b))"
proof -
  have "\<not> prefix CRLF2 (drop j (l @ CR # LF # b))" if "j < length l" for j
    using no_CRLF_start [OF assms that, of "LF # b"]
    by (metis append_Cons append_Nil prefix_order.order_trans prefixI)
  then have "sv_find CRLF2 (l @ CR # LF # b) =
      map_option ((+) (length l)) (sv_find CRLF2 (CR # LF # b))"
    by (rule sv_find_shift)
  then show ?thesis by (cases "sv_find CRLF2 b") auto
qed

lemma sv_find_char_None [sv_simps]: "sv_find [c] s = None \<longleftrightarrow> c \<notin> set s"
  by (induction s) auto

lemma sv_find_char_hit [sv_simps]: "c \<notin> set a \<Longrightarrow> sv_find [c] (a @ c # b) = Some (length a)"
  by (induction a) auto

lemma sv_find_char_Some:
  "sv_find [c] s = Some i \<Longrightarrow> i < length s \<and> s ! i = c \<and> c \<notin> set (take i s)"
proof (induction s arbitrary: i)
  case Nil
  then show ?case by simp
next
  case (Cons x s)
  then show ?case by (cases "x = c") auto
qed

lemma sv_find_skip [sv_simps]:
  "pat \<noteq> [] \<Longrightarrow> hd pat \<notin> set a \<Longrightarrow> sv_find pat (a @ b) = map_option ((+) (length a)) (sv_find pat b)"
proof (induction a)
  case Nil
  then show ?case by (cases "sv_find pat b") auto
next
  case (Cons x a)
  then show ?case by (cases pat; cases "sv_find pat b") auto
qed

lemma sv_find_here [sv_simps]: "sv_find pat (pat @ b) = Some 0"
  by (simp add: sv_find_Some_iff)

lemma sv_find_from_ge: "sv_find_from pat s pos = Some i \<Longrightarrow> pos \<le> i"
  by (auto simp: sv_find_from_def)

lemma sv_find_from_le:
  "sv_find_from pat s pos = Some i \<Longrightarrow> pos \<le> length s \<Longrightarrow> i + length pat \<le> length s"
  by (auto simp: sv_find_from_def dest!: sv_find_SomeD(2))

subsection \<open>Character classes of the C locale\<close>

abbreviation byte_val :: "char \<Rightarrow> nat" where "byte_val c \<equiv> of_char c"

definition is_digit :: "char \<Rightarrow> bool" where
  "is_digit c \<longleftrightarrow> 48 \<le> byte_val c \<and> byte_val c \<le> 57"

definition isalnum :: "char \<Rightarrow> bool" where
  "isalnum c \<longleftrightarrow> is_digit c \<or> (65 \<le> byte_val c \<and> byte_val c \<le> 90)
     \<or> (97 \<le> byte_val c \<and> byte_val c \<le> 122)"

definition tolower :: "char \<Rightarrow> char" where
  "tolower c = (if 65 \<le> byte_val c \<and> byte_val c \<le> 90 then char_of (byte_val c + 32) else c)"

lemma byte_val_less: "byte_val c < 256"
  by (metis of_char_mod_256 mod_less_divisor zero_less_numeral)

lemma tolower_val: "byte_val (tolower c) =
    (if 65 \<le> byte_val c \<and> byte_val c \<le> 90 then byte_val c + 32 else byte_val c)"
  by (auto simp: tolower_def)

lemma isalnum_tolower [simp]: "isalnum (tolower c) = isalnum c"
  by (auto simp: isalnum_def is_digit_def tolower_val)

lemma tolower_cases: "tolower c = c \<or> isalnum c"
  by (auto simp: tolower_def isalnum_def)

lemma tolower_idem [simp]: "tolower (tolower c) = tolower c"
  using tolower_val [of c] by (auto simp: tolower_def [of "tolower c"])

subsection \<open>Decimal numbers\<close>

text \<open>
  \<open>std::from_chars\<close> for an unsigned type of \<open>w\<close> bits reads the longest run of digits:
  no digit is \<open>invalid_argument\<close>, a value of \<open>2 ^ w\<close> or more is
  \<open>result_out_of_range\<close>; in both cases the output variable keeps its value, which is 0
  at every call of the program. The second component is the offset of the returned
  pointer.
\<close>

datatype errc = Errc_ok | Invalid_argument | Result_out_of_range

definition digit_val :: "char \<Rightarrow> nat" where
  "digit_val c = byte_val c - 48"

definition decimal_val :: "bytes \<Rightarrow> nat" where
  "decimal_val = foldl (\<lambda>a c. 10 * a + digit_val c) 0"

definition from_chars :: "bytes \<Rightarrow> errc \<times> nat \<times> 'w::len word" where
  "from_chars s =
     (let ds = takeWhile is_digit s; v = decimal_val ds
      in if ds = [] then (Invalid_argument, 0, 0)
         else if 2 ^ LENGTH('w) \<le> v then (Result_out_of_range, length ds, 0)
         else (Errc_ok, length ds, of_nat v))"

text \<open>Output of an unsigned integer by \<open>operator<<\<close>.\<close>

definition digit_char :: "nat \<Rightarrow> char" where
  "digit_char d = char_of (48 + d)"

fun show_nat :: "nat \<Rightarrow> bytes" where
  "show_nat n =
     (if n < 10 then [digit_char n] else show_nat (n div 10) @ [digit_char (n mod 10)])"

declare show_nat.simps [simp del]

lemma digit_char_props [simp]:
  assumes "d < 10"
  shows "is_digit (digit_char d)" and "digit_val (digit_char d) = d"
  using assms by (auto simp: is_digit_def digit_char_def digit_val_def)

lemma show_nat_not_Nil [simp]: "show_nat n \<noteq> []"
  by (subst show_nat.simps) simp

lemma show_nat_digits: "c \<in> set (show_nat n) \<Longrightarrow> is_digit c"
proof (induction n rule: show_nat.induct)
  case (1 n)
  then show ?case
    by (subst (asm) (2) show_nat.simps) (auto split: if_splits)
qed

lemma decimal_val_snoc: "decimal_val (s @ [c]) = 10 * decimal_val s + digit_val c"
  by (simp add: decimal_val_def)

lemma decimal_show: "decimal_val (show_nat n) = n"
proof (induction n rule: show_nat.induct)
  case (1 n)
  show ?case
  proof (cases "n < 10")
    case True
    then show ?thesis by (subst show_nat.simps) (simp add: decimal_val_def)
  next
    case False
    with 1 show ?thesis
      by (subst show_nat.simps) (simp add: decimal_val_snoc del: mult_Suc)
  qed
qed

lemma show_nat_inject [simp]: "show_nat m = show_nat n \<longleftrightarrow> m = n"
  by (metis decimal_show)

lemma takeWhile_show: "takeWhile is_digit (show_nat n) = show_nat n"
  by (auto simp: takeWhile_eq_all_conv dest: show_nat_digits)

text \<open>What the stream prints, \<open>from_chars\<close> reads back.\<close>

lemma from_chars_show_nat:
  "from_chars (show_nat n) =
     (if n < 2 ^ LENGTH('w) then (Errc_ok, length (show_nat n), of_nat n :: 'w::len word)
      else (Result_out_of_range, length (show_nat n), 0))"
  by (auto simp: from_chars_def takeWhile_show decimal_show Let_def)

text \<open>A successful full read is a non-empty digit string whose value fits.\<close>

lemma from_chars_full:
  fixes v :: "'w::len word"
  assumes "from_chars s = (Errc_ok, length s, v)"
  shows "s \<noteq> [] \<and> list_all is_digit s \<and> decimal_val s < 2 ^ LENGTH('w) \<and> unat v = decimal_val s"
proof -
  from assms have len: "length (takeWhile is_digit s) = length s"
    by (auto simp: from_chars_def Let_def split: if_splits)
  then have all: "takeWhile is_digit s = s"
    by (metis length_append append_Nil2 takeWhile_dropWhile_id add_cancel_right_right length_0_conv)
  with assms show ?thesis
    by (auto simp: from_chars_def Let_def unat_of_nat take_bit_nat_eq_self list_all_iff
        takeWhile_eq_all_conv split: if_splits)
qed

subsection \<open>Unsigned subtraction\<close>

lemma unat_size_t: "unat (w :: size_t) < 2 ^ 64"
  using unsigned_less [of w] by simp

text \<open>
  Subtraction of \<open>size_t\<close> values: it wraps below zero. The two arguments are sizes of
  objects in memory, so they are below \<open>2 ^ 64\<close>.
\<close>

definition size_sub :: "nat \<Rightarrow> nat \<Rightarrow> nat" where
  "size_sub a b = (if b \<le> a then a - b else 2 ^ 64 - (b - a))"

lemma size_sub_le [simp]: "b \<le> a \<Longrightarrow> size_sub a b = a - b"
  by (simp add: size_sub_def)

lemma size_sub_word:
  assumes "a < 2 ^ 64" and "b < 2 ^ 64"
  shows "size_sub a b = unat (of_nat a - of_nat b :: size_t)"
proof (cases "b \<le> a")
  case True
  then show ?thesis using assms
    by (simp add: unat_sub_if' unat_of_nat take_bit_nat_eq_self)
next
  case False
  then show ?thesis using assms
    by (simp add: size_sub_def unat_sub_if' unat_of_nat take_bit_nat_eq_self)
qed

end
