(* ===== verification/Http_Parser.thy ===== *)
theory Http_Parser
  imports Http_Prelude
begin

section \<open>The incremental request parser\<close>

text \<open>
  Models \<open>include/http/request.hpp\<close>, \<open>include/http/parser.hpp\<close> and \<open>src/parser.cpp\<close>.
  The boolean functions with an error out-parameter return \<open>error message + result\<close>;
  \<open>HttpParser::next\<close> returns its \<open>ParseResult\<close> and the parser with its new buffer.
\<close>

subsection \<open>Data\<close>

record header_field =
  hf_name :: bytes
  hf_value :: bytes

record http_request =
  req_method :: bytes
  req_target :: bytes
  req_version :: bytes
  req_headers :: "bytes \<rightharpoonup> bytes"
  req_header_fields :: "header_field list"
  req_body :: bytes

datatype parse_status = NeedMoreData | RequestReady | Error

datatype parse_error_kind = BadRequest | UnsupportedTransferEncoding

record parse_result =
  pr_status :: parse_status
  pr_request :: "http_request option"
  pr_error :: bytes
  pr_error_kind :: parse_error_kind

record http_parser =
  buffer :: bytes
  max_header_bytes :: size_t
  max_body_bytes :: size_t

record request_line =
  rl_method :: bytes
  rl_target :: bytes
  rl_version :: bytes

subsection \<open>Lexical helpers\<close>

definition to_lower_ascii :: "bytes \<Rightarrow> bytes" where
  "to_lower_ascii input = map tolower input"

definition is_ows :: "char \<Rightarrow> bool" where
  "is_ows c \<longleftrightarrow> c = SP \<or> c = HTAB"

function trim_begin :: "bytes \<Rightarrow> nat \<Rightarrow> nat" where
  "trim_begin input i =
     (if i < length input \<and> is_ows (input ! i) then trim_begin input (Suc i) else i)"
  by pat_completeness auto
termination
  by (relation "measure (\<lambda>(input, i). length input - i)") auto

fun trim_end :: "bytes \<Rightarrow> nat \<Rightarrow> nat \<Rightarrow> nat" where
  "trim_end input b e =
     (if b < e \<and> is_ows (input ! (e - 1)) then trim_end input b (e - 1) else e)"

declare trim_begin.simps [simp del] trim_end.simps [simp del]

definition trim_ows :: "bytes \<Rightarrow> bytes" where
  "trim_ows input =
     (let b = trim_begin input 0; e = trim_end input b (length input)
      in substr input b (e - b))"

definition is_tchar :: "char \<Rightarrow> bool" where
  "is_tchar ch \<longleftrightarrow> isalnum ch \<or>
     ch \<in> {CHR ''!'', CHR ''#'', CHR ''$'', CHR ''%'', CHR ''&'', CHR 0x27, CHR ''*'', CHR ''+'',
           CHR ''-'', CHR ''.'', CHR ''^'', CHR ''_'', CHR 0x60, CHR ''|'', CHR ''~''}"

definition is_token :: "bytes \<Rightarrow> bool" where
  "is_token input \<longleftrightarrow> input \<noteq> [] \<and> list_all is_tchar input"

subsection \<open>Lines\<close>

definition parse_request_line :: "bytes \<Rightarrow> bytes + request_line" where
  "parse_request_line line =
     (case sv_find [SP] line of
        None \<Rightarrow> Inl ''request line is missing method separator''
      | Some first_space \<Rightarrow>
        if first_space = 0 then Inl ''request line is missing method separator''
        else (case sv_find_from [SP] line (first_space + 1) of
          None \<Rightarrow> Inl ''request line is missing target or version''
        | Some second_space \<Rightarrow>
          if second_space = first_space + 1
            then Inl ''request line is missing target or version''
          else if sv_find_from [SP] line (second_space + 1) \<noteq> None
            then Inl ''request line has too many fields''
          else
            let out = \<lparr>rl_method = substr line 0 first_space,
                       rl_target = substr line (first_space + 1)
                                     (second_space - first_space - 1),
                       rl_version = drop (second_space + 1) line\<rparr>
            in if \<not> is_token (rl_method out) then Inl ''invalid method token''
               else if rl_target out = [] \<or> hd (rl_target out) \<noteq> CHR ''/''
                 then Inl ''request target must use origin-form beginning with slash''
               else if rl_version out \<noteq> ''HTTP/1.1'' \<and> rl_version out \<noteq> ''HTTP/1.0''
                 then Inl ''unsupported HTTP version''
               else Inr out))"

definition parse_header_line :: "bytes \<Rightarrow> bytes + bytes \<times> bytes" where
  "parse_header_line line =
     (case sv_find [CHR '':''] line of
        None \<Rightarrow> Inl ''malformed header line''
      | Some colon \<Rightarrow>
        if colon = 0 then Inl ''malformed header line''
        else if line ! (colon - 1) = SP \<or> line ! (colon - 1) = HTAB
          then Inl ''whitespace before header colon''
        else
          let raw_name = substr line 0 colon
          in if \<not> is_token raw_name then Inl ''invalid header name''
             else Inr (to_lower_ascii raw_name, trim_ows (drop (colon + 1) line)))"

definition parse_content_length :: "bytes \<Rightarrow> bytes + size_t" where
  "parse_content_length value =
     (let v = trim_ows value
      in if v = [] then Inl ''empty Content-Length''
         else case from_chars v of (ec, ptr, parsed) \<Rightarrow>
           if ec \<noteq> Errc_ok \<or> ptr \<noteq> length v then Inl ''invalid Content-Length''
           else Inr parsed)"

definition parse_error :: "bytes \<Rightarrow> parse_error_kind \<Rightarrow> parse_result" where
  "parse_error err kind =
     \<lparr>pr_status = Error, pr_request = None, pr_error = err, pr_error_kind = kind\<rparr>"

subsection \<open>The parser object\<close>

definition new_parser :: "size_t \<Rightarrow> size_t \<Rightarrow> http_parser" where
  "new_parser mh mb = \<lparr>buffer = [], max_header_bytes = mh, max_body_bytes = mb\<rparr>"

definition default_parser :: http_parser where
  "default_parser = new_parser (16 * 1024) (1024 * 1024)"

definition feed :: "http_parser \<Rightarrow> bytes \<Rightarrow> http_parser" where
  "feed p bs = p\<lparr>buffer := buffer p @ bs\<rparr>"

definition buffered_bytes :: "http_parser \<Rightarrow> nat" where
  "buffered_bytes p = length (buffer p)"

text \<open>
  One header line of the loop in \<open>next\<close>: a new name is stored, a repeated
  \<open>connection\<close> is joined with a comma, any other repetition is an error.
\<close>

definition add_header :: "http_request \<Rightarrow> bytes \<Rightarrow> bytes \<Rightarrow> bytes + http_request" where
  "add_header req name value =
     (let fields = req_header_fields req @ [\<lparr>hf_name = name, hf_value = value\<rparr>]
      in case req_headers req name of
           Some existing \<Rightarrow>
             if name = ''connection''
             then Inr (req\<lparr>req_headers := (req_headers req)(name \<mapsto> existing @ '', '' @ value),
                           req_header_fields := fields\<rparr>)
             else Inl (''duplicate header field: '' @ name)
         | None \<Rightarrow> Inr (req\<lparr>req_headers := (req_headers req)(name \<mapsto> value),
                            req_header_fields := fields\<rparr>))"

definition parse_field :: "http_request \<Rightarrow> bytes \<Rightarrow> bytes + http_request" where
  "parse_field req line =
     (case parse_header_line line of
        Inl err \<Rightarrow> Inl err
      | Inr (name, value) \<Rightarrow> add_header req name value)"

function header_loop :: "bytes \<Rightarrow> nat \<Rightarrow> http_request \<Rightarrow> bytes + http_request" where
  "header_loop block line_start req =
     (if line_start < length block then
        let line_end = sv_find_from CRLF block line_start;
            line = (case line_end of None \<Rightarrow> drop line_start block
                    | Some e \<Rightarrow> substr block line_start (e - line_start))
        in case parse_field req line of
             Inl err \<Rightarrow> Inl err
           | Inr req' \<Rightarrow> (case line_end of None \<Rightarrow> Inr req'
                         | Some e \<Rightarrow> header_loop block (e + 2) req')
      else Inr req)"
  by pat_completeness auto
termination
  by (relation "measure (\<lambda>(block, i, req). length block - i)")
     (auto dest!: sv_find_from_ge [OF sym])

declare header_loop.simps [simp del]

definition find_header :: "http_request \<Rightarrow> bytes \<Rightarrow> bytes option" where
  "find_header req name = req_headers req name"

text \<open>The checks on \<open>Host\<close>, \<open>Transfer-Encoding\<close> and \<open>Content-Length\<close>; the body length.\<close>

definition check_framing ::
  "size_t \<Rightarrow> http_request \<Rightarrow> (bytes \<times> parse_error_kind) + size_t" where
  "check_framing max_body req =
     (if req_version req = ''HTTP/1.1'' \<and>
         (case find_header req ''host'' of None \<Rightarrow> True | Some h \<Rightarrow> trim_ows h = [])
      then Inl (''HTTP/1.1 request requires Host header'', BadRequest)
      else
        let transfer_encoding = find_header req ''transfer-encoding'';
            content_length_header = find_header req ''content-length''
        in if transfer_encoding \<noteq> None \<and> content_length_header \<noteq> None
             then Inl (''request contains both Transfer-Encoding and Content-Length'', BadRequest)
           else if transfer_encoding \<noteq> None
             then Inl (''Transfer-Encoding is not supported'', UnsupportedTransferEncoding)
           else case content_length_header of
               None \<Rightarrow> Inr 0
             | Some value \<Rightarrow>
               (case parse_content_length value of
                  Inl err \<Rightarrow> Inl (err, BadRequest)
                | Inr n \<Rightarrow> if n > max_body
                           then Inl (''body exceeds configured parser limit'', BadRequest)
                           else Inr n))"

definition parse_block ::
  "size_t \<Rightarrow> bytes \<Rightarrow> (bytes \<times> parse_error_kind) + http_request \<times> size_t" where
  "parse_block max_body header_block =
     (let request_line_end = sv_find CRLF header_block;
          request_line = (case request_line_end of None \<Rightarrow> header_block
                          | Some e \<Rightarrow> substr header_block 0 e)
      in case parse_request_line request_line of
           Inl err \<Rightarrow> Inl (err, BadRequest)
         | Inr rl \<Rightarrow>
           let request = \<lparr>req_method = rl_method rl, req_target = rl_target rl,
                          req_version = rl_version rl, req_headers = Map.empty,
                          req_header_fields = [], req_body = []\<rparr>
           in case (case request_line_end of None \<Rightarrow> Inr request
                    | Some e \<Rightarrow> header_loop header_block (e + 2) request) of
                Inl err \<Rightarrow> Inl (err, BadRequest)
              | Inr req \<Rightarrow>
                (case check_framing max_body req of
                   Inl err \<Rightarrow> Inl err
                 | Inr n \<Rightarrow> Inr (req, n)))"

definition need_more_data :: parse_result where
  "need_more_data = \<lparr>pr_status = NeedMoreData, pr_request = None, pr_error = [],
                      pr_error_kind = BadRequest\<rparr>"

definition request_ready :: "http_request \<Rightarrow> parse_result" where
  "request_ready req = \<lparr>pr_status = RequestReady, pr_request = Some req, pr_error = [],
                         pr_error_kind = BadRequest\<rparr>"

definition parser_next :: "http_parser \<Rightarrow> parse_result \<times> http_parser" where
  "parser_next p =
     (case sv_find CRLF2 (buffer p) of
        None \<Rightarrow>
          if length (buffer p) > unat (max_header_bytes p)
          then (parse_error ''headers exceed configured parser limit'' BadRequest, p)
          else (need_more_data, p)
      | Some header_end \<Rightarrow>
          if header_end > unat (max_header_bytes p)
          then (parse_error ''headers exceed configured parser limit'' BadRequest, p)
          else (case parse_block (max_body_bytes p) (substr (buffer p) 0 header_end) of
              Inl (err, kind) \<Rightarrow> (parse_error err kind, p)
            | Inr (request, content_length) \<Rightarrow>
                let body_start = header_end + 4
                in if size_sub (length (buffer p)) body_start < unat content_length
                   then (need_more_data, p)
                   else (request_ready
                           (request\<lparr>req_body := substr (buffer p) body_start (unat content_length)\<rparr>),
                         p\<lparr>buffer := drop (body_start + unat content_length) (buffer p)\<rparr>)))"

end
