(* ===== verification/Parser_Lemmas.thy ===== *)
theory Parser_Lemmas
  imports Http_Parser
begin

section \<open>The loops and line formats of the request parser\<close>

text \<open>
  Reference definitions for the index loops of the parser: trimming, the search for the
  separators of the two line formats and the loop over the header lines, each proved equal
  to what the parser computes.
\<close>

named_theorems parser_defs \<open>definitions of the parser's results\<close>

lemmas [parser_defs] = parse_error_def need_more_data_def request_ready_def

subsection \<open>Trimming\<close>

definition ows_strip :: "bytes \<Rightarrow> bytes" where
  "ows_strip s = rev (dropWhile is_ows (rev (dropWhile is_ows s)))"

lemma trim_begin_eq:
  "i \<le> length s \<Longrightarrow> trim_begin s i = i + length (takeWhile is_ows (drop i s))"
proof (induction s i rule: trim_begin.induct)
  case (1 s i)
  show ?case
  proof (cases "i < length s \<and> is_ows (s ! i)")
    case True
    with 1 show ?thesis
      by (simp add: trim_begin.simps [of s i] Cons_nth_drop_Suc [symmetric, of i])
  next
    case False
    then have "trim_begin s i = i" by (subst trim_begin.simps) auto
    moreover have "takeWhile is_ows (drop i s) = []"
      using False by (cases "i < length s") (auto simp: Cons_nth_drop_Suc [symmetric, of i])
    ultimately show ?thesis by simp
  qed
qed

lemma trim_end_eq:
  "b \<le> e \<Longrightarrow> e \<le> length s \<Longrightarrow>
     substr s b (trim_end s b e - b) = rev (dropWhile is_ows (rev (substr s b (e - b))))"
proof (induction s b e rule: trim_end.induct)
  case (1 s b e)
  show ?case
  proof (cases "b < e")
    case False
    then have "trim_end s b e = e" by (subst trim_end.simps) simp
    then show ?thesis using False 1(2) by (simp add: substr_def)
  next
    case True
    then obtain k where k: "e = Suc k" "b \<le> k" by (cases e) auto
    have snoc: "substr s b (e - b) = substr s b (k - b) @ [s ! k]"
      using k 1(3) by (simp add: substr_def Suc_diff_le take_Suc_conv_app_nth)
    show ?thesis
    proof (cases "is_ows (s ! k)")
      case True
      then have "trim_end s b e = trim_end s b k"
        using k \<open>b < e\<close> by (subst trim_end.simps) simp
      then show ?thesis using 1 k \<open>b < e\<close> snoc True by simp
    next
      case False
      then have "trim_end s b e = e" using k by (subst trim_end.simps) simp
      then show ?thesis using k snoc False by simp
    qed
  qed
qed

lemma trim_ows_eq: "trim_ows s = ows_strip s"
proof -
  let ?b = "trim_begin s 0"
  have b: "?b = length (takeWhile is_ows s)" by (simp add: trim_begin_eq)
  then have "?b \<le> length s" by (simp add: length_takeWhile_le)
  moreover have "substr s ?b (length s - ?b) = dropWhile is_ows s"
    by (simp add: b substr_def dropWhile_eq_drop)
  ultimately show ?thesis
    using trim_end_eq [of ?b "length s" s] by (simp add: trim_ows_def ows_strip_def Let_def)
qed

lemma ows_strip_decomp:
  "\<exists>a b. s = a @ ows_strip s @ b \<and> list_all is_ows a \<and> list_all is_ows b"
proof -
  let ?d = "dropWhile is_ows s"
  have "?d = ows_strip s @ rev (takeWhile is_ows (rev ?d))"
    unfolding ows_strip_def by (metis rev_append rev_rev_ident takeWhile_dropWhile_id)
  then have "s = takeWhile is_ows s @ ows_strip s @ rev (takeWhile is_ows (rev ?d))"
    by (metis takeWhile_dropWhile_id)
  moreover have "list_all is_ows (takeWhile is_ows s)"
      "list_all is_ows (rev (takeWhile is_ows (rev ?d)))"
    by (auto simp: list_all_iff dest: set_takeWhileD)
  ultimately show ?thesis by blast
qed

lemma sublist_ows_strip: "sublist (ows_strip s) s"
  using ows_strip_decomp [of s] by (metis sublist_appendI)

lemma ows_strip_last: "ows_strip s = [] \<or> \<not> is_ows (last (ows_strip s))"
  unfolding ows_strip_def by (metis hd_dropWhile last_rev rev_is_Nil_conv)

lemma ows_strip_hd: "ows_strip s = [] \<or> \<not> is_ows (hd (ows_strip s))"
proof (cases "ows_strip s = []")
  case False
  let ?d = "dropWhile is_ows s"
  have "?d = ows_strip s @ rev (takeWhile is_ows (rev ?d))"
    unfolding ows_strip_def by (metis rev_append rev_rev_ident takeWhile_dropWhile_id)
  with False have "hd ?d = hd (ows_strip s)" and "?d \<noteq> []" by (metis hd_append, force)
  then show ?thesis by (metis hd_dropWhile)
qed simp

lemma ows_strip_fix: "s = [] \<or> \<not> is_ows (hd s) \<and> \<not> is_ows (last s) \<Longrightarrow> ows_strip s = s"
  using dropWhile_eq_self_iff [of is_ows s] dropWhile_eq_self_iff [of is_ows "rev s"]
  by (auto simp: ows_strip_def hd_rev)

lemma ows_strip_idem [simp]: "ows_strip (ows_strip s) = ows_strip s"
  by (rule ows_strip_fix) (use ows_strip_hd ows_strip_last in blast)

lemma ows_strip_Cons_SP [simp]: "ows_strip (SP # s) = ows_strip s"
  by (simp add: ows_strip_def is_ows_def)


subsection \<open>The two line parsers\<close>

lemma sv_find_from_char:
  assumes "SP \<notin> set a" "SP \<notin> set b"
  shows "sv_find_from [SP] (a @ SP # b @ SP # c) (length a + 1) = Some (length a + 1 + length b)"
    and "sv_find_from [SP] (a @ SP # b) (length a + 1) = None"
    and "sv_find_from [SP] (a @ SP # b @ SP # c) (length a + 1 + length b + 1) =
           map_option ((+) (length a + 1 + length b + 1)) (sv_find [SP] c)"
  using assms by (simp_all add: sv_find_from_def sv_simps)

lemma tchar_not [byte_simps]: "\<not> is_tchar SP" "\<not> is_tchar CR" "\<not> is_tchar LF" "\<not> is_tchar (CHR '':'')"
    "\<not> is_tchar HTAB"
  by (simp_all add: is_tchar_def isalnum_def is_digit_def)

lemma token_not_in: "is_token s \<Longrightarrow> \<not> is_tchar c \<Longrightarrow> c \<notin> set s"
  by (auto simp: is_token_def list_all_iff)

lemma parse_request_line_iff:
  "parse_request_line line = Inr rl \<longleftrightarrow>
     line = rl_method rl @ SP # rl_target rl @ SP # rl_version rl \<and>
     is_token (rl_method rl) \<and> SP \<notin> set (rl_target rl) \<and>
     (\<exists>t. rl_target rl = CHR ''/'' # t) \<and> rl_version rl \<in> {''HTTP/1.1'', ''HTTP/1.0''}"
  (is "?L \<longleftrightarrow> ?R")
proof
  assume L: ?L
  then obtain i j where i: "sv_find [SP] line = Some i" "i \<noteq> 0"
    and j: "sv_find_from [SP] line (i + 1) = Some j" "j \<noteq> i + 1"
    and k: "sv_find_from [SP] line (j + 1) = None"
    and rl: "rl = \<lparr>rl_method = substr line 0 i, rl_target = substr line (i + 1) (j - i - 1),
               rl_version = drop (j + 1) line\<rparr>"
    and chk: "is_token (rl_method rl)" "rl_target rl \<noteq> []" "hd (rl_target rl) = CHR ''/''"
      "rl_version rl = ''HTTP/1.1'' \<or> rl_version rl = ''HTTP/1.0''"
    by (auto simp: parse_request_line_def Let_def split: option.splits if_splits)
  obtain b where b: "sv_find [SP] (drop (i + 1) line) = Some b" "j = i + 1 + b"
    using j(1) by (auto simp: sv_find_from_def)
  have l1: "line = take i line @ SP # drop (i + 1) line"
    using sv_find_SomeD(1) [OF i(1)] by simp
  have l2: "drop (i + 1) line = take b (drop (i + 1) line) @ SP # drop (j + 1) line"
    using sv_find_SomeD(1) [OF b(1)] b(2) by (simp add: add.commute)
  have "SP \<notin> set (rl_target rl)"
    using sv_find_char_Some [OF b(1)] b(2) by (simp add: rl substr_def)
  moreover have "line = rl_method rl @ SP # rl_target rl @ SP # rl_version rl"
    using l1 l2 b(2) by (simp add: rl substr_def)
  moreover have "\<exists>t. rl_target rl = CHR ''/'' # t"
    using chk(2,3) by (cases "rl_target rl") auto
  ultimately show ?R using chk(1,4) by blast
next
  assume R: ?R
  obtain m t v where rl: "rl = \<lparr>rl_method = m, rl_target = t, rl_version = v\<rparr>" by (cases rl)
  from R rl have l: "line = m @ SP # t @ SP # v" and m: "SP \<notin> set m" "m \<noteq> []" "is_token m"
    and t: "SP \<notin> set t" "t \<noteq> []" "hd t = CHR ''/''"
    and v: "v = ''HTTP/1.1'' \<or> v = ''HTTP/1.0''" "SP \<notin> set v"
    by (auto simp: token_not_in tchar_not is_token_def)
  have "sv_find [SP] line = Some (length m)" using l m by (simp add: sv_simps)
  moreover have "sv_find_from [SP] line (length m + 1) = Some (length m + 1 + length t)"
    unfolding l using sv_find_from_char(1) [OF m(1) t(1)] .
  moreover have "sv_find_from [SP] line (length m + 1 + length t + 1) = None"
    unfolding l using sv_find_from_char(3) [OF m(1) t(1), of v] v(2) by (simp add: sv_simps)
  ultimately show ?L
    using m t v rl by (simp add: parse_request_line_def Let_def) (simp add: l substr_def)
qed

lemma parse_header_line_iff:
  "parse_header_line line = Inr (name, value) \<longleftrightarrow>
     (\<exists>raw v. line = raw @ CHR '':'' # v \<and> is_token raw \<and>
        name = to_lower_ascii raw \<and> value = ows_strip v)"
  (is "?L \<longleftrightarrow> ?R")
proof
  assume L: ?L
  then obtain i where i: "sv_find [CHR '':''] line = Some i"
    and r: "is_token (substr line 0 i)" "name = to_lower_ascii (substr line 0 i)"
      "value = trim_ows (drop (i + 1) line)"
    by (auto simp: parse_header_line_def Let_def split: option.splits if_splits)
  have "line = substr line 0 i @ CHR '':'' # drop (i + 1) line"
    using sv_find_SomeD(1) [OF i] by (simp add: substr_def)
  with r show ?R by (auto simp: trim_ows_eq)
next
  assume ?R
  then obtain raw v where l: "line = raw @ CHR '':'' # v" and t: "is_token raw"
    and nv: "name = to_lower_ascii raw" "value = ows_strip v" by blast
  have f: "sv_find [CHR '':''] line = Some (length raw)"
    unfolding l by (rule sv_find_char_hit) (use t token_not_in tchar_not in blast)
  have ne: "raw \<noteq> []" using t by (simp add: is_token_def)
  have "line ! (length raw - 1) = last raw"
    using ne by (simp add: l nth_append last_conv_nth)
  moreover have "is_tchar (last raw)"
    using t ne by (simp add: is_token_def list_all_iff)
  ultimately show ?L using f ne t nv
    by (auto simp: parse_header_line_def Let_def l substr_def trim_ows_eq tchar_not)
qed


subsection \<open>The header loop\<close>

text \<open>
  \<open>crlf_lines\<close> splits a header block at \<open>CRLF\<close>; the loop over \<open>line_start\<close> is a
  recursion over these lines.
\<close>

function crlf_lines :: "bytes \<Rightarrow> bytes list" where
  "crlf_lines s =
     (if s = [] then []
      else case sv_find CRLF s of None \<Rightarrow> [s] | Some e \<Rightarrow> take e s # crlf_lines (drop (e + 2) s))"
  by pat_completeness auto
termination
  by (relation "measure length") auto

declare crlf_lines.simps [simp del]

fun add_lines :: "http_request \<Rightarrow> bytes list \<Rightarrow> bytes + http_request" where
  "add_lines req [] = Inr req"
| "add_lines req (l # ls) =
     (case parse_field req l of Inl err \<Rightarrow> Inl err | Inr req' \<Rightarrow> add_lines req' ls)"

lemma header_loop_lines: "header_loop block i req = add_lines req (crlf_lines (drop i block))"
proof (induction block i req rule: header_loop.induct)
  case (1 block i req)
  show ?case
  proof (cases "i < length block")
    case False
    then show ?thesis by (subst header_loop.simps) (simp add: crlf_lines.simps)
  next
    case True
    show ?thesis
    proof (cases "sv_find CRLF (drop i block)")
      case None
      then show ?thesis using True
        by (subst header_loop.simps)
           (simp add: sv_find_from_def crlf_lines.simps [of "drop i block"] Let_def split: sum.splits)
    next
      case (Some e)
      then have f: "sv_find_from CRLF block i = Some (i + e)" by (simp add: sv_find_from_def)
      have lines: "crlf_lines (drop i block) =
          take e (drop i block) # crlf_lines (drop (i + e + 2) block)"
        using True Some by (subst crlf_lines.simps) (simp add: add.commute)
      have "header_loop block i req =
          (case parse_field req (take e (drop i block)) of Inl err \<Rightarrow> Inl err
           | Inr req' \<Rightarrow> header_loop block (i + e + 2) req')"
        using True f by (subst header_loop.simps) (simp add: Let_def substr_def split: sum.splits)
      moreover have "header_loop block (i + e + 2) req' = add_lines req' (crlf_lines (drop (i + e + 2) block))"
        if "parse_field req (take e (drop i block)) = Inr req'" for req'
        using 1 [OF True refl refl, of req' "i + e"] f that by (simp add: substr_def)
      ultimately show ?thesis by (simp add: lines split: sum.splits)
    qed
  qed
qed

text \<open>Joining lines that hold no \<open>CRLF\<close> and are not empty is inverted by the splitting.\<close>

fun join_lines :: "bytes list \<Rightarrow> bytes" where
  "join_lines [] = []"
| "join_lines [l] = l"
| "join_lines (l # ls) = l @ CRLF @ join_lines ls"

definition line_ok :: "bytes \<Rightarrow> bool" where
  "line_ok l \<longleftrightarrow> l \<noteq> [] \<and> sv_find CRLF l = None"

lemma crlf_lines_join: "list_all line_ok ls \<Longrightarrow> crlf_lines (join_lines ls) = ls"
proof (induction ls rule: join_lines.induct)
  case 1
  then show ?case by (simp add: crlf_lines.simps)
next
  case (2 l)
  then show ?case by (simp add: crlf_lines.simps line_ok_def)
next
  case (3 l l' ls)
  have "sv_find CRLF (join_lines (l # l' # ls)) = Some (length l)"
    using 3 by (simp add: line_ok_def sv_simps)
  with 3 show ?case
    by (subst crlf_lines.simps) (simp add: line_ok_def)
qed

lemma crlf_lines_no_CRLF: "l \<in> set (crlf_lines s) \<Longrightarrow> sv_find CRLF l = None"
proof (induction s rule: crlf_lines.induct)
  case (1 s)
  show ?case
  proof (cases "s = []")
    case True
    with 1(2) show ?thesis by (simp add: crlf_lines.simps)
  next
    case ne: False
    show ?thesis
    proof (cases "sv_find CRLF s")
      case None
      then show ?thesis using 1(2) ne by (simp add: crlf_lines.simps [of s])
    next
      case (Some e)
      have "sv_find CRLF (take e s) = None"
      proof -
        have "\<not> prefix CRLF (drop j (take e s))" for j
        proof
          assume p: "prefix CRLF (drop j (take e s))"
          then have "j < e" by (cases "j < e") auto
          moreover have "prefix CRLF (drop j s)"
            using p by (metis drop_take take_is_prefix prefix_order.trans)
          ultimately show False using Some by (auto simp: sv_find_Some_iff)
        qed
        then show ?thesis by (simp add: sv_find_None_iff)
      qed
      moreover have "l = take e s \<or> l \<in> set (crlf_lines (drop (e + 2) s))"
        using 1(2) ne Some by (simp add: crlf_lines.simps [of s])
      ultimately show ?thesis using 1(1) [OF ne Some] by blast
    qed
  qed
qed

lemma prefix_CRLF_join:
  assumes "list_all line_ok ls" and "ls \<noteq> []"
  shows "\<not> prefix CRLF (join_lines ls @ CR # t)"
proof -
  obtain l ls' where ls: "ls = l # ls'" using assms(2) by (cases ls) auto
  have l: "sv_find CRLF l = None" "l \<noteq> []" using assms ls by (auto simp: line_ok_def)
  obtain u where u: "join_lines ls @ CR # t = l @ CR # u"
    using ls by (cases ls') auto
  show ?thesis using no_CRLF_start [OF l(1), of 0 u] l(2) u by simp
qed

lemma find_CRLF2_join:
  "list_all line_ok ls \<Longrightarrow> ls \<noteq> [] \<Longrightarrow>
     sv_find CRLF2 (join_lines ls @ CRLF2 @ rest) = Some (length (join_lines ls))"
proof (induction ls rule: join_lines.induct)
  case (2 l)
  then show ?case by (simp add: line_ok_def sv_find_CRLF2_line)
next
  case (3 l l' ls)
  have "\<not> prefix CRLF (join_lines (l' # ls) @ CRLF2 @ rest)"
    using prefix_CRLF_join [of "l' # ls"] 3(2) by simp
  moreover have "sv_find CRLF2 (join_lines (l' # ls) @ CRLF2 @ rest) = Some (length (join_lines (l' # ls)))"
    using 3 by simp
  ultimately show ?case
    using 3(2) sv_find_CRLF2_line [of l "join_lines (l' # ls) @ CRLF2 @ rest"]
    by (simp add: line_ok_def)
qed simp

lemma sv_find_crlf_split: "sv_find CRLF s = Some e \<Longrightarrow> s = take e s @ CRLF @ drop (e + 2) s"
  using sv_find_SomeD(1) [of CRLF s e] by simp

lemma join_crlf_lines: "s = join_lines (crlf_lines s) \<or> s = join_lines (crlf_lines s) @ CRLF"
proof (induction s rule: crlf_lines.induct)
  case (1 s)
  show ?case
  proof (cases "s = [] \<or> sv_find CRLF s = None")
    case True
    then show ?thesis by (auto simp: crlf_lines.simps)
  next
    case False
    then obtain e where e: "sv_find CRLF s = Some e" and ne: "s \<noteq> []" by auto
    note split = sv_find_crlf_split [OF e]
    have lines: "crlf_lines s = take e s # crlf_lines (drop (e + 2) s)"
      using ne e by (subst crlf_lines.simps) simp
    have IH: "drop (e + 2) s = join_lines (crlf_lines (drop (e + 2) s)) \<or>
        drop (e + 2) s = join_lines (crlf_lines (drop (e + 2) s)) @ CRLF"
      using 1 ne e by simp
    show ?thesis
    proof (cases "crlf_lines (drop (e + 2) s)")
      case Nil
      then have "drop (e + 2) s = []"
        by (subst (asm) crlf_lines.simps) (auto split: if_splits option.splits)
      then show ?thesis using split lines Nil by simp
    next
      case (Cons l ls)
      then have "join_lines (crlf_lines s) = take e s @ CRLF @ join_lines (crlf_lines (drop (e + 2) s))"
        by (simp add: lines)
      then show ?thesis using split IH by (metis append.assoc)
    qed
  qed
qed

text \<open>A header block in front of the first blank line is the text of its lines.\<close>

lemma join_header_block:
  assumes "sv_find CRLF2 b = Some i" 
  shows "join_lines (crlf_lines (take i b)) = take i b"
proof (rule ccontr)
  assume "\<not> ?thesis"
  then obtain a where a: "take i b = a @ CRLF" using join_crlf_lines [of "take i b"] by metis
  have "b = take i b @ CRLF2 @ drop (i + 4) b"
    using sv_find_SomeD(1) [OF assms] by (simp add: eval_nat_numeral)
  then have "b = a @ CRLF2 @ CRLF @ drop (i + 4) b" using a by simp
  then have "prefix CRLF2 (drop (length a) b)" by (metis append_eq_conv_conj prefixI)
  moreover have "length a < i" using arg_cong [OF a, of length] by (simp add: min_def split: if_splits)
  ultimately show False using assms by (simp add: sv_find_Some_iff)
qed

end
