(* ===== verification/Request_Grammar.thy ===== *)
theory Request_Grammar
  imports Parser_Lemmas
begin

section \<open>The grammar of requests\<close>

text \<open>
  \<open>wf_request\<close> is the language the parser accepts, stated without reference to how it
  parses: \<open>header_map\<close> gives the combined headers as a function of the arrival-order
  fields, \<open>declared_length\<close> the body length the headers announce. \<open>print_request\<close> writes
  a request back. The lemmas connect the header loop, the framing checks and the request
  line with this language.
\<close>

subsection \<open>Requests, fields and their printed form\<close>

definition field_values :: "header_field list \<Rightarrow> bytes \<Rightarrow> bytes list" where
  "field_values fs n = map hf_value (filter (\<lambda>f. hf_name f = n) fs)"

fun comma_join :: "bytes list \<Rightarrow> bytes" where
  "comma_join [] = []"
| "comma_join [v] = v"
| "comma_join (v # vs) = v @ '', '' @ comma_join vs"

text \<open>The map \<open>headers\<close> as a function of the arrival-order fields.\<close>

definition header_map :: "header_field list \<Rightarrow> bytes \<rightharpoonup> bytes" where
  "header_map fs =
     (\<lambda>n. if field_values fs n = [] then None else Some (comma_join (field_values fs n)))"

definition single_fields :: "header_field list \<Rightarrow> bool" where
  "single_fields fs \<longleftrightarrow>
     distinct (map hf_name (filter (\<lambda>f. hf_name f \<noteq> ''connection'') fs))"

definition declared_length :: "http_request \<Rightarrow> nat option" where
  "declared_length r =
     (case req_headers r ''content-length'' of
        None \<Rightarrow> Some 0
      | Some v \<Rightarrow> let w = ows_strip v
                  in if w \<noteq> [] \<and> list_all is_digit w \<and> decimal_val w < 2 ^ 64
                     then Some (decimal_val w) else None)"

definition host_ok :: "http_request \<Rightarrow> bool" where
  "host_ok r \<longleftrightarrow> req_version r = ''HTTP/1.1'' \<longrightarrow>
     (case req_headers r ''host'' of None \<Rightarrow> False | Some h \<Rightarrow> ows_strip h \<noteq> [])"

definition wf_field :: "header_field \<Rightarrow> bool" where
  "wf_field f \<longleftrightarrow> is_token (hf_name f) \<and> to_lower_ascii (hf_name f) = hf_name f \<and>
     ows_strip (hf_value f) = hf_value f \<and> sv_find CRLF (hf_value f) = None"

definition wf_request :: "size_t \<Rightarrow> http_request \<Rightarrow> bool" where
  "wf_request mb r \<longleftrightarrow>
     is_token (req_method r) \<and>
     req_target r \<noteq> [] \<and> hd (req_target r) = CHR ''/'' \<and> SP \<notin> set (req_target r) \<and>
     sv_find CRLF (req_target r) = None \<and>
     req_version r \<in> {''HTTP/1.1'', ''HTTP/1.0''} \<and>
     list_all wf_field (req_header_fields r) \<and>
     single_fields (req_header_fields r) \<and>
     req_headers r = header_map (req_header_fields r) \<and>
     host_ok r \<and> req_headers r ''transfer-encoding'' = None \<and>
     declared_length r = Some (length (req_body r)) \<and> length (req_body r) \<le> unat mb"

definition field_line :: "header_field \<Rightarrow> bytes" where
  "field_line f = hf_name f @ '': '' @ hf_value f"

definition print_head :: "http_request \<Rightarrow> bytes" where
  "print_head r = join_lines
     ((req_method r @ SP # req_target r @ SP # req_version r)
        # map field_line (req_header_fields r))"

definition print_request :: "http_request \<Rightarrow> bytes" where
  "print_request r = print_head r @ CRLF2 @ req_body r"

subsection \<open>Headers\<close>

lemma comma_join_snoc: "vs \<noteq> [] \<Longrightarrow> comma_join (vs @ [v]) = comma_join vs @ '', '' @ v"
  by (induction vs rule: comma_join.induct) auto

lemma field_values_snoc:
  "field_values (fs @ [f]) n = field_values fs n @ (if hf_name f = n then [hf_value f] else [])"
  by (simp add: field_values_def)

lemma header_map_snoc:
  "header_map (fs @ [f]) = (header_map fs)(hf_name f \<mapsto>
     (case header_map fs (hf_name f) of None \<Rightarrow> hf_value f | Some w \<Rightarrow> w @ '', '' @ hf_value f))"
  by (rule ext) (auto simp: header_map_def field_values_snoc comma_join_snoc)

lemma header_map_None: "header_map fs n = None \<longleftrightarrow> n \<notin> hf_name ` set fs"
  by (auto simp: header_map_def field_values_def filter_empty_conv)

lemma single_fields_snoc:
  "single_fields (fs @ [f]) \<longleftrightarrow> single_fields fs \<and>
     (hf_name f = ''connection'' \<or> header_map fs (hf_name f) = None)"
  by (auto simp: single_fields_def header_map_None)

lemma single_fields_append: "single_fields (fs @ gs) \<Longrightarrow> single_fields fs"
  by (simp add: single_fields_def)

definition header_inv :: "http_request \<Rightarrow> bool" where
  "header_inv r \<longleftrightarrow> req_headers r = header_map (req_header_fields r) \<and>
     single_fields (req_header_fields r)"

definition with_fields :: "http_request \<Rightarrow> header_field list \<Rightarrow> http_request" where
  "with_fields r fs = r\<lparr>req_headers := header_map fs, req_header_fields := fs\<rparr>"

lemma with_fields_inv: "header_inv (with_fields r fs) \<longleftrightarrow> single_fields fs"
  by (simp add: header_inv_def with_fields_def)

lemma with_fields_self: "header_inv r \<Longrightarrow> with_fields r (req_header_fields r) = r"
  by (simp add: header_inv_def with_fields_def)

lemma with_fields_twice [simp]: "with_fields (with_fields r fs) gs = with_fields r gs"
    "req_header_fields (with_fields r fs) = fs"
  by (simp_all add: with_fields_def)

lemma add_header_eq:
  assumes "header_inv r"
  shows "add_header r n v =
    (let fs = req_header_fields r @ [\<lparr>hf_name = n, hf_value = v\<rparr>]
     in if single_fields fs then Inr (with_fields r fs)
        else Inl (''duplicate header field: '' @ n))"
  using assms
  by (auto simp: add_header_def header_inv_def single_fields_snoc with_fields_def header_map_snoc
      Let_def split: option.splits)

lemma add_lines_Inr:
  "header_inv r \<Longrightarrow> add_lines r ls = Inr r' \<longleftrightarrow>
     (\<exists>fs. list_all2 (\<lambda>l f. parse_header_line l = Inr (hf_name f, hf_value f)) ls fs \<and>
        single_fields (req_header_fields r @ fs) \<and>
        r' = with_fields r (req_header_fields r @ fs))"
proof (induction ls arbitrary: r)
  case Nil
  then show ?case by (auto simp: header_inv_def with_fields_self)
next
  case (Cons l ls)
  show ?case
  proof (cases "parse_header_line l")
    case (Inl e)
    then show ?thesis by (auto simp: parse_field_def list_all2_Cons1)
  next
    case (Inr nv)
    obtain n v where nv: "nv = (n, v)" by (cases nv)
    let ?f = "\<lparr>hf_name = n, hf_value = v\<rparr>"
    let ?fs = "req_header_fields r @ [?f]"
    have step: "add_lines r (l # ls) = Inr r' \<longleftrightarrow>
        single_fields ?fs \<and> add_lines (with_fields r ?fs) ls = Inr r'"
      using add_header_eq [OF Cons.prems, of n v] Inr nv
      by (auto simp: parse_field_def Let_def)
    have IH: "add_lines (with_fields r ?fs) ls = Inr r' \<longleftrightarrow>
        (\<exists>fs. list_all2 (\<lambda>l f. parse_header_line l = Inr (hf_name f, hf_value f)) ls fs \<and>
           single_fields (?fs @ fs) \<and> r' = with_fields r (?fs @ fs))"
      if "single_fields ?fs"
      using Cons.IH [of "with_fields r ?fs"] that by (simp add: with_fields_inv)
    have one: "nv = (hf_name f, hf_value f) \<longleftrightarrow> f = ?f" for f :: header_field
      using nv by (cases f) auto
    show ?thesis
      unfolding step using IH single_fields_append [of ?fs]
      by (auto simp: list_all2_Cons1 Inr one)
  qed
qed


subsection \<open>Framing\<close>

lemma parse_content_length_Inr:
  "parse_content_length v = Inr n \<longleftrightarrow>
     ows_strip v \<noteq> [] \<and> list_all is_digit (ows_strip v) \<and> decimal_val (ows_strip v) < 2 ^ 64 \<and>
     unat n = decimal_val (ows_strip v)"
  (is "?L \<longleftrightarrow> ?R")
proof
  assume L: ?L
  obtain ec ptr n' where fc: "from_chars (ows_strip v) = (ec, ptr, n' :: size_t)"
    using prod_cases3 by blast
  with L have "from_chars (ows_strip v) = (Errc_ok, length (ows_strip v), n)"
    by (auto simp: parse_content_length_def trim_ows_eq Let_def split: if_splits)
  from from_chars_full [OF this] show ?R by simp
next
  assume R: ?R
  then have tw: "takeWhile is_digit (ows_strip v) = ows_strip v"
    by (simp add: list_all_iff takeWhile_eq_all_conv)
  have "of_nat (decimal_val (ows_strip v)) = n"
    using R by (metis of_nat_unat ucast_id)
  then have "from_chars (ows_strip v) = (Errc_ok, length (ows_strip v), n)"
    using R unfolding from_chars_def tw by simp
  then show ?L using R by (simp add: parse_content_length_def trim_ows_eq Let_def)
qed

lemma check_framing_Inr:
  "check_framing mb r = Inr n \<longleftrightarrow>
     host_ok r \<and> req_headers r ''transfer-encoding'' = None \<and>
     declared_length r = Some (unat n) \<and> n \<le> mb"
  (is "?L \<longleftrightarrow> ?R")
proof -
  have h: "(req_version r = ''HTTP/1.1'' \<and>
      (case find_header r ''host'' of None \<Rightarrow> True | Some h \<Rightarrow> trim_ows h = [])) \<longleftrightarrow> \<not> host_ok r"
    by (auto simp: host_ok_def find_header_def trim_ows_eq split: option.splits)
  have c: "(case req_headers r ''content-length'' of None \<Rightarrow> Inr 0
             | Some value \<Rightarrow>
               (case parse_content_length value of
                  Inl err \<Rightarrow> Inl (err, BadRequest)
                | Inr n \<Rightarrow> if n > mb
                           then Inl (''body exceeds configured parser limit'', BadRequest)
                           else Inr n)) = Inr n \<longleftrightarrow> declared_length r = Some (unat n) \<and> n \<le> mb"
  proof (cases "req_headers r ''content-length''")
    case None
    then show ?thesis by (auto simp: declared_length_def unat_eq_0)
  next
    case (Some v)
    show ?thesis
    proof (cases "parse_content_length v")
      case (Inl e)
      then show ?thesis using Some parse_content_length_Inr [of v n]
        by (auto simp: declared_length_def Let_def split: if_splits)
    next
      case (Inr m)
      then have "declared_length r = Some (unat m)"
        using Some by (simp add: parse_content_length_Inr declared_length_def Let_def)
      then show ?thesis
        using Some Inr by (auto simp: not_less dest: word_unat_eq_iff [THEN iffD2])
    qed
  qed
  show ?thesis
    unfolding check_framing_def h using c
    by (auto simp: find_header_def Let_def)
qed

subsection \<open>The whole head\<close>

definition base_request :: "request_line \<Rightarrow> http_request" where
  "base_request rl =
     \<lparr>req_method = rl_method rl, req_target = rl_target rl, req_version = rl_version rl,
      req_headers = Map.empty, req_header_fields = [], req_body = []\<rparr>"

definition parse_lines ::
  "size_t \<Rightarrow> bytes \<Rightarrow> bytes list \<Rightarrow> (bytes \<times> parse_error_kind) + http_request \<times> size_t" where
  "parse_lines mb l ls =
     (case parse_request_line l of
        Inl err \<Rightarrow> Inl (err, BadRequest)
      | Inr rl \<Rightarrow>
        (case add_lines (base_request rl) ls of
           Inl err \<Rightarrow> Inl (err, BadRequest)
         | Inr req \<Rightarrow> (case check_framing mb req of Inl err \<Rightarrow> Inl err | Inr n \<Rightarrow> Inr (req, n))))"

lemma parse_block_lines:
  assumes "crlf_lines block = l # ls"
  shows "parse_block mb block = parse_lines mb l ls"
proof -
  have ne: "block \<noteq> []" using assms by (auto simp: crlf_lines.simps)
  show ?thesis
  proof (cases "sv_find CRLF block")
    case None
    then have "l = block" "ls = []" using assms ne by (simp_all add: crlf_lines.simps [of block])
    with None show ?thesis
      by (simp add: parse_block_def parse_lines_def base_request_def Let_def split: sum.splits)
  next
    case (Some e)
    then have "l = take e block" "ls = crlf_lines (drop (e + 2) block)"
      using assms ne by (simp_all add: crlf_lines.simps [of block])
    with Some show ?thesis
      by (simp add: parse_block_def parse_lines_def base_request_def Let_def header_loop_lines
          substr_def split: sum.splits)
  qed
qed

lemma base_request_inv: "header_inv (base_request rl)"
  by (auto simp: header_inv_def base_request_def header_map_def field_values_def single_fields_def)

lemma parse_lines_Inr:
  "parse_lines mb l ls = Inr (req, n) \<longleftrightarrow>
     (\<exists>rl fs. parse_request_line l = Inr rl \<and>
        list_all2 (\<lambda>l f. parse_header_line l = Inr (hf_name f, hf_value f)) ls fs \<and>
        single_fields fs \<and> req = with_fields (base_request rl) fs \<and>
        check_framing mb req = Inr n)"
proof (cases "parse_request_line l")
  case (Inl e)
  then show ?thesis by (simp add: parse_lines_def)
next
  case (Inr rl)
  have "parse_lines mb l ls = Inr (req, n) \<longleftrightarrow>
      add_lines (base_request rl) ls = Inr req \<and> check_framing mb req = Inr n"
    using Inr by (auto simp: parse_lines_def split: sum.splits)
  also have "add_lines (base_request rl) ls = Inr req \<longleftrightarrow>
      (\<exists>fs. list_all2 (\<lambda>l f. parse_header_line l = Inr (hf_name f, hf_value f)) ls fs \<and>
        single_fields fs \<and> req = with_fields (base_request rl) fs)"
    using add_lines_Inr [OF base_request_inv [of rl], of ls req]
    by (simp add: base_request_def)
  finally show ?thesis using Inr by auto
qed

subsection \<open>Printing and parsing\<close>

lemma tchar_tolower: "is_tchar c \<Longrightarrow> is_tchar (tolower c)"
  using tolower_cases [of c] isalnum_tolower [of c] is_tchar_def by metis

lemma to_lower_token: "is_token s \<Longrightarrow> is_token (to_lower_ascii s)"
  by (auto simp: is_token_def to_lower_ascii_def list_all_iff intro: tchar_tolower)

lemma sv_find_CRLF_append_safe:
  assumes "CR \<notin> set a" and "sv_find CRLF b = None"
  shows "sv_find CRLF (a @ b) = None"
  using assms by (simp add: sv_find_skip)

lemma sv_find_CRLF_snoc_safe:
  assumes "sv_find CRLF a = None" and "b \<noteq> []" and "hd b \<noteq> LF" and "sv_find CRLF b = None"
  shows "sv_find CRLF (a @ b) = None"
  using assms(1)
proof (induction a)
  case Nil
  then show ?case using assms by simp
next
  case (Cons x a)
  then show ?case using assms(2,3) by (cases a; cases b) (auto split: if_splits)
qed

lemma field_line_ok: "wf_field f \<Longrightarrow> line_ok (field_line f)"
proof -
  assume f: "wf_field f"
  then have "CR \<notin> set (hf_name f @ '': '')"
    using token_not_in tchar_not(2) by (auto simp: wf_field_def)
  then have "sv_find CRLF ((hf_name f @ '': '') @ hf_value f) = None"
    using f by (intro sv_find_CRLF_append_safe) (auto simp: wf_field_def)
  then show ?thesis by (simp add: line_ok_def field_line_def)
qed

lemma request_line_ok:
  assumes "is_token m" and "sv_find CRLF t = None" and "v \<in> {''HTTP/1.1'', ''HTTP/1.0''}"
  shows "line_ok (m @ SP # t @ SP # v)"
proof -
  have "sv_find CRLF (t @ SP # v) = None"
    using assms(2,3) by (intro sv_find_CRLF_snoc_safe) auto
  moreover have "CR \<notin> set (m @ [SP])"
    using assms(1) token_not_in tchar_not(2) by auto
  ultimately have "sv_find CRLF ((m @ [SP]) @ (t @ SP # v)) = None"
    by (rule sv_find_CRLF_append_safe [rotated])
  then show ?thesis by (simp add: line_ok_def)
qed

definition head_lines :: "http_request \<Rightarrow> bytes list" where
  "head_lines r = (req_method r @ SP # req_target r @ SP # req_version r)
     # map field_line (req_header_fields r)"

lemma head_lines_ok: "wf_request mb r \<Longrightarrow> list_all line_ok (head_lines r)"
  by (auto simp: wf_request_def head_lines_def list_all_iff field_line_ok intro!: request_line_ok)

lemma print_head_lines: "print_head r = join_lines (head_lines r)"
  by (simp add: print_head_def head_lines_def)

lemma crlf_print_head: "wf_request mb r \<Longrightarrow> crlf_lines (print_head r) = head_lines r"
  by (simp add: print_head_lines crlf_lines_join head_lines_ok)

lemma find_print_request:
  "wf_request mb r \<Longrightarrow> sv_find CRLF2 (print_head r @ CRLF2 @ rest) = Some (length (print_head r))"
  unfolding print_head_lines
  by (rule find_CRLF2_join, rule head_lines_ok) (simp_all add: head_lines_def)

lemma parse_field_line:
  "wf_field f \<Longrightarrow> parse_header_line (field_line f) = Inr (hf_name f, hf_value f)"
  unfolding parse_header_line_iff field_line_def
  by (rule exI [of _ "hf_name f"], rule exI [of _ "SP # hf_value f"]) (auto simp: wf_field_def)

lemma parse_print_head:
  assumes "wf_request mb r"
  shows "parse_block mb (print_head r) = Inr (r\<lparr>req_body := []\<rparr>, of_nat (length (req_body r)))"
proof -
  let ?rl = "\<lparr>rl_method = req_method r, rl_target = req_target r, rl_version = req_version r\<rparr>"
  let ?r = "r\<lparr>req_body := []\<rparr>"
  obtain t where t: "req_target r = CHR ''/'' # t"
    using assms by (cases "req_target r") (auto simp: wf_request_def)
  have rl: "parse_request_line (req_method r @ SP # req_target r @ SP # req_version r) = Inr ?rl"
    using assms t by (simp add: parse_request_line_iff wf_request_def)
  have fs: "list_all2 (\<lambda>l f. parse_header_line l = Inr (hf_name f, hf_value f))
      (map field_line (req_header_fields r)) (req_header_fields r)"
    using assms
    by (auto simp: list_all2_map1 wf_request_def list_all_iff parse_field_line intro!: list_all2_same [THEN iffD2])
  have b: "with_fields (base_request ?rl) (req_header_fields r) = ?r"
    using assms by (simp add: with_fields_def base_request_def wf_request_def)
  have len: "unat (of_nat (length (req_body r)) :: size_t) = length (req_body r)"
  proof -
    have "length (req_body r) < 2 ^ 64"
      using assms unat_size_t [of mb] by (simp add: wf_request_def)
    then show ?thesis by (simp add: unat_of_nat take_bit_nat_eq_self)
  qed
  have "check_framing mb ?r = Inr (of_nat (length (req_body r)))"
    using assms len
    by (auto simp: check_framing_Inr wf_request_def host_ok_def declared_length_def word_le_nat_alt
        cong: option.case_cong)
  then have "parse_lines mb (req_method r @ SP # req_target r @ SP # req_version r)
      (map field_line (req_header_fields r)) = Inr (?r, of_nat (length (req_body r)))"
    unfolding parse_lines_Inr using rl fs b assms
    by (intro exI [of _ ?rl] exI [of _ "req_header_fields r"]) (auto simp: wf_request_def)
  then show ?thesis
    using parse_block_lines crlf_print_head [OF assms] by (simp add: head_lines_def)
qed

subsection \<open>The text of a head\<close>

text \<open>
  How a request may be written: the parts of the request line separated by one space, and for every field a line with its name
  in any case, a colon and the value between blanks.
\<close>

definition field_text :: "bytes \<Rightarrow> header_field \<Rightarrow> bool" where
  "field_text l f \<longleftrightarrow> (\<exists>name a b. l = name @ CHR '':'' # a @ hf_value f @ b \<and> to_lower_ascii name = hf_name f \<and>
     list_all is_ows a \<and> list_all is_ows b)"

definition head_text :: "bytes \<Rightarrow> http_request \<Rightarrow> bool" where
  "head_text head r \<longleftrightarrow>
     (\<exists>ls. head = join_lines ((req_method r @ SP # req_target r @ SP # req_version r) # ls) \<and>
        list_all2 field_text ls (req_header_fields r))"

lemma parse_header_line_text: "parse_header_line l = Inr (hf_name f, hf_value f) \<Longrightarrow> field_text l f"
proof -
  assume "parse_header_line l = Inr (hf_name f, hf_value f)"
  then obtain raw v where l: "l = raw @ CHR '':'' # v" "hf_name f = to_lower_ascii raw" "hf_value f = ows_strip v"
    by (auto simp: parse_header_line_iff)
  obtain a b where "v = a @ ows_strip v @ b" "list_all is_ows a" "list_all is_ows b" using ows_strip_decomp by blast
  then show ?thesis unfolding field_text_def using l by metis
qed

lemma parse_block_Nil:
  "parse_block mb [] = Inl (''request line is missing method separator'', BadRequest)"
  by (simp add: parse_block_def parse_request_line_def)

lemma parse_block_text:
  assumes "sv_find CRLF2 b = Some i" and "parse_block mb (take i b) = Inr (r, n)"
  shows "head_text (take i b) r"
proof -
  obtain l ls where lines: "crlf_lines (take i b) = l # ls"
  proof (cases "crlf_lines (take i b)")
    case Nil
    then have "take i b = []" by (subst (asm) crlf_lines.simps) (auto split: if_splits option.splits)
    then show ?thesis using assms(2) by (simp only: parse_block_Nil) simp
  qed (rule that)
  with assms(2) obtain rl fs where pl: "parse_request_line l = Inr rl"
      "list_all2 (\<lambda>l f. parse_header_line l = Inr (hf_name f, hf_value f)) ls fs" "r = with_fields (base_request rl) fs"
    by (auto simp: parse_block_lines parse_lines_Inr)
  have "list_all2 field_text ls fs" using pl(2) by (rule list_all2_mono) (rule parse_header_line_text)
  moreover have "l = rl_method rl @ SP # rl_target rl @ SP # rl_version rl" using pl(1) by (simp add: parse_request_line_iff)
  ultimately show ?thesis
    using join_header_block [OF assms(1)] lines pl(3)
    by (auto simp: head_text_def with_fields_def base_request_def intro!: exI [of _ ls])
qed

lemma head_text_body [simp]: "head_text head (r\<lparr>req_body := x\<rparr>) = head_text head r"
  by (simp add: head_text_def)

end
