(* ===== verification/Http_Response.thy ===== *)
theory Http_Response
  imports Request_Grammar
begin

section \<open>Responses and their serialisation\<close>

text \<open>
  Models \<open>include/http/response.hpp\<close> and \<open>src/response.cpp\<close>. The header map of a response
  is an \<open>unordered_map\<close>: its entries are kept in insertion order, and the order in which
  \<open>serialize_response\<close> visits them is a parameter \<open>order\<close> that may be any permutation
  (\<open>iteration_order\<close>).
\<close>

named_theorems response_defs \<open>definitions of the fixed responses\<close>

type_synonym header_table = "(bytes \<times> bytes) list"

record http_response =
  resp_version :: bytes
  status_code :: int
  reason_phrase :: bytes
  resp_headers :: header_table
  resp_body :: bytes
  content_length :: "size_t option"
  suppress_body :: bool

definition default_response :: http_response where
  "default_response =
     \<lparr>resp_version = ''HTTP/1.1'', status_code = 200, reason_phrase = ''OK'', resp_headers = [],
      resp_body = [], content_length = None, suppress_body = False\<rparr>"

text \<open>\<open>headers[name] = value\<close>.\<close>

fun set_header :: "bytes \<Rightarrow> bytes \<Rightarrow> header_table \<Rightarrow> header_table" where
  "set_header name value [] = [(name, value)]"
| "set_header name value ((n, v) # m) =
     (if n = name then (n, value) # m else (n, v) # set_header name value m)"

definition iteration_order :: "(header_table \<Rightarrow> header_table) \<Rightarrow> bool" where
  "iteration_order order \<longleftrightarrow> (\<forall>m. mset (order m) = mset m)"

definition is_content_length :: "bytes \<Rightarrow> bool" where
  "is_content_length name \<longleftrightarrow> to_lower_ascii name = ''content-length''"

definition show_int :: "int \<Rightarrow> bytes" where
  "show_int i = (if i < 0 then CHR ''-'' # show_nat (nat (- i)) else show_nat (nat i))"

fun write_headers :: "header_table \<Rightarrow> bytes" where
  "write_headers [] = []"
| "write_headers ((name, value) # m) =
     (if is_content_length name then write_headers m
      else name @ '': '' @ value @ CRLF @ write_headers m)"

definition announced_length :: "http_response \<Rightarrow> nat" where
  "announced_length response =
     (case content_length response of Some n \<Rightarrow> unat n | None \<Rightarrow> length (resp_body response))"

definition serialize_response :: "(header_table \<Rightarrow> header_table) \<Rightarrow> http_response \<Rightarrow> bytes" where
  "serialize_response order response =
     resp_version response @ '' '' @ show_int (status_code response) @ '' '' @
     reason_phrase response @ CRLF @
     write_headers (order (resp_headers response)) @
     ''Content-Length: '' @ show_nat (announced_length response) @ CRLF @ CRLF @
     (if suppress_body response then [] else resp_body response)"

subsection \<open>The header table as a map\<close>

lemma set_header_map_of [simp]: "map_of (set_header k v m) = (map_of m)(k \<mapsto> v)"
  by (induction k v m rule: set_header.induct) auto

lemma set_header_keys: "fst ` set (set_header k v m) = insert k (fst ` set m)"
  by (induction k v m rule: set_header.induct) auto

lemma set_header_distinct:
  "distinct (map fst m) \<Longrightarrow> distinct (map fst (set_header k v m))"
proof (induction k v m rule: set_header.induct)
  case (2 k w n v m)
  then show ?case using set_header_keys [of k w m] by auto
qed simp

lemma set_header_mem: "(a, b) \<in> set (set_header k v m) \<Longrightarrow> (a, b) = (k, v) \<or> (a, b) \<in> set m"
  by (induction k v m rule: set_header.induct) (auto split: if_splits)

lemma set_header_new: "(k, v) \<in> set (set_header k v m)"
  by (induction k v m rule: set_header.induct) auto

subsection \<open>Lines of a response head\<close>

definition clean :: "bytes \<Rightarrow> bool" where
  "clean s \<longleftrightarrow> CR \<notin> set s \<and> LF \<notin> set s"

definition response_ok :: "http_response \<Rightarrow> bool" where
  "response_ok r \<longleftrightarrow> clean (resp_version r) \<and> clean (reason_phrase r) \<and>
     list_all (\<lambda>(n, v). is_token n \<and> clean v) (resp_headers r) \<and>
     distinct (map fst (resp_headers r))"

definition status_line :: "http_response \<Rightarrow> bytes" where
  "status_line r = resp_version r @ '' '' @ show_int (status_code r) @ '' '' @ reason_phrase r"

definition header_line :: "bytes \<times> bytes \<Rightarrow> bytes" where
  "header_line h = fst h @ '': '' @ snd h"

definition length_line :: "http_response \<Rightarrow> bytes" where
  "length_line r = ''Content-Length: '' @ show_nat (announced_length r)"

definition other_headers :: "header_table \<Rightarrow> header_table" where
  "other_headers m = filter (\<lambda>h. \<not> is_content_length (fst h)) m"

lemma write_headers_concat:
  "write_headers m = concat (map (\<lambda>h. header_line h @ CRLF) (other_headers m))"
  by (induction m rule: write_headers.induct) (auto simp: header_line_def other_headers_def)

lemma join_lines_concat:
  "join_lines (l # map f hs @ [e]) = l @ CRLF @ concat (map (\<lambda>h. f h @ CRLF) hs) @ e"
proof (induction hs arbitrary: l)
  case (Cons h hs)
  then show ?case using Cons.IH [of "f h"] by simp
qed simp

lemma serialize_lines:
  "serialize_response order r =
     join_lines (status_line r # map header_line (other_headers (order (resp_headers r))) @ [length_line r])
       @ CRLF2 @ (if suppress_body r then [] else resp_body r)"
  unfolding join_lines_concat
  by (simp add: serialize_response_def write_headers_concat status_line_def length_line_def)

lemma clean_line: "clean l \<Longrightarrow> l \<noteq> [] \<Longrightarrow> line_ok l"
  using sv_find_skip [of CRLF l "[]"] by (simp add: clean_def line_ok_def)

lemma clean_append [simp]: "clean (a @ b) \<longleftrightarrow> clean a \<and> clean b"
    "clean (c # b) \<longleftrightarrow> c \<noteq> CR \<and> c \<noteq> LF \<and> clean b" "clean []"
  by (auto simp: clean_def)

lemma clean_show_nat [simp]: "clean (show_nat n)"
  by (auto simp: clean_def is_digit_def dest!: show_nat_digits)

lemma clean_show_int [simp]: "clean (show_int i)"
  by (simp add: show_int_def)

lemma token_clean: "is_token s \<Longrightarrow> clean s"
  using token_not_in tchar_not by (auto simp: clean_def)

lemma response_lines_ok:
  assumes "iteration_order order" and "response_ok r"
  shows "list_all line_ok
    (status_line r # map header_line (other_headers (order (resp_headers r))) @ [length_line r])"
proof -
  have "set (order (resp_headers r)) = set (resp_headers r)"
    using assms(1) by (metis iteration_order_def mset_eq_setD)
  then have "line_ok (header_line h)" if "h \<in> set (other_headers (order (resp_headers r)))" for h
    using that assms(2)
    by (intro clean_line) (auto simp: header_line_def other_headers_def response_ok_def list_all_iff token_clean)
  moreover have "line_ok (status_line r)" "line_ok (length_line r)"
    using assms(2) by (auto intro!: clean_line simp: status_line_def length_line_def response_ok_def)
  ultimately show ?thesis by (auto simp: list_all_iff)
qed

lemma ows_strip_show_nat [simp]: "ows_strip (show_nat n) = show_nat n"
proof (rule ows_strip_fix)
  have "is_digit c \<Longrightarrow> \<not> is_ows c" for c by (auto simp: is_digit_def is_ows_def)
  then show "show_nat n = [] \<or> \<not> is_ows (hd (show_nat n)) \<and> \<not> is_ows (last (show_nat n))"
    using show_nat_digits by (metis hd_in_set last_in_set show_nat_not_Nil)
qed

lemma parse_content_length_show:
  "n < 2 ^ 64 \<Longrightarrow> parse_content_length (show_nat n) = Inr (of_nat n)"
  by (auto simp: parse_content_length_Inr decimal_show list_all_iff unat_of_nat take_bit_nat_eq_self
      dest: show_nat_digits)

lemma parse_length_line:
  "parse_header_line (length_line r) = Inr (''content-length'', show_nat (announced_length r))"
  unfolding parse_header_line_iff
  by (rule exI [of _ "''Content-Length''"], rule exI [of _ "SP # show_nat (announced_length r)"])
     (simp add: length_line_def is_token_def is_tchar_def isalnum_def is_digit_def to_lower_ascii_def
        tolower_def char_of_def bit_0)

lemma parse_other_line:
  assumes "is_token (fst h)" and "\<not> is_content_length (fst h)"
    and "parse_header_line (header_line h) = Inr (n, v)"
  shows "n \<noteq> ''content-length''"
proof -
  have "parse_header_line (header_line h) = Inr (to_lower_ascii (fst h), ows_strip (SP # snd h))"
    unfolding parse_header_line_iff header_line_def using assms(1)
    by (intro exI [of _ "fst h"] exI [of _ "SP # snd h"]) simp
  then show ?thesis using assms(2,3) by (simp add: is_content_length_def)
qed

subsection \<open>Properties\<close>

text \<open>
  C17. Response framing. Whatever the iteration order of the header map, a serialised response
  is one head, the blank line, and the body (nothing when the body is suppressed). The blank
  line found first is the one after the head; the head consists of the status line, one line
  for every header that is not a Content-Length in any case, and exactly one generated
  Content-Length line, from which the server's own parser reads back the announced length.
\<close>

theorem serialize_framing:
  assumes "iteration_order order" and "response_ok r" and "length (resp_body r) < 2 ^ 64"
  shows "\<exists>head hs.
    serialize_response order r = head @ CRLF2 @ (if suppress_body r then [] else resp_body r) \<and>
    sv_find CRLF2 (serialize_response order r) = Some (length head) \<and>
    crlf_lines head = status_line r # hs @ [length_line r] \<and>
    mset hs = image_mset header_line (mset (other_headers (resp_headers r))) \<and>
    (\<forall>l \<in> set hs. \<forall>n v. parse_header_line l = Inr (n, v) \<longrightarrow> n \<noteq> ''content-length'') \<and>
    parse_header_line (length_line r) = Inr (''content-length'', show_nat (announced_length r)) \<and>
    parse_content_length (show_nat (announced_length r)) = Inr (of_nat (announced_length r))"
proof -
  define hs where "hs = map header_line (other_headers (order (resp_headers r)))"
  define lines where "lines = status_line r # hs @ [length_line r]"
  have ok: "list_all line_ok lines"
    using response_lines_ok [OF assms(1,2)] by (simp add: lines_def hs_def)
  have ser: "serialize_response order r =
      join_lines lines @ CRLF2 @ (if suppress_body r then [] else resp_body r)"
    by (simp only: serialize_lines lines_def hs_def)
  have perm: "mset (order (resp_headers r)) = mset (resp_headers r)"
    using assms(1) by (simp add: iteration_order_def)
  have "mset hs = image_mset header_line (mset (other_headers (resp_headers r)))"
    using perm by (simp add: hs_def other_headers_def)
  moreover have "\<forall>l \<in> set hs. \<forall>n v. parse_header_line l = Inr (n, v) \<longrightarrow> n \<noteq> ''content-length''"
    using parse_other_line assms(2) mset_eq_setD [OF perm]
    by (fastforce simp: hs_def other_headers_def response_ok_def list_all_iff)
  moreover have "announced_length r < 2 ^ 64"
    using assms(3) unat_size_t by (auto simp: announced_length_def split: option.splits)
  ultimately show ?thesis
    using crlf_lines_join [OF ok] find_CRLF2_join [OF ok] ser parse_length_line parse_content_length_show
    by (intro exI [of _ "join_lines lines"] exI [of _ hs]) (simp add: lines_def)
qed

theorem serialize_framing_witness:
  "\<exists>head hs.
    serialize_response rev (default_response\<lparr>resp_headers := [(''Allow'', ''GET'')], resp_body := ''hi''\<rparr>)
      = head @ CRLF2 @ ''hi'' \<and>
    crlf_lines head = ''HTTP/1.1 200 OK'' # hs @ [''Content-Length: 2''] \<and>
    mset hs = {# ''Allow: GET'' #}"
proof -
  have order: "iteration_order rev" by (simp add: iteration_order_def)
  have ok: "response_ok (default_response\<lparr>resp_headers := [(''Allow'', ''GET'')], resp_body := ''hi''\<rparr>)"
    by (simp add: response_ok_def default_response_def is_token_def is_tchar_def isalnum_def is_digit_def)
  show ?thesis
    using serialize_framing [OF order ok]
    by (auto simp: default_response_def status_line_def length_line_def announced_length_def
        other_headers_def is_content_length_def to_lower_ascii_def tolower_def char_of_def bit_0
        show_int_def show_nat.simps digit_char_def header_line_def)
qed

end
