(* ===== verification/Static_File_Handler.thy ===== *)
theory Static_File_Handler
  imports Http_Response
begin

section \<open>The static file handler\<close>

text \<open>
  Models \<open>include/http/static_file_handler.hpp\<close> and \<open>src/static_file_handler.cpp\<close>. The
  lexical operations of \<open>std::filesystem::path\<close> (iteration, \<open>operator/\<close>, \<open>extension\<close>) are
  defined here for POSIX paths. The calls that ask the operating system are answered by an
  \<open>fs_env\<close>: every call of \<open>handle\<close> may be answered differently, so no consistency between
  them is assumed unless a lemma says so.
\<close>

unbundle bit_operations_syntax

type_synonym path = bytes

subsection \<open>Paths\<close>

abbreviation SLASH :: char where "SLASH \<equiv> CHR ''/''"

text \<open>The file names of a path: the maximal runs of characters other than the separator.\<close>

fun split_names :: "bytes \<Rightarrow> path \<Rightarrow> bytes list" where
  "split_names cur [] = (if cur = [] then [] else [cur])"
| "split_names cur (c # p) =
     (if c = SLASH then (if cur = [] then split_names [] p else cur # split_names [] p)
      else split_names (cur @ [c]) p)"

text \<open>
  The elements \<open>path::begin() .. path::end()\<close> visits: the root directory, the file names,
  and an empty element for a trailing separator.
\<close>

definition path_elements :: "path \<Rightarrow> bytes list" where
  "path_elements p =
     (if p \<noteq> [] \<and> hd p = SLASH then [''/''] else []) @ split_names [] p @
     (if split_names [] p \<noteq> [] \<and> last p = SLASH then [[]] else [])"

definition path_append :: "path \<Rightarrow> path \<Rightarrow> path" where
  "path_append a b =
     (if b \<noteq> [] \<and> hd b = SLASH then b
      else if a \<noteq> [] \<and> last a \<noteq> SLASH then a @ ''/'' @ b
      else a @ b)"

definition path_filename :: "path \<Rightarrow> bytes" where
  "path_filename p = rev (takeWhile (\<lambda>c. c \<noteq> SLASH) (rev p))"

definition path_extension :: "path \<Rightarrow> bytes" where
  "path_extension p =
     (let name = path_filename p; tail = rev (takeWhile (\<lambda>c. c \<noteq> CHR ''.'') (rev name))
      in if name = ''.'' \<or> name = ''..'' \<or> length tail + 1 \<ge> length name then []
         else CHR ''.'' # tail)"

subsection \<open>The file system's answers\<close>

record ifstream =
  if_data :: bytes
  if_bad :: bool

record fs_env =
  fs_canonical :: "path \<Rightarrow> path option"
  fs_weakly_canonical :: "path \<Rightarrow> path option"
  fs_exists :: "path \<Rightarrow> bool \<times> bool"
  fs_is_regular_file :: "path \<Rightarrow> bool"
  fs_file_size :: "path \<Rightarrow> size_t option"
  fs_open :: "path \<Rightarrow> ifstream option"

text \<open>
  \<open>fs_exists\<close> returns the answer and whether the error code was set; a stream delivers
  \<open>if_data\<close> and then ends, with a read error if \<open>if_bad\<close>.
\<close>

record static_file_handler =
  root :: path
  max_file_bytes :: size_t

subsection \<open>Target decoding\<close>

definition extract_path :: "bytes \<Rightarrow> bytes" where
  "extract_path target =
     (case sv_find [CHR ''?''] target of None \<Rightarrow> target | Some query \<Rightarrow> substr target 0 query)"

definition hex_value :: "char \<Rightarrow> int" where
  "hex_value ch =
     (let n = int (byte_val ch)
      in if 48 \<le> n \<and> n \<le> 57 then n - 48
         else if 97 \<le> n \<and> n \<le> 102 then n - 97 + 10
         else if 65 \<le> n \<and> n \<le> 70 then n - 65 + 10
         else -1)"

fun percent_decode :: "bytes \<Rightarrow> bytes option" where
  "percent_decode [] = Some []"
| "percent_decode (c # input) =
     (if c \<noteq> CHR ''%'' then map_option ((#) c) (percent_decode input)
      else case input of
          h # l # rest \<Rightarrow>
            let high = hex_value h; low = hex_value l
            in if high < 0 \<or> low < 0 then None
               else let decoded = char_of (nat (push_bit 4 high OR low))
                    in if decoded = CHR 0x00 then None
                       else map_option ((#) decoded) (percent_decode rest)
        | _ \<Rightarrow> None)"

definition make_relative_path :: "bytes \<Rightarrow> path" where
  "make_relative_path decoded_path = dropWhile (\<lambda>c. c = SLASH) decoded_path"

fun inside_loop :: "bytes list \<Rightarrow> bytes list \<Rightarrow> bool" where
  "inside_loop [] cs = True"
| "inside_loop (r # rs) [] = False"
| "inside_loop (r # rs) (c # cs) = (if r \<noteq> c then False else inside_loop rs cs)"

definition is_inside_root :: "path \<Rightarrow> path \<Rightarrow> bool" where
  "is_inside_root rt candidate = inside_loop (path_elements rt) (path_elements candidate)"

subsection \<open>Responses\<close>

definition make_response :: "int \<Rightarrow> bytes \<Rightarrow> bytes \<Rightarrow> http_response" where
  "make_response code reason body =
     default_response\<lparr>status_code := code, reason_phrase := reason,
       resp_headers := set_header ''Content-Type'' ''text/plain'' [], resp_body := body\<rparr>"

definition bad_request :: http_response where
  "bad_request = make_response 400 ''Bad Request'' (''bad request'' @ [LF])"

definition forbidden :: http_response where
  "forbidden = make_response 403 ''Forbidden'' (''forbidden'' @ [LF])"

definition not_found :: http_response where
  "not_found = make_response 404 ''Not Found'' (''not found'' @ [LF])"

definition content_type_for :: "path \<Rightarrow> bytes" where
  "content_type_for p =
     (let extension = path_extension p
      in if extension = ''.html'' \<or> extension = ''.htm'' then ''text/html''
         else if extension = ''.txt'' then ''text/plain''
         else if extension = ''.css'' then ''text/css''
         else if extension = ''.js'' then ''application/javascript''
         else ''application/octet-stream'')"

subsection \<open>Reading a file\<close>

text \<open>
  The loop of \<open>read_file\<close>: each \<open>read\<close> asks for 8192 bytes; a short read ends the loop,
  at the end of the file with \<open>eofbit\<close>, on a read error without it.
\<close>

function read_loop :: "nat \<Rightarrow> bool \<Rightarrow> bytes \<Rightarrow> bytes \<Rightarrow> bytes option" where
  "read_loop limit bad rest body =
     (let chunk = take 8192 rest
      in if length chunk > size_sub limit (length body) then None
         else if length chunk = 8192 then read_loop limit bad (drop 8192 rest) (body @ chunk)
         else if bad then None
         else Some (body @ chunk))"
  by pat_completeness auto
termination
  by (relation "measure (\<lambda>(limit, bad, rest, body). length rest)") auto

declare read_loop.simps [simp del]

definition read_file :: "fs_env \<Rightarrow> path \<Rightarrow> size_t \<Rightarrow> bytes option" where
  "read_file env p limit =
     (case fs_open env p of
        None \<Rightarrow> None
      | Some file \<Rightarrow> read_loop (unat limit) (if_bad file) (if_data file) [])"

definition serve_file :: "fs_env \<Rightarrow> path \<Rightarrow> bool \<Rightarrow> size_t \<Rightarrow> http_response" where
  "serve_file env p is_head limit =
     (let response = default_response\<lparr>status_code := 200, reason_phrase := ''OK'',
            resp_headers := set_header ''Content-Type'' (content_type_for p) []\<rparr>
      in case fs_file_size env p of
           None \<Rightarrow> forbidden
         | Some file_size \<Rightarrow>
           if file_size > limit then forbidden
           else if is_head
           then response\<lparr>content_length := Some file_size, suppress_body := True\<rparr>
           else (case read_file env p limit of
                   None \<Rightarrow> forbidden
                 | Some body \<Rightarrow> response\<lparr>resp_body := body\<rparr>))"

subsection \<open>The handler\<close>

definition new_handler :: "fs_env \<Rightarrow> path \<Rightarrow> size_t \<Rightarrow> static_file_handler option" where
  "new_handler env p limit =
     map_option (\<lambda>r. \<lparr>root = r, max_file_bytes = limit\<rparr>) (fs_canonical env p)"

definition default_max_file_bytes :: size_t where
  "default_max_file_bytes = 16 * 1024 * 1024"

definition handle :: "fs_env \<Rightarrow> static_file_handler \<Rightarrow> http_request \<Rightarrow> http_response" where
  "handle env h request =
     (let path0 = extract_path (req_target request);
          path = (if path0 = ''/'' then ''/index.html'' else path0)
      in case percent_decode path of
           None \<Rightarrow> bad_request
         | Some decoded \<Rightarrow>
           if decoded = [] \<or> hd decoded \<noteq> SLASH then bad_request
           else (case fs_weakly_canonical env (path_append (root h) (make_relative_path decoded)) of
               None \<Rightarrow> forbidden
             | Some candidate \<Rightarrow>
               if \<not> is_inside_root (root h) candidate then forbidden
               else (case fs_exists env candidate of
                   (False, ec) \<Rightarrow> if ec then forbidden else not_found
                 | (True, _) \<Rightarrow>
                   if \<not> fs_is_regular_file env candidate then forbidden
                   else serve_file env candidate (req_method request = ''HEAD'') (max_file_bytes h))))"

subsection \<open>Reading is complete and bounded\<close>

lemma read_loop_eq:
  "length body \<le> limit \<Longrightarrow> read_loop limit bad rest body =
     (if length body + length rest \<le> limit \<and> \<not> bad then Some (body @ rest) else None)"
proof (induction limit bad rest body rule: read_loop.induct)
  case (1 limit bad rest body)
  let ?c = "take 8192 rest"
  show ?case
  proof (cases "length ?c > limit - length body")
    case True
    then have "length body + length rest > limit" by auto
    then show ?thesis using True 1(2) by (subst read_loop.simps) (simp add: Let_def)
  next
    case fits: False
    show ?thesis
    proof (cases "length ?c = 8192")
      case True
      then have "read_loop limit bad rest body = read_loop limit bad (drop 8192 rest) (body @ ?c)"
        using fits 1(2) by (subst read_loop.simps) (simp add: Let_def)
      also have "\<dots> = (if length (body @ ?c) + length (drop 8192 rest) \<le> limit \<and> \<not> bad
          then Some ((body @ ?c) @ drop 8192 rest) else None)"
        using fits True 1(2) by (intro 1(1) [OF refl]) auto
      finally show ?thesis using True by (auto simp: min_def split: if_splits)
    next
      case False
      then have "?c = rest" "length rest < 8192" by auto
      then show ?thesis using fits 1(2) by (subst read_loop.simps) (auto simp: Let_def)
    qed
  qed
qed

lemma read_file_Some:
  "read_file env p limit = Some body \<longleftrightarrow>
     (\<exists>file. fs_open env p = Some file \<and> \<not> if_bad file \<and> body = if_data file \<and>
        length (if_data file) \<le> unat limit)"
  by (auto simp: read_file_def read_loop_eq split: option.splits)

subsection \<open>Containment is a prefix of path elements\<close>

lemma inside_loop_prefix: "inside_loop rs cs \<longleftrightarrow> prefix rs cs"
  by (induction rs cs rule: inside_loop.induct) auto

lemma is_inside_root_iff:
  "is_inside_root rt c \<longleftrightarrow> prefix (path_elements rt) (path_elements c)"
  by (simp add: is_inside_root_def inside_loop_prefix)

subsection \<open>Percent decoding\<close>

definition hex_char :: "nat \<Rightarrow> char" where
  "hex_char d = (if d < 10 then char_of (48 + d) else char_of (55 + d))"

definition unreserved :: "char \<Rightarrow> bool" where
  "unreserved c \<longleftrightarrow> isalnum c \<or> c \<in> {CHR ''-'', CHR ''.'', CHR ''_'', CHR ''~'', SLASH}"

definition percent_encode :: "bytes \<Rightarrow> bytes" where
  "percent_encode s = concat (map (\<lambda>c. if unreserved c then [c]
     else [CHR ''%'', hex_char (byte_val c div 16), hex_char (byte_val c mod 16)]) s)"

lemma hex_value_hex_char: "d < 16 \<Longrightarrow> hex_value (hex_char d) = int d"
  by (auto simp: hex_value_def hex_char_def)

lemma push_or: "0 \<le> l \<Longrightarrow> l < 16 \<Longrightarrow> push_bit 4 h OR l = 16 * h + (l::int)"
proof -
  assume "0 \<le> l" "l < 16"
  then have "take_bit 4 l = l" by (simp add: take_bit_int_eq_self)
  then have "push_bit 4 h OR l = concat_bit 4 l h" by (simp add: concat_bit_def or.commute)
  also have "\<dots> = 16 * h + l" using \<open>take_bit 4 l = l\<close> by (simp add: concat_bit_eq push_bit_eq_mult)
  finally show ?thesis .
qed

lemma percent_not_unreserved: "\<not> unreserved (CHR ''%'')"
  by (simp add: unreserved_def isalnum_def is_digit_def)

lemma percent_decode_encode_char:
  assumes "c \<noteq> CHR 0x00"
  shows "percent_decode ((if unreserved c then [c]
     else [CHR ''%'', hex_char (byte_val c div 16), hex_char (byte_val c mod 16)]) @ s)
   = map_option ((#) c) (percent_decode s)"
proof (cases "unreserved c")
  case True
  then have "c \<noteq> CHR ''%''" using percent_not_unreserved by auto
  then show ?thesis using True by simp
next
  case False
  have "byte_val c div 16 < 16"
    by (rule less_mult_imp_div_less) (use byte_val_less [of c] in linarith)
  moreover have "nat (push_bit 4 (int (byte_val c div 16)) OR int (byte_val c mod 16)) = byte_val c"
    by (subst push_or) (auto simp: nat_add_distrib nat_mult_distrib simp flip: zdiv_int zmod_int of_nat_mult)
  ultimately show ?thesis using False assms by (simp add: hex_value_hex_char Let_def)
qed

lemma percent_decode_encode_aux:
  "CHR 0x00 \<notin> set s \<Longrightarrow> percent_decode (percent_encode s @ t) = map_option ((@) s) (percent_decode t)"
proof (induction s)
  case Nil
  then show ?case by (cases "percent_decode t") (simp_all add: percent_encode_def)
next
  case (Cons c s)
  have "percent_encode (c # s) @ t = (if unreserved c then [c]
     else [CHR ''%'', hex_char (byte_val c div 16), hex_char (byte_val c mod 16)]) @ (percent_encode s @ t)"
    by (simp add: percent_encode_def)
  with Cons show ?case
    using percent_decode_encode_char [of c "percent_encode s @ t"]
    by (cases "percent_decode t") auto
qed

lemma percent_decode_props:
  "percent_decode s = Some d \<Longrightarrow> length d \<le> length s \<and> (CHR 0x00 \<in> set d \<longrightarrow> CHR 0x00 \<in> set s)"
proof (induction s arbitrary: d rule: percent_decode.induct)
  case (2 c input)
  show ?case
  proof (cases "c = CHR ''%''")
    case False
    then show ?thesis using 2(1) [of "tl d"] 2(3) by (cases d) auto
  next
    case True
    then show ?thesis using 2(2,3)
      by (force simp: Let_def split: list.splits if_splits)
  qed
qed simp


subsection \<open>The responses of the handler\<close>

lemmas fixed_responses = bad_request_def forbidden_def not_found_def make_response_def
  default_response_def

lemma fixed_status [simp]:
  "status_code bad_request = 400" "status_code forbidden = 403" "status_code not_found = 404"
  by (simp_all add: fixed_responses)

definition decoded_target :: "http_request \<Rightarrow> bytes option" where
  "decoded_target request =
     (case percent_decode (if extract_path (req_target request) = ''/'' then ''/index.html''
                           else extract_path (req_target request)) of
        None \<Rightarrow> None
      | Some d \<Rightarrow> if d \<noteq> [] \<and> hd d = SLASH then Some d else None)"

definition candidate_of :: "fs_env \<Rightarrow> static_file_handler \<Rightarrow> http_request \<Rightarrow> path option" where
  "candidate_of env h request =
     (case decoded_target request of
        None \<Rightarrow> None
      | Some d \<Rightarrow>
        (case fs_weakly_canonical env (path_append (root h) (make_relative_path d)) of
           None \<Rightarrow> None
         | Some c \<Rightarrow> if is_inside_root (root h) c then Some c else None))"

lemma handle_eq:
  "handle env h request =
     (case decoded_target request of
        None \<Rightarrow> bad_request
      | Some d \<Rightarrow>
        (case candidate_of env h request of
           None \<Rightarrow> forbidden
         | Some c \<Rightarrow>
           if \<not> fst (fs_exists env c) then (if snd (fs_exists env c) then forbidden else not_found)
           else if \<not> fs_is_regular_file env c then forbidden
           else serve_file env c (req_method request = ''HEAD'') (max_file_bytes h)))"
proof (cases "decoded_target request")
  case None
  then show ?thesis
    by (auto simp: handle_def decoded_target_def Let_def split: option.splits if_splits)
next
  case (Some d)
  let ?path = "if extract_path (req_target request) = ''/'' then ''/index.html''
               else extract_path (req_target request)"
  have d: "percent_decode ?path = Some d" "d \<noteq> []" "hd d = SLASH"
    using Some by (auto simp: decoded_target_def split: option.splits if_splits)
  show ?thesis
  proof (cases "fs_weakly_canonical env (path_append (root h) (make_relative_path d))")
    case None
    then show ?thesis using d Some by (simp add: handle_def candidate_of_def Let_def)
  next
    case (Some c)
    then show ?thesis
      using d \<open>decoded_target request = Some d\<close>
      by (cases "fs_exists env c") (simp add: handle_def candidate_of_def Let_def split: bool.split)
  qed
qed

definition file_response :: "path \<Rightarrow> http_response" where
  "file_response p = default_response\<lparr>resp_headers := [(''Content-Type'', content_type_for p)]\<rparr>"

lemma serve_file_200:
  "status_code (serve_file env p is_head limit) = 200 \<longleftrightarrow>
     (\<exists>size. fs_file_size env p = Some size \<and> size \<le> limit \<and>
        (is_head \<or> (\<exists>body. read_file env p limit = Some body)))"
  by (auto simp: serve_file_def Let_def default_response_def not_less split: option.splits)

lemma serve_file_codes:
  "status_code (serve_file env p is_head limit) = 200 \<or> status_code (serve_file env p is_head limit) = 403"
  "status_code (serve_file env p is_head limit) \<noteq> 400"
  "status_code (serve_file env p is_head limit) \<noteq> 404"
  by (auto simp: serve_file_def default_response_def Let_def split: option.splits)

lemma serve_file_eq:
  assumes "status_code (serve_file env p is_head limit) = 200"
  shows "serve_file env p is_head limit =
    (if is_head then (file_response p)\<lparr>content_length := fs_file_size env p, suppress_body := True\<rparr>
     else (file_response p)\<lparr>resp_body := the (read_file env p limit)\<rparr>)"
  using assms
  by (auto simp: serve_file_def file_response_def Let_def default_response_def split: option.splits if_splits)

lemma handle_200:
  "status_code (handle env h request) = 200 \<longleftrightarrow>
     (\<exists>c. candidate_of env h request = Some c \<and> fst (fs_exists env c) \<and> fs_is_regular_file env c \<and>
        status_code (serve_file env c (req_method request = ''HEAD'') (max_file_bytes h)) = 200)"
  by (auto simp: handle_eq candidate_of_def split: option.splits)

lemma candidate_inside:
  "candidate_of env h request = Some c \<Longrightarrow> prefix (path_elements (root h)) (path_elements c)"
  by (auto simp: candidate_of_def is_inside_root_iff split: option.splits if_splits)

lemma content_type_ok [simp]: "clean (content_type_for p)"
  by (simp add: content_type_for_def Let_def)

lemma handle_response_ok: "response_ok (handle env h request)"
proof -
  have tok: "is_token ''Content-Type''"
    by (simp add: is_token_def is_tchar_def isalnum_def is_digit_def)
  have "response_ok bad_request" "response_ok forbidden" "response_ok not_found"
    using tok by (simp_all add: response_ok_def fixed_responses)
  moreover have "response_ok (serve_file env c b l)" for c b l
    using tok \<open>response_ok forbidden\<close>
    by (auto simp: serve_file_def response_ok_def default_response_def Let_def split: option.splits)
  ultimately show ?thesis by (auto simp: handle_eq split: option.splits)
qed

lemma handle_length: "length (resp_body (handle env h request)) < 2 ^ 64"
proof -
  have "length (resp_body forbidden) < 2 ^ 64" "length (resp_body not_found) < 2 ^ 64"
    "length (resp_body bad_request) < 2 ^ 64" by (simp_all add: fixed_responses)
  moreover have "length (resp_body (serve_file env c b l)) < 2 ^ 64" for c b l
    using calculation unat_size_t [of l]
    by (auto simp: serve_file_def default_response_def Let_def read_file_Some split: option.splits)
  ultimately show ?thesis by (auto simp: handle_eq split: option.splits)
qed

subsection \<open>A consistent file system\<close>

text \<open>
  The contract of a file system that does not change during a request: the answers of the
  calls agree with one assignment of contents to the paths of readable regular files.
\<close>

locale file_store =
  fixes env :: fs_env and content :: "path \<Rightarrow> bytes option"
  assumes regular_content: "fs_is_regular_file env c \<Longrightarrow> content c \<noteq> None"
    and size_content: "fs_file_size env c = Some n \<Longrightarrow> content c = Some d \<Longrightarrow> unat n = length d"
    and open_content: "fs_open env c = Some f \<Longrightarrow> content c = Some d \<Longrightarrow> if_data f = d \<and> \<not> if_bad f"
begin

lemma get_body_is_content:
  assumes "status_code (handle env h request) = 200" and "req_method request \<noteq> ''HEAD''"
  shows "\<exists>c. candidate_of env h request = Some c \<and> content c = Some (resp_body (handle env h request))"
proof -
  obtain c where c: "candidate_of env h request = Some c" "fst (fs_exists env c)"
      "fs_is_regular_file env c"
    and s: "status_code (serve_file env c False (max_file_bytes h)) = 200"
    using assms by (auto simp: handle_200)
  obtain d where d: "content c = Some d" using regular_content [OF c(3)] by auto
  have "handle env h request = serve_file env c False (max_file_bytes h)"
    using c assms(2) by (auto simp: handle_eq candidate_of_def split: option.splits)
  moreover obtain f where "fs_open env c = Some f" "read_file env c (max_file_bytes h) = Some (if_data f)"
    using s by (auto simp: serve_file_200 read_file_Some)
  ultimately show ?thesis
    using c d open_content serve_file_eq [OF s] by (auto simp: file_response_def default_response_def)
qed

lemma head_length_is_content:
  assumes "status_code (handle env h request) = 200" and "req_method request = ''HEAD''"
  shows "\<exists>c d. candidate_of env h request = Some c \<and> content c = Some d \<and>
    announced_length (handle env h request) = length d \<and> suppress_body (handle env h request)"
proof -
  obtain c where c: "candidate_of env h request = Some c" "fst (fs_exists env c)"
      "fs_is_regular_file env c"
    and s: "status_code (serve_file env c True (max_file_bytes h)) = 200"
    using assms by (auto simp: handle_200)
  obtain d where d: "content c = Some d" using regular_content [OF c(3)] by auto
  have "handle env h request = serve_file env c True (max_file_bytes h)"
    using c assms(2) by (auto simp: handle_eq candidate_of_def split: option.splits)
  moreover obtain n where "fs_file_size env c = Some n" using s by (auto simp: serve_file_200)
  ultimately show ?thesis
    using c d size_content serve_file_eq [OF s]
    by (auto simp: file_response_def default_response_def announced_length_def)
qed

end

subsection \<open>Properties\<close>

definition sample_env :: fs_env where
  "sample_env =
     \<lparr>fs_canonical = Some, fs_weakly_canonical = Some, fs_exists = (\<lambda>p. (p = ''/srv/a.txt'', False)),
      fs_is_regular_file = (\<lambda>p. p = ''/srv/a.txt''), fs_file_size = (\<lambda>p. Some 2),
      fs_open = (\<lambda>p. Some \<lparr>if_data = ''hi'', if_bad = False\<rparr>)\<rparr>"

definition sample_target :: http_request where
  "sample_target = \<lparr>req_method = ''GET'', req_target = ''/a%2Etxt?q'', req_version = ''HTTP/1.1'',
     req_headers = Map.empty, req_header_fields = [], req_body = []\<rparr>"

text \<open>
  C11. What a 200 means. The handler answers 200 only for a candidate path that the file system
  returned for the document root joined with the decoded target, whose path elements extend
  those of the document root, which exists and is a regular file within the size limit. A HEAD
  answer announces that size without a body; any other answer carries exactly the bytes of the
  opened file, never more than the limit.
\<close>

theorem handle_serves_contained_file:
  assumes "status_code (handle env h request) = 200"
  shows "\<exists>d c size. decoded_target request = Some d \<and>
    fs_weakly_canonical env (path_append (root h) (make_relative_path d)) = Some c \<and>
    prefix (path_elements (root h)) (path_elements c) \<and>
    fst (fs_exists env c) \<and> fs_is_regular_file env c \<and>
    fs_file_size env c = Some size \<and> size \<le> max_file_bytes h \<and>
    map_of (resp_headers (handle env h request)) ''Content-Type'' = Some (content_type_for c) \<and>
    (if req_method request = ''HEAD''
     then suppress_body (handle env h request) \<and> content_length (handle env h request) = Some size
     else \<exists>file. fs_open env c = Some file \<and> \<not> if_bad file \<and>
        resp_body (handle env h request) = if_data file \<and>
        length (resp_body (handle env h request)) \<le> unat (max_file_bytes h))"
proof -
  from assms obtain c where c: "candidate_of env h request = Some c" "fst (fs_exists env c)"
      "fs_is_regular_file env c"
    and s: "status_code (serve_file env c (req_method request = ''HEAD'') (max_file_bytes h)) = 200"
    by (auto simp: handle_200)
  obtain d where d: "decoded_target request = Some d"
      "fs_weakly_canonical env (path_append (root h) (make_relative_path d)) = Some c"
    using c(1) by (auto simp: candidate_of_def split: option.splits if_splits)
  obtain size where size: "fs_file_size env c = Some size" "size \<le> max_file_bytes h"
      "req_method request = ''HEAD'' \<or> (\<exists>body. read_file env c (max_file_bytes h) = Some body)"
    using s by (auto simp: serve_file_200)
  have r: "handle env h request = serve_file env c (req_method request = ''HEAD'') (max_file_bytes h)"
    using c d by (simp add: handle_eq)
  show ?thesis
    using c d size candidate_inside [OF c(1)]
    unfolding r serve_file_eq [OF s]
    by (auto simp: file_response_def default_response_def read_file_def read_loop_eq
        split: option.splits if_splits)
qed

theorem handle_serves_contained_file_witness:
  "\<exists>d c. decoded_target sample_target = Some d \<and>
    fs_weakly_canonical sample_env (path_append ''/srv'' (make_relative_path d)) = Some c \<and>
    prefix (path_elements ''/srv'') (path_elements c) \<and>
    resp_body (handle sample_env \<lparr>root = ''/srv'', max_file_bytes = 16\<rparr> sample_target) = ''hi''"
proof -
  let ?h = "\<lparr>root = ''/srv'', max_file_bytes = 16\<rparr>"
  have ok: "status_code (handle sample_env ?h sample_target) = 200"
    by (simp add: handle_eq decoded_target_def candidate_of_def sample_env_def sample_target_def
        extract_path_def substr_def hex_value_def push_or Let_def make_relative_path_def path_append_def
        is_inside_root_iff path_elements_def serve_file_200 read_file_def read_loop_eq char_of_def bit_0)
  show ?thesis
    using handle_serves_contained_file [OF ok]
    by (auto simp: sample_env_def sample_target_def)
qed

text \<open>
  Error answers. The handler answers 400 exactly when the target does not decode to an
  absolute path, 404 exactly when the contained candidate does not exist, and otherwise 403
  or 200.
\<close>

theorem handle_error_codes:
  "(status_code (handle env h request) = 400 \<longleftrightarrow> decoded_target request = None) \<and>
   (status_code (handle env h request) = 404 \<longleftrightarrow>
     (\<exists>c. candidate_of env h request = Some c \<and> fs_exists env c = (False, False))) \<and>
   status_code (handle env h request) \<in> {200, 400, 403, 404}"
  by (auto simp: handle_eq candidate_of_def prod_eq_iff serve_file_codes split: option.splits)

text \<open>
  Percent decoding inverts percent encoding on every byte string without a NUL byte.
\<close>

theorem percent_decode_encode:
  assumes "CHR 0x00 \<notin> set s"
  shows "percent_decode (percent_encode s) = Some s"
  using percent_decode_encode_aux [OF assms, of "[]"] by simp

theorem percent_decode_encode_witness:
  "percent_decode (percent_encode ''/a b'') = Some ''/a b''"
  by (rule percent_decode_encode) simp

end
