(* ===== verification/Posix_Fs.thy ===== *)
theory Posix_Fs
  imports Static_File_Handler
begin

section \<open>The handler on a POSIX file tree with symbolic links\<close>

text \<open>
  A concrete file system for the calls of the static file handler: a tree of directories,
  regular files and symbolic links, path resolution as POSIX describes it (at most 40 links,
  a missing or non-directory component is ``not found'', a longer chain of links an error),
  and \<open>weakly_canonical\<close> as the C++ standard describes it: the canonical form of the leading
  elements that exist, followed by the others, lexically normalised. Names are free of NUL
  bytes and the tree does not change while a request is handled.
\<close>

subsection \<open>Trees and path resolution\<close>

datatype node = Dir | File bytes bool | Link path

type_synonym tree = "bytes list \<rightharpoonup> node"

datatype lookup = Found "bytes list" | Missing | Looping

definition is_dir :: "tree \<Rightarrow> bytes list \<Rightarrow> bool" where
  "is_dir t ns \<longleftrightarrow> ns = [] \<or> t ns = Some Dir"

definition names :: "path \<Rightarrow> bytes list" where
  "names p = (if p \<noteq> [] \<and> hd p = SLASH then tl (path_elements p) else path_elements p)"

function resolve :: "tree \<Rightarrow> nat \<Rightarrow> bytes list \<Rightarrow> bytes list \<Rightarrow> lookup" where
  "resolve t n cur [] = Found cur"
| "resolve t n cur (c # cs) =
     (if \<not> is_dir t cur then Missing
      else if c = [] \<or> c = ''.'' then resolve t n cur cs
      else if c = ''..'' then resolve t n (butlast cur) cs
      else case t (cur @ [c]) of
          None \<Rightarrow> Missing
        | Some (Link target) \<Rightarrow>
            (case n of 0 \<Rightarrow> Looping
             | Suc m \<Rightarrow> resolve t m (if target \<noteq> [] \<and> hd target = SLASH then [] else cur)
                          (names target @ cs))
        | Some _ \<Rightarrow> resolve t n (cur @ [c]) cs)"
  by pat_completeness auto
termination
  by (relation "measures [\<lambda>(t, n, cur, cs). n, \<lambda>(t, n, cur, cs). length cs]") auto

definition locate :: "tree \<Rightarrow> path \<Rightarrow> lookup" where
  "locate t p = resolve t 40 [] (names p)"

definition path_string :: "bytes list \<Rightarrow> path" where
  "path_string ns = (if ns = [] then ''/'' else concat (map ((#) SLASH) ns))"

fun exist_prefix :: "tree \<Rightarrow> bytes list \<Rightarrow> bytes list \<Rightarrow> (bytes list \<times> bytes list) option" where
  "exist_prefix t pre [] = Some (pre, [])"
| "exist_prefix t pre (e # es) =
     (case resolve t 40 [] (pre @ [e]) of
        Found _ \<Rightarrow> exist_prefix t (pre @ [e]) es
      | Missing \<Rightarrow> Some (pre, e # es)
      | Looping \<Rightarrow> None)"

fun lexically_normal :: "bytes list \<Rightarrow> bytes list \<Rightarrow> bytes list" where
  "lexically_normal ns [] = ns"
| "lexically_normal ns (c # cs) =
     (if c = [] \<or> c = ''.'' then lexically_normal ns cs
      else if c = ''..'' then lexically_normal (butlast ns) cs
      else lexically_normal (ns @ [c]) cs)"

definition normal_string :: "bytes list \<Rightarrow> bytes list \<Rightarrow> path" where
  "normal_string ns rest =
     (let all = lexically_normal ns rest
      in path_string all @
         (if all \<noteq> [] \<and> rest \<noteq> [] \<and> last rest \<in> {[], ''.'', ''..''} then ''/'' else []))"

definition posix_weakly_canonical :: "tree \<Rightarrow> path \<Rightarrow> path option" where
  "posix_weakly_canonical t p =
     (case locate t p of
        Found ns \<Rightarrow> Some (path_string ns)
      | Looping \<Rightarrow> None
      | Missing \<Rightarrow>
        (case exist_prefix t [] (names p) of
           None \<Rightarrow> None
         | Some (pre, rest) \<Rightarrow>
           (case resolve t 40 [] pre of
              Found ns \<Rightarrow> Some (normal_string ns rest)
            | _ \<Rightarrow> None)))"

definition file_at :: "tree \<Rightarrow> path \<Rightarrow> (bytes \<times> bool) option" where
  "file_at t p =
     (case locate t p of
        Found ns \<Rightarrow> (case t ns of Some (File d r) \<Rightarrow> Some (d, r) | _ \<Rightarrow> None)
      | _ \<Rightarrow> None)"

definition posix_env :: "tree \<Rightarrow> fs_env" where
  "posix_env t =
     \<lparr>fs_canonical = (\<lambda>p. case locate t p of Found ns \<Rightarrow> Some (path_string ns) | _ \<Rightarrow> None),
      fs_weakly_canonical = posix_weakly_canonical t,
      fs_exists = (\<lambda>p. case locate t p of Found _ \<Rightarrow> (True, False) | Missing \<Rightarrow> (False, False)
                       | Looping \<Rightarrow> (False, True)),
      fs_is_regular_file = (\<lambda>p. file_at t p \<noteq> None),
      fs_file_size = (\<lambda>p. case file_at t p of
          Some (d, r) \<Rightarrow> if length d < 2 ^ 64 then Some (of_nat (length d)) else None
        | None \<Rightarrow> None),
      fs_open = (\<lambda>p. case file_at t p of
          Some (d, True) \<Rightarrow> Some \<lparr>if_data = d, if_bad = False\<rparr>
        | _ \<Rightarrow> None)\<rparr>"

definition posix_content :: "tree \<Rightarrow> path \<Rightarrow> bytes option" where
  "posix_content t p = map_option fst (file_at t p)"

interpretation posix: file_store "posix_env t" "posix_content t" for t
  by unfold_locales
     (auto simp: posix_env_def posix_content_def unat_of_nat take_bit_nat_eq_self
        split: option.splits if_splits bool.splits)

subsection \<open>Physical locations\<close>

text \<open>
  A list of names is physical when no proper prefix of it is anything but a directory and it
  is not a link itself: resolving it does not leave it.
\<close>

definition good_name :: "bytes \<Rightarrow> bool" where
  "good_name c \<longleftrightarrow> c \<noteq> [] \<and> c \<noteq> ''.'' \<and> c \<noteq> ''..'' \<and> SLASH \<notin> set c"

definition physical :: "tree \<Rightarrow> bytes list \<Rightarrow> bool" where
  "physical t ns \<longleftrightarrow> list_all good_name ns \<and>
     (\<forall>i < length ns. is_dir t (take i ns)) \<and>
     (ns \<noteq> [] \<longrightarrow> t ns \<noteq> None \<and> (\<forall>p. t ns \<noteq> Some (Link p)))"

lemma physical_Nil [simp]: "physical t []"
  by (simp add: physical_def)

lemma physical_butlast: "physical t ns \<Longrightarrow> physical t (butlast ns)"
proof (cases ns rule: rev_cases)
  case (snoc ms m)
  assume p: "physical t ns"
  then have "is_dir t ms" using snoc by (auto simp: physical_def dest: spec [of _ "length ms"])
  moreover have "is_dir t (take i ms)" if "i < length ms" for i
    using p snoc that by (auto simp: physical_def dest: spec [of _ i])
  ultimately show ?thesis using p snoc by (auto simp: physical_def is_dir_def)
qed simp


lemma physical_snoc:
  "physical t cur \<Longrightarrow> is_dir t cur \<Longrightarrow> good_name c \<Longrightarrow> t (cur @ [c]) = Some nd \<Longrightarrow>
     (\<And>p. nd \<noteq> Link p) \<Longrightarrow> physical t (cur @ [c])"
  by (auto simp: physical_def less_Suc_eq)

lemma split_names_no_slash: "SLASH \<notin> set cur \<Longrightarrow> c \<in> set (split_names cur p) \<Longrightarrow> SLASH \<notin> set c"
  by (induction cur p rule: split_names.induct) (auto split: if_splits)

lemma names_no_slash: "c \<in> set (names p) \<Longrightarrow> SLASH \<notin> set c"
  using split_names_no_slash [of "[]" c p]
  by (auto simp: names_def path_elements_def split: if_splits)

lemma resolve_physical:
  "resolve t n cur cs = Found ns \<Longrightarrow> physical t cur \<Longrightarrow> \<forall>c \<in> set cs. SLASH \<notin> set c \<Longrightarrow> physical t ns"
proof (induction t n cur cs rule: resolve.induct)
  case (1 t n cur)
  then show ?case by simp
next
  case (2 t n cur c cs)
  have d: "is_dir t cur" using 2(6) by (auto split: if_splits)
  consider (skip) "c = [] \<or> c = ''.''" | (up) "c = ''..''" | (name) "good_name c"
    using 2(8) by (auto simp: good_name_def)
  then show ?case
  proof cases
    case skip
    then show ?thesis using 2(1) d 2(6-8) by auto
  next
    case up
    then show ?thesis using 2(2) d 2(6-8) physical_butlast by auto
  next
    case name
    then have c: "c \<noteq> []" "c \<noteq> ''.''" "c \<noteq> ''..''" by (auto simp: good_name_def)
    obtain nd where nd: "t (cur @ [c]) = Some nd" using 2(6) d c by (auto split: option.splits)
    show ?thesis
    proof (cases nd)
      case (Link target)
      obtain m where n: "n = Suc m" using 2(6) d c nd Link by (cases n) auto
      have "\<forall>c \<in> set (names target @ cs). SLASH \<notin> set c" using 2(8) names_no_slash by auto
      moreover have "physical t (if target \<noteq> [] \<and> hd target = SLASH then [] else cur)"
        using 2(7) by simp
      ultimately show ?thesis
        using 2(5) [of "Link target" target m] d c nd Link n 2(6) by simp
    next
      case Dir
      then show ?thesis
        using 2(3) [of Dir] d c nd 2(6-8) physical_snoc [OF 2(7) d name nd] by simp
    next
      case (File x y)
      then show ?thesis
        using 2(4) [of "File x y" x y] d c nd 2(6-8) physical_snoc [OF 2(7) d name nd] by simp
    qed
  qed
qed

subsection \<open>Resolution, rendering and splitting of physical paths\<close>

lemma resolve_along:
  "physical t (cur @ cs) \<Longrightarrow> resolve t n cur (cs @ es) = resolve t n (cur @ cs) es"
proof (induction cs arbitrary: cur)
  case Nil
  then show ?case by simp
next
  case (Cons c cs)
  have d: "is_dir t cur"
    using Cons.prems by (auto simp: physical_def dest: spec [of _ "length cur"])
  have g: "c \<noteq> []" "c \<noteq> ''.''" "c \<noteq> ''..''" using Cons.prems by (auto simp: physical_def good_name_def)
  have "t (cur @ [c]) = Some Dir \<or> (cs = [] \<and> t (cur @ [c]) \<noteq> None \<and> (\<forall>p. t (cur @ [c]) \<noteq> Some (Link p)))"
  proof (cases cs)
    case Nil
    then show ?thesis using Cons.prems by (auto simp: physical_def)
  next
    case (Cons a list)
    then show ?thesis using Cons.prems
      by (auto simp: physical_def is_dir_def dest: spec [of _ "Suc (length cur)"])
  qed
  then have "resolve t n cur ((c # cs) @ es) = resolve t n (cur @ [c]) (cs @ es)"
    using d g by (auto split: node.splits)
  also have "\<dots> = resolve t n ((cur @ [c]) @ cs) es" using Cons by simp
  finally show ?case by simp
qed

lemma resolve_self: "physical t ns \<Longrightarrow> resolve t n [] ns = Found ns"
  using resolve_along [of t "[]" ns n "[]"] by simp

subsection \<open>Names and their strings\<close>

lemma split_names_append: "SLASH \<notin> set n \<Longrightarrow> split_names cur (n @ p) = split_names (cur @ n) p"
  by (induction n arbitrary: cur) auto

lemma split_names_string:
  assumes "list_all good_name ns" and "p = [] \<or> p = ''/''"
  shows "split_names cur (concat (map ((#) SLASH) ns) @ p) = (if cur = [] then ns else cur # ns)"
  using assms(1)
proof (induction ns arbitrary: cur)
  case Nil
  then show ?case using assms(2) by auto
next
  case (Cons n ns)
  have "SLASH \<notin> set n" "n \<noteq> []" using Cons.prems by (auto simp: good_name_def)
  then show ?case using Cons.IH [of n] Cons.prems by (simp add: split_names_append)
qed

lemma last_string: "list_all good_name ns \<Longrightarrow> ns \<noteq> [] \<Longrightarrow> last (concat (map ((#) SLASH) ns)) \<noteq> SLASH"
proof (induction ns rule: rev_induct)
  case (snoc n ns)
  then have "last n \<in> set n" "SLASH \<notin> set n" by (auto simp: good_name_def)
  then show ?case by auto
qed simp

lemma path_elements_string:
  "list_all good_name ns \<Longrightarrow> path_elements (path_string ns) = ''/'' # ns"
  using split_names_string [of ns "[]" "[]"] last_string [of ns]
  by (cases ns) (auto simp: path_elements_def path_string_def)

lemma path_elements_string_slash:
  "list_all good_name ns \<Longrightarrow> ns \<noteq> [] \<Longrightarrow> path_elements (path_string ns @ ''/'') = ''/'' # ns @ [[]]"
  using split_names_string [of ns "''/''" "[]"]
  by (cases ns) (auto simp: path_elements_def path_string_def)

lemma path_string_abs: "path_string ns \<noteq> []" "hd (path_string ns) = SLASH"
  by (cases ns; simp add: path_string_def)+

lemma names_string: "list_all good_name ns \<Longrightarrow> names (path_string ns) = ns"
  by (simp add: names_def path_elements_string path_string_abs)

lemma names_string_slash: "list_all good_name ns \<Longrightarrow> ns \<noteq> [] \<Longrightarrow> names (path_string ns @ ''/'') = ns @ [[]]"
  by (simp add: names_def path_elements_string_slash path_string_abs)

lemma locate_physical: "physical t ns \<Longrightarrow> locate t (path_string ns) = Found ns"
  by (simp add: locate_def names_string resolve_self physical_def)

lemma locate_is_physical: "locate t p = Found ns \<Longrightarrow> physical t ns"
  unfolding locate_def using resolve_physical names_no_slash by (metis physical_Nil)

lemma physical_good: "physical t ns \<Longrightarrow> list_all good_name ns"
  by (simp add: physical_def)

subsection \<open>Containment\<close>

lemma posix_200:
  assumes "status_code (handle (posix_env t) h request) = 200" and "req_method request \<noteq> ''HEAD''"
  obtains d c ns r where "decoded_target request = Some d"
    "posix_weakly_canonical t (path_append (root h) (make_relative_path d)) = Some c"
    "prefix (path_elements (root h)) (path_elements c)" "locate t c = Found ns"
    "t ns = Some (File (resp_body (handle (posix_env t) h request)) r)"
proof -
  obtain c where c: "candidate_of (posix_env t) h request = Some c"
    "posix_content t c = Some (resp_body (handle (posix_env t) h request))"
    using posix.get_body_is_content [OF assms] by blast
  obtain d where d: "decoded_target request = Some d"
      "posix_weakly_canonical t (path_append (root h) (make_relative_path d)) = Some c"
    using c(1) by (auto simp: candidate_of_def posix_env_def split: option.splits if_splits)
  obtain ns r where ns: "locate t c = Found ns"
      "t ns = Some (File (resp_body (handle (posix_env t) h request)) r)"
    using c(2) by (auto simp: posix_content_def file_at_def split: lookup.splits option.splits node.splits)
  show ?thesis by (rule that [OF d candidate_inside [OF c(1)] ns])
qed

lemma lexically_normal_good:
  "list_all good_name ns \<Longrightarrow> \<forall>c \<in> set cs. SLASH \<notin> set c \<Longrightarrow> list_all good_name (lexically_normal ns cs)"
proof (induction ns cs rule: lexically_normal.induct)
  case (2 ns c cs)
  have b: "list_all good_name (butlast ns)"
    using 2(4) by (auto simp: list_all_iff dest: in_set_butlastD)
  have g: "good_name c" if "c \<noteq> []" "c \<noteq> ''.''" "c \<noteq> ''..''"
    using that 2(5) by (simp add: good_name_def)
  consider "c = [] \<or> c = ''.''" | "c = ''..''" | "c \<noteq> []" "c \<noteq> ''.''" "c \<noteq> ''..''" by blast
  then show ?case using 2 b g by cases simp_all
qed simp

lemma exist_prefix_rest: "exist_prefix t pre es = Some (p, r) \<Longrightarrow> pre @ es = p @ r"
  by (induction t pre es rule: exist_prefix.induct) (auto split: lookup.splits)

lemma weakly_canonical_form:
  assumes "posix_weakly_canonical t p = Some c"
  shows "\<exists>all. list_all good_name all \<and> (c = path_string all \<or> all \<noteq> [] \<and> c = path_string all @ ''/'')"
proof (cases "locate t p")
  case (Found ns)
  then show ?thesis
    using assms locate_is_physical physical_good by (fastforce simp: posix_weakly_canonical_def)
next
  case Missing
  then obtain pre rest ns where e: "exist_prefix t [] (names p) = Some (pre, rest)"
      "resolve t 40 [] pre = Found ns" "c = normal_string ns rest"
    using assms by (auto simp: posix_weakly_canonical_def split: option.splits lookup.splits)
  have "\<forall>c \<in> set (pre @ rest). SLASH \<notin> set c"
    using exist_prefix_rest [OF e(1)] names_no_slash [of _ p] by auto
  then have "list_all good_name (lexically_normal ns rest)"
    using resolve_physical [OF e(2)] physical_good by (intro lexically_normal_good) auto
  then show ?thesis using e(3) by (auto simp: normal_string_def Let_def split: if_splits)
next
  case Looping
  then show ?thesis using assms by (simp add: posix_weakly_canonical_def)
qed

lemma resolve_below:
  "resolve t n cur cs = Found ns \<Longrightarrow> prefix rs cur \<Longrightarrow> \<forall>ms p. prefix rs ms \<longrightarrow> t ms \<noteq> Some (Link p) \<Longrightarrow>
     \<forall>c \<in> set cs. good_name c \<or> c = [] \<Longrightarrow> prefix rs ns"
proof (induction t n cur cs rule: resolve.induct)
  case (2 t n cur c cs)
  have d: "is_dir t cur" using 2(6) by (auto split: if_splits)
  show ?case
  proof (cases "c = []")
    case True
    then show ?thesis using 2(1) d 2(6-9) by auto
  next
    case False
    then have c: "c \<noteq> []" "c \<noteq> ''.''" "c \<noteq> ''..''" using 2(9) by (auto simp: good_name_def)
    obtain nd where nd: "t (cur @ [c]) = Some nd" using 2(6) d c by (auto split: option.splits)
    moreover have "nd \<noteq> Link p" for p using 2(7,8) nd by (metis prefix_prefix)
    ultimately show ?thesis
      using 2(3,4) [of nd] d c 2(6-9) by (cases nd) auto
  qed
qed simp


lemma prefix_root_candidate:
  assumes "list_all good_name rs" and "prefix (path_elements (path_string rs)) (path_elements c)"
    and "list_all good_name all" and "c = path_string all \<or> all \<noteq> [] \<and> c = path_string all @ ''/''"
  shows "prefix rs all"
proof -
  from assms(4) consider "prefix rs all" | "prefix rs (all @ [[]])"
    using assms(1-3) path_elements_string path_elements_string_slash by force
  then show ?thesis
  proof cases
    case 2
    moreover have "rs \<noteq> all @ [[]]" using assms(1) by (auto simp: good_name_def)
    ultimately show ?thesis by (simp add: prefix_snoc)
  qed
qed

subsection \<open>Properties\<close>

text \<open>
  C10. Containment of existing targets. On a POSIX tree with symbolic links, when the document
  root joined with the decoded target exists, a GET answered with 200 carries the contents of
  the regular file at the physical location of that target, and this location is below the
  document root: symbolic links and dot-dot elements that lead out are refused.
\<close>

theorem posix_existing_contained:
  assumes "status_code (handle (posix_env t) h request) = 200" and "req_method request \<noteq> ''HEAD''"
    and "root h = path_string rs" and "physical t rs" and "decoded_target request = Some d"
    and "locate t (path_append (root h) (make_relative_path d)) = Found ns"
  shows "prefix rs ns \<and> physical t ns \<and>
    (\<exists>r. t ns = Some (File (resp_body (handle (posix_env t) h request)) r))"
proof -
  obtain c ns' r where c:
    "posix_weakly_canonical t (path_append (root h) (make_relative_path d)) = Some c"
    "prefix (path_elements (root h)) (path_elements c)" "locate t c = Found ns'"
    "t ns' = Some (File (resp_body (handle (posix_env t) h request)) r)"
    using posix_200 [OF assms(1,2)] assms(5) by (metis option.inject)
  have p: "physical t ns" by (rule locate_is_physical [OF assms(6)])
  have "c = path_string ns" using c(1) assms(6) by (simp add: posix_weakly_canonical_def)
  moreover from this have "ns' = ns" using c(3) locate_physical [OF p] by simp
  moreover have "prefix rs ns"
    using prefix_root_candidate [OF physical_good [OF assms(4)] _ physical_good [OF p]] c(2) assms(3)
      \<open>c = path_string ns\<close> by simp
  ultimately show ?thesis using c(4) p by blast
qed

lemma candidate_below_root:
  assumes "candidate_of (posix_env t) h request = Some c" and "posix_content t c = Some d"
    and "root h = path_string rs" and "physical t rs"
    and "\<forall>ms p. prefix rs ms \<longrightarrow> t ms \<noteq> Some (Link p)"
  shows "\<exists>ns r. prefix rs ns \<and> t ns = Some (File d r)"
proof -
  obtain p where p: "posix_weakly_canonical t p = Some c"
    using assms(1) by (auto simp: candidate_of_def posix_env_def split: option.splits if_splits)
  obtain ns r where ns: "locate t c = Found ns" "t ns = Some (File d r)"
    using assms(2) by (auto simp: posix_content_def file_at_def split: lookup.splits option.splits node.splits)
  obtain all where all: "list_all good_name all"
      "c = path_string all \<or> all \<noteq> [] \<and> c = path_string all @ ''/''"
    using weakly_canonical_form [OF p] by blast
  have "prefix rs all"
    using prefix_root_candidate [OF physical_good [OF assms(4)] _ all] candidate_inside [OF assms(1)] assms(3) by simp
  then obtain es where es: "all = rs @ es" by (auto elim: prefixE)
  obtain tr where tr: "names c = all @ tr" "\<forall>x \<in> set tr. x = []"
    using all names_string names_string_slash by (cases "c = path_string all") fastforce+
  have "resolve t 40 rs (es @ tr) = Found ns"
    using ns(1) resolve_along [of t "[]" rs 40 "es @ tr"] assms(4) by (simp add: locate_def tr(1) es)
  moreover have "\<forall>x \<in> set (es @ tr). good_name x \<or> x = []"
    using all(1) es tr(2) by (auto simp: list_all_iff)
  ultimately have "prefix rs ns" using resolve_below [OF _ _ assms(5)] by blast
  then show ?thesis using ns(2) by blast
qed

lemma no_links_contained:
  assumes "status_code (handle (posix_env t) h request) = 200" and "req_method request \<noteq> ''HEAD''"
    and "root h = path_string rs" and "physical t rs"
    and "\<forall>ms p. prefix rs ms \<longrightarrow> t ms \<noteq> Some (Link p)"
  shows "\<exists>ns r. prefix rs ns \<and> t ns = Some (File (resp_body (handle (posix_env t) h request)) r)"
  using posix.get_body_is_content [OF assms(1,2)] candidate_below_root [OF _ _ assms(3-5)] by blast

text \<open>
  Containment without links. When no symbolic link lies below the document root, every GET
  answered with 200 carries the contents of a regular file below the document root, whether or
  not the target passes through names that do not exist.
\<close>

theorem posix_no_links_contained:
  assumes "status_code (handle (posix_env t) h request) = 200" and "req_method request \<noteq> ''HEAD''"
    and "root h = path_string rs" and "physical t rs"
    and "\<forall>ms p. prefix rs ms \<longrightarrow> t ms \<noteq> Some (Link p)"
  shows "\<exists>ns r. prefix rs ns \<and> t ns = Some (File (resp_body (handle (posix_env t) h request)) r)"
  by (rule no_links_contained [OF assms])

subsection \<open>A concrete site\<close>

definition plain_tree :: tree where
  "plain_tree = [[''srv''] \<mapsto> Dir, [''srv'', ''site''] \<mapsto> Dir,
     [''srv'', ''site'', ''a.txt''] \<mapsto> File ''hello'' True]"

definition escape_tree :: tree where
  "escape_tree = plain_tree([''srv'', ''site'', ''out''] \<mapsto> Link ''/etc'',
     [''etc''] \<mapsto> Dir, [''etc'', ''passwd''] \<mapsto> File ''secret'' True)"

definition get_target :: "bytes \<Rightarrow> http_request" where
  "get_target target = \<lparr>req_method = ''GET'', req_target = target, req_version = ''HTTP/1.1'',
     req_headers = Map.empty, req_header_fields = [], req_body = []\<rparr>"

definition site_handler :: static_file_handler where
  "site_handler = \<lparr>root = ''/srv/site'', max_file_bytes = default_max_file_bytes\<rparr>"

lemmas posix_eval = handle_def extract_path_def substr_def posix_env_def posix_weakly_canonical_def
  locate_def names_def path_elements_def plain_tree_def escape_tree_def get_target_def
  site_handler_def make_relative_path_def path_append_def is_inside_root_iff is_dir_def
  path_string_def file_at_def serve_file_def read_file_def read_loop_eq Let_def normal_string_def
  default_max_file_bytes_def fixed_responses prefix_def ex_bool_eq

lemma site_root: "root site_handler = path_string [''srv'', ''site'']"
  by (simp add: site_handler_def path_string_def)

lemma site_physical: "physical plain_tree [''srv'', ''site'']" "physical escape_tree [''srv'', ''site'']"
  by (simp_all add: physical_def good_name_def escape_tree_def plain_tree_def is_dir_def less_Suc_eq)

theorem posix_existing_contained_witness:
  "status_code (handle (posix_env escape_tree) site_handler (get_target ''/./a.txt'')) = 200 \<and>
   (\<exists>r. escape_tree [''srv'', ''site'', ''a.txt''] =
      Some (File (resp_body (handle (posix_env escape_tree) site_handler (get_target ''/./a.txt''))) r))"
proof -
  let ?q = "get_target ''/./a.txt''"
  have s: "status_code (handle (posix_env escape_tree) site_handler ?q) = 200"
    by (simp add: posix_eval)
  have d: "decoded_target ?q = Some ''/./a.txt''"
    by (simp add: decoded_target_def get_target_def extract_path_def substr_def)
  have l: "locate escape_tree (path_append (root site_handler) (make_relative_path ''/./a.txt'')) =
      Found [''srv'', ''site'', ''a.txt'']"
    by (simp add: posix_eval)
  show ?thesis
    using posix_existing_contained [OF s _ site_root site_physical(2) d l] s
    by (simp add: get_target_def)
qed

theorem posix_no_links_contained_witness:
  "status_code (handle (posix_env plain_tree) site_handler (get_target ''/x/../a.txt'')) = 200 \<and>
   (\<exists>ns r. prefix [''srv'', ''site''] ns \<and> plain_tree ns =
      Some (File (resp_body (handle (posix_env plain_tree) site_handler (get_target ''/x/../a.txt''))) r))"
proof -
  let ?q = "get_target ''/x/../a.txt''"
  have s: "status_code (handle (posix_env plain_tree) site_handler ?q) = 200"
    by (simp add: posix_eval)
  have n: "\<forall>ms p. prefix [''srv'', ''site''] ms \<longrightarrow> plain_tree ms \<noteq> Some (Link p)"
    by (simp add: plain_tree_def)
  show ?thesis
    using posix_no_links_contained [OF s _ site_root site_physical(1) n] s by (simp add: get_target_def)
qed

subsection \<open>Targets that pass through a missing name\<close>

text \<open>A string of names that may be dot-dot.\<close>

definition plain_name :: "bytes \<Rightarrow> bool" where
  "plain_name c \<longleftrightarrow> c \<noteq> [] \<and> SLASH \<notin> set c \<and> CHR ''%'' \<notin> set c \<and> CHR ''?'' \<notin> set c"

lemma split_names_plain:
  assumes "\<forall>c \<in> set ns. c \<noteq> [] \<and> SLASH \<notin> set c"
  shows "split_names cur (concat (map ((#) SLASH) ns)) = (if cur = [] then ns else cur # ns)"
  using assms
proof (induction ns arbitrary: cur)
  case (Cons n ns)
  then show ?case using Cons.IH [of n] by (simp add: split_names_append)
qed simp

lemma names_plain:
  assumes "\<forall>c \<in> set ns. c \<noteq> [] \<and> SLASH \<notin> set c"
  shows "names (path_string ns) = ns"
proof (cases ns rule: rev_cases)
  case (snoc ms m)
  then have m: "m \<noteq> []" "SLASH \<notin> set m" using assms by auto
  then have "last m \<noteq> SLASH" using last_in_set [of m] by metis
  then have "last (path_string ns) \<noteq> SLASH" using snoc m(1) by (simp add: path_string_def)
  moreover have "split_names [] (path_string ns) = ns"
    using split_names_plain [OF assms, of "[]"] snoc by (simp add: path_string_def)
  ultimately show ?thesis using path_string_abs [of ns] by (simp add: names_def path_elements_def)
qed (simp add: names_def path_elements_def path_string_def)

lemma decode_plain: "CHR ''%'' \<notin> set s \<Longrightarrow> percent_decode s = Some s"
  by (induction s rule: percent_decode.induct) auto

lemma decoded_plain:
  assumes "list_all plain_name ns" and "ns \<noteq> []"
  shows "decoded_target (get_target (path_string ns)) = Some (path_string ns)"
proof -
  have q: "CHR ''%'' \<notin> set (path_string ns)" "CHR ''?'' \<notin> set (path_string ns)"
    using assms by (auto simp: path_string_def plain_name_def list_all_iff)
  moreover have "path_string ns \<noteq> ''/''"
    using assms by (cases ns) (auto simp: path_string_def plain_name_def)
  moreover have "sv_find ''?'' (path_string ns) = None" using q(2) sv_find_char_None [of "CHR ''?''" "path_string ns"] by simp
  ultimately show ?thesis
    using q(1) decode_plain [of "path_string ns"] path_string_abs [of ns]
    by (simp add: decoded_target_def get_target_def extract_path_def)
qed

lemma append_plain:
  assumes "list_all good_name rs" and "list_all plain_name ns" and "ns \<noteq> []"
  shows "path_append (path_string rs) (make_relative_path (path_string ns)) = path_string (rs @ ns)"
proof -
  obtain c cs where ns: "ns = (c # cs) # tl ns" using assms(2,3) by (cases ns; cases "hd ns") (auto simp: plain_name_def)
  have "c \<noteq> SLASH" using assms(2) ns by (cases ns) (auto simp: plain_name_def)
  then have "make_relative_path (path_string ns) = c # cs @ concat (map ((#) SLASH) (tl ns))"
    by (subst (1) ns) (simp add: make_relative_path_def path_string_def)
  moreover have "rs \<noteq> [] \<Longrightarrow> last (path_string rs) \<noteq> SLASH" using last_string [OF assms(1)] by (simp add: path_string_def)
  ultimately show ?thesis
    using \<open>c \<noteq> SLASH\<close> path_string_abs(1) [of rs]
    by (subst (2) ns) (auto simp: path_append_def path_string_def)
qed

lemma physical_prefix: "physical t (as @ bs) \<Longrightarrow> physical t as"
proof (induction bs rule: rev_induct)
  case (snoc b bs)
  then show ?case using physical_butlast [of t "as @ bs @ [b]"] by (simp add: butlast_append)
qed simp

lemma exist_prefix_physical:
  assumes "physical t (pre @ rs)"
  shows "exist_prefix t pre (rs @ es) = exist_prefix t (pre @ rs) es"
  using assms
proof (induction rs arbitrary: pre)
  case (Cons r rs)
  have "physical t ((pre @ [r]) @ rs)" using Cons.prems by simp
  moreover from this have "resolve t 40 [] (pre @ [r]) \<noteq> Missing \<and> resolve t 40 [] (pre @ [r]) \<noteq> Looping"
    using physical_prefix [of t "pre @ [r]" rs] resolve_self by simp
  ultimately show ?case using Cons.IH by (auto split: lookup.split)
qed simp

lemma lexically_normal_names: "list_all good_name es \<Longrightarrow> lexically_normal ns es = ns @ es"
  by (induction es arbitrary: ns) (auto simp: good_name_def)

text \<open>The path through a missing name is normalised without looking at what follows.\<close>

lemma canonical_through_missing:
  assumes "physical t rs" and "is_dir t rs" and "good_name x" and "t (rs @ [x]) = None"
    and "list_all good_name es" and "es \<noteq> []"
  shows "posix_weakly_canonical t (path_string (rs @ x # ''..'' # es)) = Some (path_string (rs @ es))"
proof -
  let ?ns = "rs @ x # ''..'' # es"
  have n: "names (path_string ?ns) = ?ns"
    using physical_good [OF assms(1)] assms(3,5) by (intro names_plain) (auto simp: good_name_def list_all_iff)
  have x: "resolve t 40 rs (x # cs) = Missing" for cs using assms(2-4) by (auto simp: good_name_def)
  have "exist_prefix t [] ?ns = Some (rs, x # ''..'' # es)"
    using exist_prefix_physical [of t "[]" rs] x [of "[]"] resolve_along [of t "[]" rs 40 "[x]"] assms(1) by simp
  moreover have "resolve t 40 [] ?ns = Missing"
    using resolve_along [of t "[]" rs 40 "x # ''..'' # es"] assms(1) x by simp
  moreover have "last es \<notin> {[], ''.'', ''..''}" "x \<noteq> []" "x \<noteq> ''.''" "x \<noteq> ''..''"
    using assms(3,5,6) by (auto simp: good_name_def list_all_iff)
  then have "normal_string rs (x # ''..'' # es) = path_string (rs @ es)"
    using assms(5,6) by (simp add: normal_string_def lexically_normal_names)
  ultimately show ?thesis
    using resolve_self [OF assms(1)] by (simp add: posix_weakly_canonical_def locate_def n)
qed

text \<open>
  C20. The limit of containment. Behind a name \<open>x\<close> that does not exist below the document root the rest of the target is
  normalised lexically, and symbolic links in it are not resolved before the containment check. So for every file that the names
  \<open>es\<close> reach from the root through links and that lies outside the root: the target with the names \<open>es\<close> is refused with 403,
  but with \<open>x\<close> and dot-dot in front of them it is answered with 200 and the contents of that file.
\<close>

theorem symlink_escape:
  assumes "root h = path_string rs" and "physical t rs" and "is_dir t rs"
    and "good_name x" and "t (rs @ [x]) = None" and "list_all good_name es" and "es \<noteq> []"
    and "list_all plain_name (x # es)"
    and "locate t (path_string (rs @ es)) = Found ns" and "\<not> prefix rs ns"
    and "t ns = Some (File content True)" and "length content \<le> unat (max_file_bytes h)"
  shows "status_code (handle (posix_env t) h (get_target (path_string es))) = 403 \<and>
    status_code (handle (posix_env t) h (get_target (path_string (x # ''..'' # es)))) = 200 \<and>
    resp_body (handle (posix_env t) h (get_target (path_string (x # ''..'' # es)))) = content"
proof -
  let ?direct = "get_target (path_string es)" and ?via = "get_target (path_string (x # ''..'' # es))"
  have rs: "list_all good_name rs" by (rule physical_good [OF assms(2)])
  have p: "list_all plain_name (x # ''..'' # es)" "list_all plain_name es"
    using assms(8) by (simp_all add: plain_name_def)
  have d: "decoded_target ?direct = Some (path_string es)" "decoded_target ?via = Some (path_string (x # ''..'' # es))"
    using decoded_plain [OF p(2) assms(7)] decoded_plain [OF p(1)] by simp_all
  have a: "path_append (root h) (make_relative_path (path_string es)) = path_string (rs @ es)"
    "path_append (root h) (make_relative_path (path_string (x # ''..'' # es))) = path_string (rs @ x # ''..'' # es)"
    using append_plain [OF rs p(2) assms(7)] append_plain [OF rs p(1)] assms(1) by simp_all
  have good: "list_all good_name (rs @ es)" using rs assms(6) by simp
  have ns: "list_all good_name ns" by (rule physical_good [OF locate_is_physical [OF assms(9)]])
  have "candidate_of (posix_env t) h ?direct = None"
    using assms(1,9,10) d(1) a(1) path_elements_string [OF rs] path_elements_string [OF ns]
    by (simp add: candidate_of_def posix_env_def posix_weakly_canonical_def is_inside_root_iff)
  moreover have "candidate_of (posix_env t) h ?via = Some (path_string (rs @ es))"
    using canonical_through_missing [OF assms(2-7)] d(2) a(2) assms(1) path_elements_string [OF rs] path_elements_string [OF good]
    by (simp add: candidate_of_def posix_env_def is_inside_root_iff)
  moreover have f: "file_at t (path_string (rs @ es)) = Some (content, True)" using assms(9,11) by (simp add: file_at_def)
  moreover have "length content < 2 ^ 64" using assms(12) unat_size_t [of "max_file_bytes h"] by simp
  ultimately show ?thesis
    using d assms(9,12)
    by (auto simp: handle_eq posix_env_def get_target_def serve_file_def read_file_def read_loop_eq Let_def
        default_response_def word_less_nat_alt unat_of_nat take_bit_nat_eq_self not_less)
qed

lemma escape_outside: "locate escape_tree (path_string [''srv'', ''site'', ''out'', ''passwd'']) = Found [''etc'', ''passwd'']"
  by (simp add: posix_eval)

theorem symlink_escape_witness:
  "status_code (handle (posix_env escape_tree) site_handler (get_target (path_string [''out'', ''passwd'']))) = 403 \<and>
   status_code (handle (posix_env escape_tree) site_handler (get_target (path_string [''x'', ''..'', ''out'', ''passwd'']))) = 200 \<and>
   resp_body (handle (posix_env escape_tree) site_handler (get_target (path_string [''x'', ''..'', ''out'', ''passwd'']))) =
     ''secret''"
  by (rule symlink_escape [OF site_root site_physical(2), where ns = "[''etc'', ''passwd'']"])
    (use escape_outside in \<open>simp_all add: escape_tree_def plain_tree_def is_dir_def good_name_def plain_name_def site_handler_def
        default_max_file_bytes_def\<close>)

end
