(* ===== verification/Router.thy ===== *)
theory Router
  imports Posix_Fs
begin

section \<open>The router\<close>

text \<open>
  Models \<open>src/router.cpp\<close>: GET and HEAD go to the static file handler, other methods are
  answered with 405. A HEAD response announces the length of the representation and
  suppresses the body.
\<close>

definition method_not_allowed :: http_response where
  "method_not_allowed =
     default_response\<lparr>status_code := 405, reason_phrase := ''Method Not Allowed'',
       resp_headers := set_header ''Content-Type'' ''text/plain''
         (set_header ''Allow'' ''GET, HEAD'' []),
       resp_body := ''method not allowed'' @ [LF]\<rparr>"

definition route_request :: "fs_env \<Rightarrow> http_request \<Rightarrow> static_file_handler \<Rightarrow> http_response" where
  "route_request env request file_handler =
     (if req_method request = ''GET'' \<or> req_method request = ''HEAD'' then
        let response = handle env file_handler request
        in if req_method request = ''HEAD'' then
             let response = (if content_length response = None
                   then response\<lparr>content_length := Some (of_nat (length (resp_body response)))\<rparr>
                   else response)
             in response\<lparr>suppress_body := True\<rparr>
           else response
      else method_not_allowed)"

subsection \<open>Shape of the responses\<close>

lemma route_response_ok: "response_ok (route_request env request h)"
proof -
  have "response_ok method_not_allowed"
    by (simp add: response_ok_def method_not_allowed_def default_response_def is_token_def
        is_tchar_def isalnum_def is_digit_def)
  then show ?thesis
    using handle_response_ok [of env h request]
    by (auto simp: route_request_def response_ok_def Let_def)
qed

lemma route_length: "length (resp_body (route_request env request h)) < 2 ^ 64"
  using handle_length [of env h request]
  by (auto simp: route_request_def Let_def method_not_allowed_def default_response_def)

lemma route_version: "resp_version (route_request env request h) = ''HTTP/1.1''"
  by (auto simp: route_request_def Let_def method_not_allowed_def handle_eq serve_file_def fixed_responses
      split: option.splits)

lemma other_method_target [simp]:
  "decoded_target (request\<lparr>req_method := m\<rparr>) = decoded_target request"
  "candidate_of env h (request\<lparr>req_method := m\<rparr>) = candidate_of env h request"
  by (simp_all add: decoded_target_def candidate_of_def)

text \<open>A response and the same response with its body suppressed.\<close>

lemma serialize_suppressed:
  assumes "content_length r = None" and "\<not> suppress_body r" and "length (resp_body r) < 2 ^ 64"
  shows "serialize_response order (r\<lparr>resp_body := b,
      content_length := Some (of_nat (length (resp_body r))), suppress_body := True\<rparr>) @ resp_body r = serialize_response order r"
  using assms
  by (simp add: serialize_response_def announced_length_def unat_of_nat take_bit_nat_eq_self)

lemma handle_non_head:
  assumes "req_method request \<noteq> ''HEAD''"
  shows "content_length (handle env h request) = None \<and> \<not> suppress_body (handle env h request)"
  using assms by (auto simp: handle_eq serve_file_def Let_def fixed_responses split: option.splits)

lemma handle_same_error:
  assumes "status_code (handle env h (request\<lparr>req_method := ''HEAD''\<rparr>)) \<noteq> 200"
  shows "handle env h (request\<lparr>req_method := ''GET''\<rparr>) = handle env h (request\<lparr>req_method := ''HEAD''\<rparr>)"
  using assms
  by (auto simp: handle_eq serve_file_def Let_def default_response_def split: option.splits if_splits)

lemma route_head_error:
  assumes "status_code (handle env h (request\<lparr>req_method := ''HEAD''\<rparr>)) \<noteq> 200"
  shows "serialize_response order (route_request env (request\<lparr>req_method := ''HEAD''\<rparr>) h) @
      resp_body (route_request env (request\<lparr>req_method := ''GET''\<rparr>) h) =
    serialize_response order (route_request env (request\<lparr>req_method := ''GET''\<rparr>) h)"
proof -
  let ?g = "handle env h (request\<lparr>req_method := ''GET''\<rparr>)"
  have g: "content_length ?g = None" "\<not> suppress_body ?g" using handle_non_head by simp_all
  then show ?thesis
    using serialize_suppressed [OF g handle_length, of order "resp_body ?g"] handle_same_error [OF assms]
    by (simp add: route_request_def Let_def)
qed

context file_store
begin

lemma route_head_file:
  assumes "status_code (handle env h (request\<lparr>req_method := ''GET''\<rparr>)) = 200"
  shows "serialize_response order (route_request env (request\<lparr>req_method := ''HEAD''\<rparr>) h) @
      resp_body (route_request env (request\<lparr>req_method := ''GET''\<rparr>) h) =
    serialize_response order (route_request env (request\<lparr>req_method := ''GET''\<rparr>) h)"
proof -
  let ?get = "request\<lparr>req_method := ''GET''\<rparr>" and ?head = "request\<lparr>req_method := ''HEAD''\<rparr>"
  obtain c where c: "candidate_of env h ?get = Some c"
    and s: "status_code (serve_file env c False (max_file_bytes h)) = 200"
    and g: "handle env h ?get = serve_file env c False (max_file_bytes h)"
           "handle env h ?head = serve_file env c True (max_file_bytes h)"
    using assms by (auto simp: handle_200) (auto simp: handle_eq candidate_of_def split: option.splits)
  have s': "status_code (serve_file env c True (max_file_bytes h)) = 200"
    using s by (auto simp: serve_file_200)
  have "status_code (handle env h ?head) = 200" using s' g(2) by simp
  then obtain d where d: "content c = Some d" "announced_length (handle env h ?head) = length d"
    using head_length_is_content [of h ?head] c by auto
  have "content c = Some (resp_body (handle env h ?get))"
    using get_body_is_content [OF assms] c by simp
  then have len: "announced_length (handle env h ?head) = length (resp_body (handle env h ?get))"
    using d by simp
  obtain n where n: "fs_file_size env c = Some n" using s by (auto simp: serve_file_200)
  have ann: "n = of_nat (length (resp_body (handle env h ?get)))"
    using len n serve_file_eq [OF s'] g(2)
    by (simp add: announced_length_def file_response_def) (metis of_nat_unat ucast_id)
  show ?thesis
    using serialize_suppressed [of "serve_file env c False (max_file_bytes h)" order "[]"]
      serve_file_eq [OF s] serve_file_eq [OF s'] n ann handle_length [of env h ?get] g
    by (simp add: route_request_def Let_def file_response_def default_response_def)
qed

end

subsection \<open>Files that cannot be opened\<close>

text \<open>The target is a regular file of the given contents, within the size limit, that cannot be opened for reading.\<close>

definition unreadable_target :: "tree \<Rightarrow> static_file_handler \<Rightarrow> http_request \<Rightarrow> bytes \<Rightarrow> bool" where
  "unreadable_target t h request d \<longleftrightarrow>
     (\<exists>c. candidate_of (posix_env t) h request = Some c \<and> file_at t c = Some (d, False) \<and> length d \<le> unat (max_file_bytes h))"

lemma file_at_exists: "file_at t c = Some f \<Longrightarrow> fst (fs_exists (posix_env t) c) \<and> fs_is_regular_file (posix_env t) c"
  by (auto simp: file_at_def posix_env_def split: lookup.splits)

lemma handle_file:
  assumes "candidate_of (posix_env t) h request = Some c" and "file_at t c = Some f"
  shows "handle (posix_env t) h request = serve_file (posix_env t) c (req_method request = ''HEAD'') (max_file_bytes h)"
  using assms file_at_exists [OF assms(2)] by (auto simp: handle_eq candidate_of_def split: option.splits)

lemma posix_file_size:
  "file_at t c = Some (d, r) \<Longrightarrow> length d \<le> unat limit \<Longrightarrow>
   \<exists>n. fs_file_size (posix_env t) c = Some n \<and> n \<le> limit \<and> unat n = length d" for limit :: size_t
  using unat_size_t [of limit] by (simp add: posix_env_def word_le_nat_alt unat_of_nat take_bit_nat_eq_self)

lemma route_head_unreadable_target:
  assumes "unreadable_target t h request d"
  shows "status_code (route_request (posix_env t) (request\<lparr>req_method := ''HEAD''\<rparr>) h) = 200 \<and>
    announced_length (route_request (posix_env t) (request\<lparr>req_method := ''HEAD''\<rparr>) h) = length d \<and>
    route_request (posix_env t) (request\<lparr>req_method := ''GET''\<rparr>) h = forbidden"
proof -
  obtain c where c: "candidate_of (posix_env t) h request = Some c" "file_at t c = Some (d, False)"
      "length d \<le> unat (max_file_bytes h)"
    using assms by (auto simp: unreadable_target_def)
  obtain n where n: "fs_file_size (posix_env t) c = Some n" "n \<le> max_file_bytes h" "unat n = length d"
    using posix_file_size [OF c(2,3)] by blast
  have "fs_open (posix_env t) c = None" using c(2) by (simp add: posix_env_def)
  moreover have h: "handle (posix_env t) h (request\<lparr>req_method := m\<rparr>) =
      serve_file (posix_env t) c (m = ''HEAD'') (max_file_bytes h)" for m
    using handle_file [of t h "request\<lparr>req_method := m\<rparr>" c] c by simp
  ultimately show ?thesis
    using n by (auto simp: route_request_def Let_def h serve_file_def read_file_def default_response_def announced_length_def)
qed

lemma head_unreadable_cases:
  assumes "status_code (route_request (posix_env t) (request\<lparr>req_method := ''HEAD''\<rparr>) h) = 200"
    and "\<nexists>d. unreadable_target t h request d"
  shows "status_code (route_request (posix_env t) (request\<lparr>req_method := ''GET''\<rparr>) h) = 200"
proof -
  have "status_code (handle (posix_env t) h (request\<lparr>req_method := ''HEAD''\<rparr>)) = 200"
    using assms(1) by (auto simp: route_request_def Let_def split: if_splits)
  then obtain c where c: "candidate_of (posix_env t) h request = Some c" "fs_is_regular_file (posix_env t) c"
      "status_code (serve_file (posix_env t) c True (max_file_bytes h)) = 200"
    by (auto simp: handle_200)
  obtain d r where d: "file_at t c = Some (d, r)" using c(2) by (auto simp: posix_env_def)
  obtain n where n: "fs_file_size (posix_env t) c = Some n" "n \<le> max_file_bytes h"
    using c(3) by (auto simp: serve_file_200)
  have len: "length d \<le> unat (max_file_bytes h)"
    using n d by (auto simp: posix_env_def word_le_nat_alt unat_of_nat take_bit_nat_eq_self split: if_splits)
  then have "r" using assms(2) c(1) d by (auto simp: unreadable_target_def)
  then have "fs_open (posix_env t) c = Some \<lparr>if_data = d, if_bad = False\<rparr>" using d by (simp add: posix_env_def)
  then have "status_code (serve_file (posix_env t) c False (max_file_bytes h)) = 200"
    using n len by (auto simp: serve_file_200 read_file_Some)
  then show ?thesis using handle_file [of t h "request\<lparr>req_method := ''GET''\<rparr>" c] c(1) d by (simp add: route_request_def)
qed

subsection \<open>Properties\<close>

text \<open>
  C21. HEAD and GET. On a POSIX file tree, for every request: either the serialised answer to HEAD followed by the body of
  the answer to GET is the serialised answer to GET (the same status line, headers and Content-Length, for files and for error
  answers alike), or the target is a file that cannot be opened; then HEAD is answered with 200 and the length of the file,
  and GET with 403.
\<close>

theorem route_head_get:
  "(\<nexists>d. unreadable_target t h request d) \<and>
     serialize_response order (route_request (posix_env t) (request\<lparr>req_method := ''HEAD''\<rparr>) h) @
       resp_body (route_request (posix_env t) (request\<lparr>req_method := ''GET''\<rparr>) h) =
     serialize_response order (route_request (posix_env t) (request\<lparr>req_method := ''GET''\<rparr>) h) \<or>
   (\<exists>d. unreadable_target t h request d \<and>
     status_code (route_request (posix_env t) (request\<lparr>req_method := ''HEAD''\<rparr>) h) = 200 \<and>
     announced_length (route_request (posix_env t) (request\<lparr>req_method := ''HEAD''\<rparr>) h) = length d \<and>
     route_request (posix_env t) (request\<lparr>req_method := ''GET''\<rparr>) h = forbidden)"
proof (cases "\<exists>d. unreadable_target t h request d")
  case True
  then show ?thesis using route_head_unreadable_target by blast
next
  case False
  then have "status_code (route_request (posix_env t) (request\<lparr>req_method := ''GET''\<rparr>) h) = 200 \<or>
      status_code (route_request (posix_env t) (request\<lparr>req_method := ''HEAD''\<rparr>) h) \<noteq> 200"
    using head_unreadable_cases by blast
  then show ?thesis
    using False posix.route_head_file route_head_error by (fastforce simp: route_request_def Let_def)
qed

theorem route_head_get_witness:
  "serialize_response rev (route_request (posix_env plain_tree)
       ((get_target ''/a.txt'')\<lparr>req_method := ''HEAD''\<rparr>) site_handler) @ ''hello'' =
   serialize_response rev (route_request (posix_env plain_tree)
       ((get_target ''/a.txt'')\<lparr>req_method := ''GET''\<rparr>) site_handler)"
proof -
  have g: "route_request (posix_env plain_tree) ((get_target ''/a.txt'')\<lparr>req_method := ''GET''\<rparr>) site_handler \<noteq> forbidden"
      "resp_body (route_request (posix_env plain_tree)
        ((get_target ''/a.txt'')\<lparr>req_method := ''GET''\<rparr>) site_handler) = ''hello''"
    by (simp_all add: posix_eval route_request_def)
  show ?thesis
    using route_head_get [of plain_tree site_handler "get_target ''/a.txt''" rev] g by auto
qed

end
