(* ===== verification/Parser_Correctness.thy ===== *)
theory Parser_Correctness
  imports Request_Grammar
begin

section \<open>Correctness of \<open>HttpParser::next\<close>\<close>

text \<open>
  The round trip with the request grammar, soundness of a returned request, stability under
  further bytes, the treatment of partial requests and of \<open>Transfer-Encoding\<close>.
\<close>

subsection \<open>\<open>HttpParser::next\<close>\<close>

lemma body_size_sub: "sv_find CRLF2 b = Some i \<Longrightarrow> size_sub (length b) (i + 4) = length b - (i + 4)"
  using sv_find_SomeD(2) [of CRLF2 b i] by (simp add: size_sub_le)

lemma parser_next_complete:
  assumes "sv_find CRLF2 (buffer p) = Some i" and "i \<le> unat (max_header_bytes p)"
  shows "parser_next p =
    (case parse_block (max_body_bytes p) (take i (buffer p)) of
       Inl (err, kind) \<Rightarrow> (parse_error err kind, p)
     | Inr (r, n) \<Rightarrow>
        if length (buffer p) < i + 4 + unat n then (need_more_data, p)
        else (request_ready (r\<lparr>req_body := take (unat n) (drop (i + 4) (buffer p))\<rparr>),
              p\<lparr>buffer := drop (i + 4 + unat n) (buffer p)\<rparr>))"
proof -
  have "i + 4 \<le> length (buffer p)" using sv_find_SomeD(2) [OF assms(1)] by simp
  then have "(length (buffer p) - (i + 4) < k) = (length (buffer p) < i + 4 + k)" for k by arith
  then show ?thesis
    using assms body_size_sub [OF assms(1)]
    by (auto simp: parser_next_def Let_def substr_def split: sum.splits prod.splits)
qed

lemma parse_result_distinct [simp]:
  "request_ready r \<noteq> need_more_data" "need_more_data \<noteq> request_ready r"
  "parse_error e k \<noteq> need_more_data" "need_more_data \<noteq> parse_error e k"
  "parse_error e k \<noteq> request_ready r" "request_ready r \<noteq> parse_error e k"
  "request_ready r = request_ready r' \<longleftrightarrow> r = r'"
  "parse_error e k = parse_error e' k' \<longleftrightarrow> e = e' \<and> k = k'"
  by (auto simp: parser_defs)

lemma parse_result_status [simp]:
  "pr_status (request_ready r) = RequestReady" "pr_status need_more_data = NeedMoreData"
  "pr_status (parse_error e k) = Error" "pr_error_kind (parse_error e k) = k"
  "pr_request (request_ready r) = Some r"
  by (auto simp: parser_defs)

lemma parser_next_cases:
  obtains (more) "parser_next p = (need_more_data, p)"
  | (error) e k where "parser_next p = (parse_error e k, p)"
  | (ready) r i n where "sv_find CRLF2 (buffer p) = Some i" "i \<le> unat (max_header_bytes p)"
      "parse_block (max_body_bytes p) (take i (buffer p)) = Inr (r, n)"
      "i + 4 + unat n \<le> length (buffer p)"
      "parser_next p = (request_ready (r\<lparr>req_body := take (unat n) (drop (i + 4) (buffer p))\<rparr>),
         p\<lparr>buffer := drop (i + 4 + unat n) (buffer p)\<rparr>)"
proof (cases "sv_find CRLF2 (buffer p)")
  case None
  then have "parser_next p = (need_more_data, p) \<or>
      parser_next p = (parse_error ''headers exceed configured parser limit'' BadRequest, p)"
    by (simp add: parser_next_def)
  then show ?thesis using more error by blast
next
  case (Some i)
  show ?thesis
  proof (cases "i \<le> unat (max_header_bytes p)")
    case False
    then show ?thesis using error Some by (simp add: parser_next_def)
  next
    case le: True
    note eq = parser_next_complete [OF Some le]
    show ?thesis
    proof (cases "parse_block (max_body_bytes p) (take i (buffer p))")
      case (Inl ek)
      then show ?thesis using eq error by (cases ek) simp
    next
      case (Inr rn)
      obtain r n where rn: "rn = (r, n)" by (cases rn)
      show ?thesis
      proof (cases "length (buffer p) < i + 4 + unat n")
        case True
        then show ?thesis using eq Inr rn more by simp
      next
        case False
        then show ?thesis using ready [OF Some le] eq Inr rn by simp
      qed
    qed
  qed
qed

lemma parse_print_request:
  assumes "wf_request (max_body_bytes p) r"
    and "length (print_head r) \<le> unat (max_header_bytes p)"
    and "buffer p = print_request r @ rest"
  shows "parser_next p = (request_ready r, p\<lparr>buffer := rest\<rparr>)"
proof -
  have b: "buffer p = print_head r @ CRLF2 @ req_body r @ rest"
    using assms(3) by (simp add: print_request_def)
  have i: "sv_find CRLF2 (buffer p) = Some (length (print_head r))"
    unfolding b by (rule find_print_request [OF assms(1)])
  have len: "unat (of_nat (length (req_body r)) :: size_t) = length (req_body r)"
    using assms(1) unat_size_t [of "max_body_bytes p"]
    by (simp add: wf_request_def unat_of_nat take_bit_nat_eq_self)
  show ?thesis
    using parse_print_head [OF assms(1)] len
    by (simp add: parser_next_complete [OF i assms(2)]) (simp add: b eval_nat_numeral)
qed

fun parse_many :: "nat \<Rightarrow> http_parser \<Rightarrow> parse_result list \<times> http_parser" where
  "parse_many 0 p = ([], p)"
| "parse_many (Suc n) p =
     (case parser_next p of (res, p') \<Rightarrow> (case parse_many n p' of (rs, p'') \<Rightarrow> (res # rs, p'')))"

lemma with_fields_wf:
  assumes rl: "parse_request_line l = Inr rl" and l: "sv_find CRLF l = None"
    and fs: "list_all2 (\<lambda>l f. parse_header_line l = Inr (hf_name f, hf_value f)) ls fs"
    and ls: "\<forall>l \<in> set ls. sv_find CRLF l = None"
    and s: "single_fields fs" and chk: "check_framing mb (with_fields (base_request rl) fs) = Inr n"
    and len: "length body = unat n"
  shows "wf_request mb ((with_fields (base_request rl) fs)\<lparr>req_body := body\<rparr>)"
proof -
  have r: "l = rl_method rl @ SP # rl_target rl @ SP # rl_version rl" "is_token (rl_method rl)"
    "SP \<notin> set (rl_target rl)" "\<exists>t. rl_target rl = CHR ''/'' # t"
    "rl_version rl \<in> {''HTTP/1.1'', ''HTTP/1.0''}"
    using rl by (simp_all add: parse_request_line_iff)
  have t: "sv_find CRLF (rl_target rl) = None"
  proof -
    have "l = (rl_method rl @ [SP]) @ rl_target rl @ (SP # rl_version rl)" using r(1) by simp
    then have "sublist (rl_target rl) l" by (metis sublist_appendI)
    then show ?thesis using l by (meson sv_find_None_sublist sublist_order.order_trans)
  qed
  have f: "wf_field f" if mem: "f \<in> set fs" for f
  proof -
    obtain k where k: "k < length fs" "fs ! k = f" using mem by (auto simp: in_set_conv_nth)
    define l' where "l' = ls ! k"
    have l': "l' \<in> set ls" "parse_header_line l' = Inr (hf_name f, hf_value f)"
      using fs k list_all2_nthD2 [OF fs k(1)] list_all2_lengthD [OF fs] by (auto simp: l'_def)
    obtain raw v where v: "l' = raw @ CHR '':'' # v" "is_token raw"
        "hf_name f = to_lower_ascii raw" "hf_value f = ows_strip v"
      using l'(2) unfolding parse_header_line_iff by blast
    have "l' = (raw @ [CHR '':'']) @ v @ []" using v(1) by simp
    then have "sublist v l'" by (metis sublist_appendI)
    then have "sublist (ows_strip v) l'"
      using sublist_ows_strip sublist_order.order_trans by blast
    then have "sv_find CRLF (hf_value f) = None"
      using ls l'(1) v(4) by (metis sv_find_None_sublist sublist_order.order_trans)
    then show ?thesis
      using v by (simp add: wf_field_def to_lower_token) (simp add: to_lower_ascii_def)
  qed
  show ?thesis
    using r t f s chk len
    by (auto simp: wf_request_def with_fields_def base_request_def list_all_iff check_framing_Inr
        host_ok_def declared_length_def word_le_nat_alt cong: option.case_cong)
qed



subsection \<open>Partial requests, limits and error kinds\<close>

lemma parser_next_partial_head:
  assumes "wf_request mb r" and "strict_prefix s (print_request r)"
    and "length s < length (print_head r) + 4"
  shows "sv_find CRLF2 s = None"
proof (cases "sv_find CRLF2 s")
  case (Some i)
  obtain t where t: "print_request r = s @ t" using assms(2) by (auto simp: strict_prefix_def prefix_def)
  have "sv_find CRLF2 (print_request r) = Some i" unfolding t by (rule sv_find_append [OF Some])
  moreover have "sv_find CRLF2 (print_request r) = Some (length (print_head r))"
    unfolding print_request_def by (rule find_print_request [OF assms(1)])
  ultimately have "i = length (print_head r)" by simp
  then show ?thesis using sv_find_SomeD(2) [OF Some] assms(3) by simp
qed

lemma parser_next_more_bound:
  assumes "parser_next p = (res, p')" and "pr_status res = NeedMoreData"
  shows "p' = p \<and> buffered_bytes p < unat (max_header_bytes p) + 4 + unat (max_body_bytes p)"
proof (cases "sv_find CRLF2 (buffer p)")
  case None
  then show ?thesis
    using assms by (auto simp: parser_next_def buffered_bytes_def split: if_splits)
next
  case (Some i)
  show ?thesis
  proof (cases "i \<le> unat (max_header_bytes p)")
    case False
    then show ?thesis using assms Some by (auto simp: parser_next_def)
  next
    case True
    have "n \<le> mb" if "parse_block mb block = Inr (r, n)" for mb block r n
      using that by (auto simp: parse_block_def Let_def check_framing_Inr split: option.splits sum.splits)
    with assms True show ?thesis
      unfolding parser_next_complete [OF Some True]
      by (fastforce simp: buffered_bytes_def word_le_nat_alt split: sum.splits prod.splits if_splits)
  qed
qed


lemma next_ready_sound:
  assumes "parser_next p = (res, p')" and "pr_status res = RequestReady"
  shows "\<exists>r head. res = request_ready r \<and> wf_request (max_body_bytes p) r \<and>
    buffer p = head @ CRLF2 @ req_body r @ buffer p' \<and>
    length head \<le> unat (max_header_bytes p) \<and> p' = p\<lparr>buffer := buffer p'\<rparr>"
proof (cases rule: parser_next_cases [of p])
  case (ready r i n)
  let ?b = "buffer p" and ?body = "take (unat n) (drop (i + 4) (buffer p))"
  have split: "?b = take i ?b @ CRLF2 @ drop (i + 4) ?b"
    using sv_find_SomeD(1) [OF ready(1)] by (simp add: eval_nat_numeral)
  have "crlf_lines (take i ?b) \<noteq> []"
  proof
    assume "crlf_lines (take i ?b) = []"
    then have "take i ?b = []"
      by (subst (asm) crlf_lines.simps) (auto split: if_splits option.splits)
    then show False using ready(3) by (simp only: parse_block_Nil) simp
  qed
  then obtain l ls where lines: "crlf_lines (take i ?b) = l # ls" by (cases "crlf_lines (take i ?b)") auto
  with ready(3) obtain rl fs where pl: "parse_request_line l = Inr rl"
      "list_all2 (\<lambda>l f. parse_header_line l = Inr (hf_name f, hf_value f)) ls fs"
      "single_fields fs" "r = with_fields (base_request rl) fs" "check_framing (max_body_bytes p) r = Inr n"
    by (auto simp: parse_block_lines parse_lines_Inr)
  have len: "length ?body = unat n" using ready(4) by simp
  have "wf_request (max_body_bytes p) (r\<lparr>req_body := ?body\<rparr>)"
    unfolding pl(4)
  proof (rule with_fields_wf [OF pl(1) _ pl(2) _ pl(3) _ len])
    show "sv_find CRLF l = None" "\<forall>l\<in>set ls. sv_find CRLF l = None"
      using crlf_lines_no_CRLF [of _ "take i ?b"] lines by auto
    show "check_framing (max_body_bytes p) (with_fields (base_request rl) fs) = Inr n"
      using pl(4,5) by simp
  qed
  note wf = this
  have "drop (i + 4) ?b = ?body @ drop (i + 4 + unat n) ?b"
    by (metis append_take_drop_id add.commute drop_drop)
  with split have dec: "?b = take i ?b @ CRLF2 @ ?body @ drop (i + 4 + unat n) ?b"
    by metis
  have res: "res = request_ready (r\<lparr>req_body := ?body\<rparr>)"
    and p': "p' = p\<lparr>buffer := drop (i + 4 + unat n) ?b\<rparr>"
    using assms(1) ready(5) by simp_all
  show ?thesis
    by (rule exI [of _ "r\<lparr>req_body := ?body\<rparr>"], rule exI [of _ "take i ?b"], intro conjI,
        rule res, rule wf) (use dec p' ready(2) in simp_all)
qed (use assms in auto)

lemma next_ready_text:
  assumes "parser_next p = (res, p')" and "pr_status res = RequestReady"
  shows "\<exists>r head. res = request_ready r \<and> wf_request (max_body_bytes p) r \<and> head_text head r \<and>
    buffer p = head @ CRLF2 @ req_body r @ buffer p' \<and> (\<forall>j < length head. \<not> prefix CRLF2 (drop j (buffer p))) \<and>
    length head \<le> unat (max_header_bytes p) \<and> p' = p\<lparr>buffer := buffer p'\<rparr>"
proof (cases rule: parser_next_cases [of p])
  case (ready r i n)
  obtain r' head where r': "res = request_ready r'" "wf_request (max_body_bytes p) r'"
    "buffer p = head @ CRLF2 @ req_body r' @ buffer p'" "p' = p\<lparr>buffer := buffer p'\<rparr>"
    using next_ready_sound [OF assms] by blast
  have "r' = r\<lparr>req_body := take (unat n) (drop (i + 4) (buffer p))\<rparr>"
    and p': "buffer p' = drop (i + 4 + unat n) (buffer p)"
    using assms(1) ready(5) r'(1) by (auto simp: request_ready_def)
  then have written: "head_text (take i (buffer p)) r'" and body: "length (req_body r') = unat n"
    using parse_block_text [OF ready(1,3)] ready(4) by simp_all
  have "length head = i" using arg_cong [OF r'(3), of length] ready(4) body p' by simp
  then have "take i (buffer p) = head" using r'(3) by simp
  then show ?thesis
    using r' written ready(1,2) \<open>length head = i\<close> by (auto simp: sv_find_Some_iff)
qed (use assms in auto)

lemma next_partial_more:
  assumes wf: "wf_request (max_body_bytes p) r"
    and lim: "length (print_head r) + 3 \<le> unat (max_header_bytes p)"
    and pre: "strict_prefix (buffer p) (print_request r)"
  shows "parser_next p = (need_more_data, p)"
proof (cases "length (buffer p) < length (print_head r) + 4")
  case True
  then have "length (buffer p) \<le> unat (max_header_bytes p)" using lim by simp
  then show ?thesis
    using parser_next_partial_head [OF wf pre True] by (simp add: parser_next_def)
next
  case False
  obtain t where t: "print_head r @ CRLF2 @ req_body r = buffer p @ t" and ne: "t \<noteq> []"
    using pre by (auto simp: print_request_def strict_prefix_def prefix_def)
  define b where "b = drop (length (print_head r) + 4) (buffer p)"
  have "buffer p = take (length (print_head r @ CRLF2)) (buffer p) @ b"
    by (simp add: b_def eval_nat_numeral)
  also have "take (length (print_head r @ CRLF2)) (buffer p) =
      take (length (print_head r @ CRLF2)) (buffer p @ t)" using False by simp
  also have "\<dots> = print_head r @ CRLF2" unfolding t [symmetric] by simp
  finally have buf: "buffer p = print_head r @ CRLF2 @ b" by simp
  have "req_body r = b @ t" using t unfolding buf by simp
  then have short: "length b < length (req_body r)" using ne by simp
  have i: "sv_find CRLF2 (buffer p) = Some (length (print_head r))"
    unfolding buf by (rule find_print_request [OF wf])
  have len: "unat (of_nat (length (req_body r)) :: size_t) = length (req_body r)"
    using wf unat_size_t [of "max_body_bytes p"]
    by (simp add: wf_request_def unat_of_nat take_bit_nat_eq_self)
  have le: "length (print_head r) \<le> unat (max_header_bytes p)" using lim by simp
  have tk: "take (length (print_head r)) (buffer p) = print_head r" unfolding buf by simp
  have "length (buffer p) < length (print_head r) + 4 + length (req_body r)"
    unfolding buf using short by simp
  then show ?thesis
    unfolding parser_next_complete [OF i le] tk parse_print_head [OF wf] using len by simp
qed

subsection \<open>The laws of the request parser\<close>

text \<open>
  What the connection relies on: feeding only adds bytes, a request removes at least the
  blank line, and a parser that asks for more holds fewer bytes than its limits allow.
\<close>

locale request_source =
  fixes feed_op :: "'p \<Rightarrow> bytes \<Rightarrow> 'p" and next_op :: "'p \<Rightarrow> parse_result \<times> 'p"
    and size_op :: "'p \<Rightarrow> nat" and capacity :: "'p \<Rightarrow> nat"
  assumes feed_size: "size_op (feed_op p bs) = size_op p + length bs"
    and feed_limits: "capacity (feed_op p bs) = capacity p"
    and next_more: "next_op p = (res, p') \<Longrightarrow> pr_status res = NeedMoreData \<Longrightarrow>
          p' = p \<and> size_op p < capacity p"
    and next_error: "next_op p = (res, p') \<Longrightarrow> pr_status res = Error \<Longrightarrow> p' = p"
    and next_request: "next_op p = (res, p') \<Longrightarrow> pr_status res = RequestReady \<Longrightarrow>
          pr_request res \<noteq> None \<and> size_op p' < size_op p \<and> capacity p' = capacity p"
begin

lemma next_capacity: "next_op p = (res, p') \<Longrightarrow> capacity p' = capacity p"
  using next_more next_error next_request by (cases "pr_status res") fastforce+

lemma next_size: "next_op p = (res, p') \<Longrightarrow> size_op p' \<le> size_op p"
  using next_more next_error next_request by (cases "pr_status res") fastforce+

end

definition parser_capacity :: "http_parser \<Rightarrow> nat" where
  "parser_capacity p = unat (max_header_bytes p) + 4 + unat (max_body_bytes p)"

interpretation http: request_source feed parser_next buffered_bytes parser_capacity
proof unfold_locales
  fix p p' res bs
  show "buffered_bytes (feed p bs) = buffered_bytes p + length bs"
    by (simp add: buffered_bytes_def feed_def)
  show "parser_capacity (feed p bs) = parser_capacity p"
    by (simp add: parser_capacity_def feed_def)
  assume n: "parser_next p = (res, p')"
  show "p' = p \<and> buffered_bytes p < parser_capacity p" if "pr_status res = NeedMoreData"
    using parser_next_more_bound [OF n that] by (simp add: parser_capacity_def)
  show "p' = p" if "pr_status res = Error"
    using n that by (cases rule: parser_next_cases [of p]) auto
  show "pr_request res \<noteq> None \<and> buffered_bytes p' < buffered_bytes p \<and> parser_capacity p' = parser_capacity p"
    if ready: "pr_status res = RequestReady"
  proof -
    obtain r head where r: "res = request_ready r" "buffer p = head @ CRLF2 @ req_body r @ buffer p'"
        "p' = p\<lparr>buffer := buffer p'\<rparr>"
      using next_ready_sound [OF n ready] by blast
    have "parser_capacity p' = parser_capacity p" by (subst r(3)) (simp add: parser_capacity_def)
    then show ?thesis using r(1,2) by (simp add: buffered_bytes_def)
  qed
qed

definition head_request :: "bytes \<Rightarrow> http_request option" where
  "head_request head =
     (case crlf_lines head of
        [] \<Rightarrow> None
      | l # ls \<Rightarrow> (case parse_request_line l of
          Inl _ \<Rightarrow> None
        | Inr rl \<Rightarrow> (case add_lines (base_request rl) ls of Inl _ \<Rightarrow> None | Inr r \<Rightarrow> Some r)))"

lemma parser_next_head:
  assumes "sv_find CRLF2 (buffer p) = Some i" and "i \<le> unat (max_header_bytes p)"
    and "head_request (take i (buffer p)) = Some r"
    and "check_framing (max_body_bytes p) r = Inl (e, k)"
  shows "parser_next p = (parse_error e k, p)"
proof -
  obtain l ls where l: "crlf_lines (take i (buffer p)) = l # ls"
    using assms(3) by (auto simp: head_request_def split: list.splits)
  then have "parse_block (max_body_bytes p) (take i (buffer p)) = Inl (e, k)"
    using assms(3,4)
    by (auto simp: head_request_def parse_block_lines parse_lines_def split: sum.splits)
  then show ?thesis by (simp add: parser_next_complete [OF assms(1,2)])
qed

definition sample_get :: http_request where
  "sample_get = \<lparr>req_method = ''GET'', req_target = ''/a'', req_version = ''HTTP/1.1'',
     req_headers = header_map [\<lparr>hf_name = ''host'', hf_value = ''h''\<rparr>],
     req_header_fields = [\<lparr>hf_name = ''host'', hf_value = ''h''\<rparr>], req_body = []\<rparr>"

definition sample_post :: http_request where
  "sample_post = \<lparr>req_method = ''POST'', req_target = ''/b'', req_version = ''HTTP/1.0'',
     req_headers = header_map [\<lparr>hf_name = ''content-length'', hf_value = ''2''\<rparr>],
     req_header_fields = [\<lparr>hf_name = ''content-length'', hf_value = ''2''\<rparr>],
     req_body = ''xy''\<rparr>"

lemmas wf_eval = wf_request_def wf_field_def is_token_def is_tchar_def isalnum_def is_digit_def
  to_lower_ascii_def tolower_def ows_strip_def is_ows_def single_fields_def host_ok_def
  header_map_def field_values_def declared_length_def decimal_val_def digit_val_def

lemma sample_get_wf: "wf_request 1048576 sample_get"
  by (simp add: sample_get_def wf_eval)

lemma sample_post_wf: "wf_request 1048576 sample_post"
  by (simp add: sample_post_def wf_eval)

lemma sample_get_len: "length (print_head sample_get) = 24"
  by (simp add: print_head_def sample_get_def field_line_def)
lemma sample_post_len: "length (print_head sample_post) = 35"
  by (simp add: print_head_def sample_post_def field_line_def)


lemmas parse_eval = head_request_def crlf_lines.simps parse_request_line_def parse_field_def
  parse_header_line_def add_header_def substr_def sv_find_from_def base_request_def trim_ows_eq

lemma default_parser_limits [simp]:
  "max_header_bytes default_parser = 16384" "max_body_bytes default_parser = 1048576"
  by (simp_all add: default_parser_def new_parser_def)

lemma sample_get_next:
  "parser_next (default_parser\<lparr>buffer := print_request sample_get @ rest\<rparr>) =
     (request_ready sample_get, default_parser\<lparr>buffer := rest\<rparr>)"
  by (subst parse_print_request [of _ sample_get rest]) (simp_all add: sample_get_wf sample_get_len)

subsection \<open>Properties\<close>

text \<open>
  C3. Round trip and pipelining. When the buffer starts with the printed form of any number
  of well-formed requests, each within the header limit, successive calls of \<open>next\<close> return
  exactly these requests in order and leave exactly the bytes that follow them.
\<close>

theorem parse_pipelined:
  assumes "\<forall>r \<in> set rs. wf_request (max_body_bytes p) r \<and>
      length (print_head r) \<le> unat (max_header_bytes p)"
    and "buffer p = concat (map print_request rs) @ rest"
  shows "parse_many (length rs) p = (map request_ready rs, p\<lparr>buffer := rest\<rparr>)"
  using assms
proof (induction rs arbitrary: p)
  case Nil
  then show ?case by simp
next
  case (Cons r rs)
  let ?p = "p\<lparr>buffer := concat (map print_request rs) @ rest\<rparr>"
  have "parser_next p = (request_ready r, ?p)"
    by (rule parse_print_request) (use Cons.prems in auto)
  moreover have "parse_many (length rs) ?p = (map request_ready rs, p\<lparr>buffer := rest\<rparr>)"
    using Cons.IH [of ?p] Cons.prems(1) by simp
  ultimately show ?case by simp
qed

theorem parse_pipelined_witness:
  "parse_many (length [sample_get, sample_post]) (default_parser\<lparr>buffer := print_request sample_get @ print_request sample_post @ ''PUT''\<rparr>)
     = ([request_ready sample_get, request_ready sample_post], default_parser\<lparr>buffer := ''PUT''\<rparr>)"
  using parse_pipelined [of "[sample_get, sample_post]"
      "default_parser\<lparr>buffer := print_request sample_get @ print_request sample_post @ ''PUT''\<rparr>" "''PUT''"]
  by (simp add: sample_get_wf sample_post_wf sample_get_len sample_post_len)

text \<open>
  C4. Soundness. A request that \<open>next\<close> returns is well-formed (token method, origin-form
  target, supported version, Host on HTTP/1.1, no Transfer-Encoding, no repeated field but
  Connection, body of exactly the declared length within the limit), and it is the one at the start of the buffer: the
  bytes consumed are the header block up to the first blank line, which is within the limit and spells the request line and
  the fields of the request one per line, that blank line and the body. The other bytes stay buffered.
\<close>

theorem parser_next_sound:
  assumes "parser_next p = (res, p')" and "pr_status res = RequestReady"
  shows "\<exists>r head. res = request_ready r \<and> wf_request (max_body_bytes p) r \<and> head_text head r \<and>
    buffer p = head @ CRLF2 @ req_body r @ buffer p' \<and> (\<forall>j < length head. \<not> prefix CRLF2 (drop j (buffer p))) \<and>
    length head \<le> unat (max_header_bytes p) \<and> p' = p\<lparr>buffer := buffer p'\<rparr>"
  using assms by (rule next_ready_text)

theorem parser_next_sound_witness:
  "\<exists>r head. request_ready sample_get = request_ready r \<and> wf_request 1048576 r \<and> head_text head r \<and>
     print_request sample_get @ ''x'' = head @ CRLF2 @ req_body r @ ''x'' \<and> length head \<le> 16384"
proof -
  obtain r head where "request_ready sample_get = request_ready r" "wf_request 1048576 r" "head_text head r"
    "print_request sample_get @ ''x'' = head @ CRLF2 @ req_body r @ ''x''" "length head \<le> 16384"
    using parser_next_sound [OF sample_get_next [of "''x''"]] by auto
  then show ?thesis by blast
qed

text \<open>
  Incremental parsing. Once the header block is complete and \<open>next\<close> has an answer (a
  request or an error), bytes that arrive later change neither the answer nor, for a request,
  what is consumed: they are appended to what stays buffered.
\<close>

theorem parser_next_feed:
  assumes "parser_next p = (res, p')" and "sv_find CRLF2 (buffer p) \<noteq> None"
    and "pr_status res \<noteq> NeedMoreData"
  shows "parser_next (feed p bs) = (res, feed p' bs)"
proof -
  obtain i where i: "sv_find CRLF2 (buffer p) = Some i" using assms(2) by auto
  have i': "sv_find CRLF2 (buffer (feed p bs)) = Some i"
    using sv_find_append [OF i] by (simp add: feed_def)
  have le: "i \<le> length (buffer p)" using sv_find_SomeD(2) [OF i] by simp
  show ?thesis
  proof (cases "i \<le> unat (max_header_bytes p)")
    case False
    then show ?thesis using assms(1) i i' by (auto simp: parser_next_def feed_def)
  next
    case True
    have "take i (buffer p @ bs) = take i (buffer p)" using le by simp
    then show ?thesis
      using assms(1,3) parser_next_complete [OF i True] parser_next_complete [OF i'] True
      by (auto simp: feed_def split: sum.splits prod.splits if_splits)
  qed
qed

theorem parser_next_feed_witness:
  "parser_next (feed (default_parser\<lparr>buffer := print_request sample_get @ ''x''\<rparr>) ''yz'') =
     (request_ready sample_get, feed (default_parser\<lparr>buffer := ''x''\<rparr>) ''yz'')"
  by (rule parser_next_feed [OF sample_get_next])
     (simp_all add: print_request_def find_print_request [OF sample_get_wf, simplified])

text \<open>
  Fragmentation. While only a proper prefix of a well-formed request has arrived, \<open>next\<close>
  asks for more data and keeps the buffer, provided the header block is at least three bytes
  below the header limit.
\<close>

theorem parser_next_partial:
  assumes wf: "wf_request (max_body_bytes p) r"
    and lim: "length (print_head r) + 3 \<le> unat (max_header_bytes p)"
    and pre: "strict_prefix (buffer p) (print_request r)"
  shows "parser_next p = (need_more_data, p)"
  using assms by (rule next_partial_more)

theorem parser_next_partial_witness:
  "parser_next (default_parser\<lparr>buffer := print_head sample_get @ [CR]\<rparr>) =
     (need_more_data, default_parser\<lparr>buffer := print_head sample_get @ [CR]\<rparr>)"
  by (rule parser_next_partial [of _ sample_get])
     (simp_all add: sample_get_wf sample_get_len print_request_def strict_prefix_def)

text \<open>
  C19. The header limit depends on fragmentation. A header block that fills the limit (or
  stays below it by less than \<open>k\<close> bytes) is rejected when the read that delivers it stops
  after \<open>k\<close> bytes of the blank line, although the parser accepts the same bytes
  when they arrive together.
\<close>

theorem parser_next_split_terminator:
  assumes wf: "wf_request (max_body_bytes p) r"
    and lim: "length (print_head r) \<le> unat (max_header_bytes p)"
      "unat (max_header_bytes p) < length (print_head r) + k" and k: "k \<le> 3"
  shows "parser_next (p\<lparr>buffer := print_head r @ take k CRLF2\<rparr>) =
      (parse_error ''headers exceed configured parser limit'' BadRequest,
       p\<lparr>buffer := print_head r @ take k CRLF2\<rparr>) \<and>
    parser_next (p\<lparr>buffer := print_request r\<rparr>) = (request_ready r, p\<lparr>buffer := []\<rparr>)"
proof
  let ?s = "print_head r @ take k CRLF2"
  have "strict_prefix ?s (print_request r)"
    using k unfolding print_request_def
    by (cases k rule: nat.exhaust) (auto simp: strict_prefix_def prefix_def numeral_3_eq_3 le_Suc_eq)
  moreover have "length ?s = length (print_head r) + k" using k by simp
  ultimately show "parser_next (p\<lparr>buffer := ?s\<rparr>) =
      (parse_error ''headers exceed configured parser limit'' BadRequest, p\<lparr>buffer := ?s\<rparr>)"
    using parser_next_partial_head [OF wf] lim k by (simp add: parser_next_def)
  show "parser_next (p\<lparr>buffer := print_request r\<rparr>) = (request_ready r, p\<lparr>buffer := []\<rparr>)"
    using parse_print_request [of "p\<lparr>buffer := print_request r\<rparr>" r "[]"] wf lim by simp
qed

theorem parser_next_split_terminator_witness:
  "parser_next \<lparr>buffer = print_head sample_get @ take 1 CRLF2, max_header_bytes = 24, max_body_bytes = 1048576\<rparr>
     = (parse_error ''headers exceed configured parser limit'' BadRequest,
        \<lparr>buffer = print_head sample_get @ take 1 CRLF2, max_header_bytes = 24, max_body_bytes = 1048576\<rparr>)"
  using parser_next_split_terminator
      [of "\<lparr>buffer = [], max_header_bytes = 24, max_body_bytes = 1048576\<rparr>" sample_get 1]
  by (simp add: sample_get_wf sample_get_len)

text \<open>
  No ambiguous framing. A complete header block that carries Transfer-Encoding never
  yields a request: together with Content-Length it is a bad request, alone it is reported as
  an unsupported transfer encoding, and nothing is consumed.
\<close>

theorem parser_transfer_encoding:
  assumes "sv_find CRLF2 (buffer p) = Some i" and "i \<le> unat (max_header_bytes p)"
    and "head_request (take i (buffer p)) = Some r" and "host_ok r"
    and "req_headers r ''transfer-encoding'' \<noteq> None"
  shows "parser_next p =
    (if req_headers r ''content-length'' \<noteq> None
     then parse_error ''request contains both Transfer-Encoding and Content-Length'' BadRequest
     else parse_error ''Transfer-Encoding is not supported'' UnsupportedTransferEncoding, p)"
proof -
  have h: "\<not> (req_version r = ''HTTP/1.1'' \<and>
      (case find_header r ''host'' of None \<Rightarrow> True | Some h \<Rightarrow> trim_ows h = []))"
    using assms(4) by (auto simp: host_ok_def find_header_def trim_ows_eq split: option.splits)
  have "check_framing (max_body_bytes p) r =
    (if req_headers r ''content-length'' \<noteq> None
     then Inl (''request contains both Transfer-Encoding and Content-Length'', BadRequest)
     else Inl (''Transfer-Encoding is not supported'', UnsupportedTransferEncoding))"
    unfolding check_framing_def if_not_P [OF h] using assms(5)
    by (simp add: find_header_def Let_def)
  then show ?thesis
    using parser_next_head [OF assms(1-3)] by (simp split: if_splits)
qed

theorem parser_transfer_encoding_witness:
  "parser_next (default_parser\<lparr>buffer := ''POST / HTTP/1.0'' @ CRLF @ ''Transfer-Encoding: chunked'' @ CRLF2\<rparr>)
     = (parse_error ''Transfer-Encoding is not supported'' UnsupportedTransferEncoding,
        default_parser\<lparr>buffer := ''POST / HTTP/1.0'' @ CRLF @ ''Transfer-Encoding: chunked'' @ CRLF2\<rparr>)"
  using parser_transfer_encoding
    [of "default_parser\<lparr>buffer := ''POST / HTTP/1.0'' @ CRLF @ ''Transfer-Encoding: chunked'' @ CRLF2\<rparr>" 43
        "\<lparr>req_method = ''POST'', req_target = ''/'', req_version = ''HTTP/1.0'',
          req_headers = [''transfer-encoding'' \<mapsto> ''chunked''],
          req_header_fields = [\<lparr>hf_name = ''transfer-encoding'', hf_value = ''chunked''\<rparr>],
          req_body = []\<rparr>"]
  by (simp add: parse_eval wf_eval char_of_def bit_0)

end
