(* ===== verification/Connection.thy ===== *)
theory Connection
  imports Run_System Router Parser_Correctness
begin

section \<open>The connection state machine\<close>

text \<open>
  Models \<open>include/http/connection.hpp\<close> and \<open>src/connection.cpp\<close>. A \<open>connection\<close> is the
  object's state; each pass through the loop of \<open>serve\<close> is one call of \<open>conn_step\<close> with an
  \<open>io_event\<close>, the answers of the operating system during that pass: the two readings of the
  steady clock, the results of \<open>setsockopt\<close>, \<open>read\<close> and \<open>send\<close>, the file system and the
  iteration order of the response's header map. The system calls made are recorded as effects.
  Times are nanoseconds, configured timeouts milliseconds, both unbounded integers.
\<close>

subsection \<open>Data\<close>

record connection_timeouts =
  read_timeout :: int
  keep_alive_timeout :: int
  write_timeout :: int

record connection_limits =
  max_requests :: size_t

record connection_config =
  timeouts :: connection_timeouts
  limits :: connection_limits

datatype connection_end_reason = PeerClosed | ConnectionClose | RequestLimit | ParseError
  | ReadTimeout | KeepAliveTimeout | WriteTimeout | ReadError | WriteError

record connection_result =
  reason :: connection_end_reason
  requests_served :: size_t
  bytes_read :: size_t
  bytes_written :: size_t

datatype state = Reading | Parsing | Writing | Closed

datatype read_phase = Request | KeepAlive

record connection =
  fd :: int
  parser :: http_parser
  conn_state :: state
  pending_response :: bytes
  write_offset :: nat
  close_after_write :: bool
  close_reason_after_write :: connection_end_reason
  config :: connection_config
  phase :: read_phase
  read_deadline :: int
  write_deadline :: int
  conn_result :: connection_result

definition default_timeouts :: connection_timeouts where
  "default_timeouts = \<lparr>read_timeout = 10000, keep_alive_timeout = 5000, write_timeout = 10000\<rparr>"

definition default_limits :: connection_limits where
  "default_limits = \<lparr>max_requests = 100\<rparr>"

definition default_config :: connection_config where
  "default_config = \<lparr>timeouts = default_timeouts, limits = default_limits\<rparr>"

definition empty_result :: connection_result where
  "empty_result = \<lparr>reason = PeerClosed, requests_served = 0, bytes_read = 0, bytes_written = 0\<rparr>"

subsection \<open>The operating system\<close>

datatype errno = EAGAIN | EWOULDBLOCK | EINTR | Other_errno int

datatype sock_option = SO_RCVTIMEO | SO_SNDTIMEO

record timeval =
  tv_sec :: int
  tv_usec :: int

datatype effect = Armed sock_option timeval | Received bytes | Sent bytes

record io_event =
  ev_now :: int
  ev_later :: int
  ev_setsockopt :: "errno option"
  ev_read :: "errno + bytes"
  ev_send :: "errno + nat"
  ev_fs :: fs_env
  ev_order :: "header_table \<Rightarrow> header_table"

definition milliseconds :: "int \<Rightarrow> int" where
  "milliseconds ms = ms * 1000000"

subsection \<open>Keep-alive\<close>

fun trim_front :: "bytes \<Rightarrow> bytes" where
  "trim_front [] = []"
| "trim_front (c # cs) = (if c = SP \<or> c = HTAB then trim_front cs else c # cs)"

function trim_back :: "bytes \<Rightarrow> bytes" where
  "trim_back input =
     (if input \<noteq> [] \<and> (last input = SP \<or> last input = HTAB) then trim_back (butlast input)
      else input)"
  by pat_completeness auto
termination
  by (relation "measure length") auto

declare trim_back.simps [simp del]

definition trim_view :: "bytes \<Rightarrow> bytes" where
  "trim_view input = trim_back (trim_front input)"

fun iequals_loop :: "bytes \<Rightarrow> bytes \<Rightarrow> bool" where
  "iequals_loop (l # ls) (r # rs) = (if tolower l \<noteq> tolower r then False else iequals_loop ls rs)"
| "iequals_loop _ _ = True"

definition ascii_iequals :: "bytes \<Rightarrow> bytes \<Rightarrow> bool" where
  "ascii_iequals left right =
     (if length left \<noteq> length right then False else iequals_loop left right)"

function token_loop :: "bytes \<Rightarrow> bytes \<Rightarrow> bool" where
  "token_loop remaining token =
     (let comma = sv_find '','' remaining;
          candidate = trim_view (case comma of None \<Rightarrow> remaining | Some i \<Rightarrow> substr remaining 0 i)
      in if ascii_iequals candidate token then True
         else case comma of None \<Rightarrow> False | Some i \<Rightarrow> token_loop (drop (i + 1) remaining) token)"
  by pat_completeness auto
termination
proof (relation "measure (\<lambda>(remaining, token). length remaining)")
  fix remaining token :: bytes and comma candidate i
  assume "comma = sv_find '','' remaining" "comma = Some i"
  then show "((drop (i + 1) remaining, token), remaining, token)
      \<in> measure (\<lambda>(remaining, token). length remaining)"
    using sv_find_SomeD(2) [of "'',''" remaining i] by simp
qed simp

declare token_loop.simps [simp del]

definition has_connection_token :: "http_request \<Rightarrow> bytes \<Rightarrow> bool" where
  "has_connection_token request token =
     (case req_headers request ''connection'' of
        None \<Rightarrow> False
      | Some v \<Rightarrow> token_loop v token)"

definition should_keep_alive :: "http_request \<Rightarrow> bool" where
  "should_keep_alive request =
     (if has_connection_token request ''close'' then False
      else if req_version request = ''HTTP/1.1'' then True
      else req_version request = ''HTTP/1.0'' \<and> has_connection_token request ''keep-alive'')"

subsection \<open>Error responses\<close>

definition bad_request_response :: http_response where
  "bad_request_response =
     default_response\<lparr>status_code := 400, reason_phrase := ''Bad Request'',
       resp_headers := set_header ''Content-Type'' ''text/plain'' [],
       resp_body := ''bad request'' @ [LF]\<rparr>"

definition not_implemented_response :: http_response where
  "not_implemented_response =
     default_response\<lparr>status_code := 501, reason_phrase := ''Not Implemented'',
       resp_headers := set_header ''Content-Type'' ''text/plain'' [],
       resp_body := ''transfer encoding is not supported'' @ [LF]\<rparr>"

definition request_timeout_response :: http_response where
  "request_timeout_response =
     default_response\<lparr>status_code := 408, reason_phrase := ''Request Timeout'',
       resp_headers := set_header ''Content-Type'' ''text/plain'' [],
       resp_body := ''request timeout'' @ [LF]\<rparr>"

subsection \<open>Construction\<close>

definition new_connection :: "int \<Rightarrow> connection_config \<Rightarrow> int \<Rightarrow> int \<Rightarrow> bytes + connection" where
  "new_connection f cfg now1 now2 =
     (let c = \<lparr>fd = f, parser = default_parser,
               conn_state = (if f \<ge> 0 then Reading else Closed),
               pending_response = [], write_offset = 0, close_after_write = False,
               close_reason_after_write = ConnectionClose, config = cfg, phase = Request,
               read_deadline = now1 + milliseconds (read_timeout (timeouts cfg)),
               write_deadline = now2, conn_result = empty_result\<rparr>
      in if read_timeout (timeouts cfg) \<le> 0 \<or> keep_alive_timeout (timeouts cfg) \<le> 0 \<or>
            write_timeout (timeouts cfg) \<le> 0 \<or> max_requests (limits cfg) = 0
         then Inl ''connection timeouts and request limit must be positive''
         else if \<not> f \<ge> 0
         then Inr (c\<lparr>conn_result := (conn_result c)\<lparr>reason := ReadError\<rparr>\<rparr>)
         else Inr c)"

subsection \<open>Operations\<close>

definition finish :: "connection_end_reason \<Rightarrow> connection \<Rightarrow> connection" where
  "finish r c = c\<lparr>conn_result := (conn_result c)\<lparr>reason := r\<rparr>, conn_state := Closed\<rparr>"

definition begin_request_timeout :: "int \<Rightarrow> connection \<Rightarrow> connection" where
  "begin_request_timeout now c =
     c\<lparr>phase := Request,
       read_deadline := now + milliseconds (read_timeout (timeouts (config c)))\<rparr>"

definition begin_keep_alive_timeout :: "int \<Rightarrow> connection \<Rightarrow> connection" where
  "begin_keep_alive_timeout now c =
     c\<lparr>phase := KeepAlive,
       read_deadline := now + milliseconds (keep_alive_timeout (timeouts (config c)))\<rparr>"

text \<open>
  The value armed for a deadline; \<open>None\<close> when it has passed. Success of \<open>arm_socket_timeout\<close>
  is \<open>None\<close>, failure the value of \<open>errno\<close>.
\<close>

definition timeout_value :: "int \<Rightarrow> int \<Rightarrow> timeval option" where
  "timeout_value deadline now =
     (let remaining = deadline - now
      in if remaining \<le> 0 then None
         else let micros = remaining div 1000;
                  timeout = (if micros \<le> 0 then 1 else micros)
              in Some \<lparr>tv_sec = timeout div 1000000, tv_usec = timeout mod 1000000\<rparr>)"

definition arm_socket_timeout ::
  "sock_option \<Rightarrow> int \<Rightarrow> io_event \<Rightarrow> errno option \<times> effect list" where
  "arm_socket_timeout option deadline ev =
     (case timeout_value deadline (ev_now ev) of
        None \<Rightarrow> (Some EAGAIN, [])
      | Some val \<Rightarrow> (ev_setsockopt ev, [Armed option val]))"

definition queue_response ::
  "io_event \<Rightarrow> http_response \<Rightarrow> bool \<Rightarrow> connection_end_reason \<Rightarrow> connection \<Rightarrow> connection" where
  "queue_response ev response keep_alive close_reason c =
     c\<lparr>pending_response := serialize_response (ev_order ev)
         (response\<lparr>resp_headers := set_header ''Connection'' (if keep_alive then ''keep-alive'' else ''close'')
            (resp_headers response)\<rparr>),
       write_offset := 0,
       close_after_write := \<not> keep_alive,
       close_reason_after_write := close_reason,
       write_deadline := ev_later ev + milliseconds (write_timeout (timeouts (config c))),
       conn_state := Writing\<rparr>"

definition read_timed_out :: "io_event \<Rightarrow> connection \<Rightarrow> connection" where
  "read_timed_out ev c =
     (if phase c = KeepAlive then finish KeepAliveTimeout c
      else queue_response ev request_timeout_response False ReadTimeout c)"

definition read_from_socket :: "io_event \<Rightarrow> connection \<Rightarrow> connection \<times> effect list" where
  "read_from_socket ev c =
     (case arm_socket_timeout SO_RCVTIMEO (read_deadline c) ev of
        (Some e, armed) \<Rightarrow>
          if e \<noteq> EAGAIN \<and> e \<noteq> EWOULDBLOCK then (finish ReadError c, armed)
          else (read_timed_out ev c, armed)
      | (None, armed) \<Rightarrow>
          (case ev_read ev of
             Inr data \<Rightarrow>
               if length data > 0 then
                 let c = c\<lparr>conn_result := (conn_result c)\<lparr>bytes_read :=
                            bytes_read (conn_result c) + of_nat (length data)\<rparr>\<rparr>;
                     c = (if phase c = KeepAlive then begin_request_timeout (ev_later ev) c else c);
                     c = c\<lparr>parser := feed (parser c) data, conn_state := Parsing\<rparr>
                 in (c, armed @ [Received data])
               else (finish PeerClosed c, armed)
           | Inl e \<Rightarrow>
               if e = EINTR then (c, armed)
               else if e = EAGAIN \<or> e = EWOULDBLOCK then (read_timed_out ev c, armed)
               else (finish ReadError c, armed)))"

definition parse_request :: "static_file_handler \<Rightarrow> io_event \<Rightarrow> connection \<Rightarrow> connection" where
  "parse_request file_handler ev c0 =
     (let c1 = (if phase c0 = KeepAlive \<and> buffered_bytes (parser c0) > 0
                then begin_request_timeout (ev_now ev) c0 else c0)
      in case parser_next (parser c1) of (res, p) \<Rightarrow>
         let c = c1\<lparr>parser := p\<rparr>
         in if pr_status res = NeedMoreData then c\<lparr>conn_state := Reading\<rparr>
            else if pr_status res = Error \<or> pr_request res = None then
              let response = (if pr_error_kind res = UnsupportedTransferEncoding
                              then not_implemented_response else bad_request_response)
              in queue_response ev response False ParseError c
            else
              let request = the (pr_request res);
                  c = c\<lparr>conn_result := (conn_result c)\<lparr>requests_served :=
                          requests_served (conn_result c) + 1\<rparr>\<rparr>;
                  request_limit_reached =
                    requests_served (conn_result c) \<ge> max_requests (limits (config c));
                  keep_alive = (should_keep_alive request \<and> \<not> request_limit_reached);
                  response = (route_request (ev_fs ev) request file_handler)
                               \<lparr>resp_version := req_version request\<rparr>
              in queue_response ev response keep_alive
                   (if request_limit_reached then RequestLimit else ConnectionClose) c)"

definition write_to_socket :: "io_event \<Rightarrow> connection \<Rightarrow> connection \<times> effect list" where
  "write_to_socket ev c =
     (case arm_socket_timeout SO_SNDTIMEO (write_deadline c) ev of
        (Some e, armed) \<Rightarrow>
          (finish (if e = EAGAIN \<or> e = EWOULDBLOCK then WriteTimeout else WriteError) c, armed)
      | (None, armed) \<Rightarrow>
          (case ev_send ev of
             Inr n \<Rightarrow>
               if n > 0 then
                 let sent = take n (drop (write_offset c) (pending_response c));
                     c = c\<lparr>write_offset := write_offset c + n,
                           conn_result := (conn_result c)\<lparr>bytes_written :=
                             bytes_written (conn_result c) + of_nat n\<rparr>\<rparr>;
                     c = (if write_offset c = length (pending_response c) then
                            let c = c\<lparr>pending_response := [], write_offset := 0\<rparr>
                            in if close_after_write c then finish (close_reason_after_write c) c
                               else (begin_keep_alive_timeout (ev_later ev) c)\<lparr>conn_state := Parsing\<rparr>
                          else c)
                 in (c, armed @ [Sent sent])
               else (finish WriteError c, armed)
           | Inl e \<Rightarrow>
               if e = EINTR then (c, armed)
               else if e = EAGAIN \<or> e = EWOULDBLOCK then (finish WriteTimeout c, armed)
               else (finish WriteError c, armed)))"

definition conn_step ::
  "static_file_handler \<Rightarrow> io_event \<Rightarrow> connection \<Rightarrow> connection \<times> effect list" where
  "conn_step file_handler ev c =
     (case conn_state c of
        Reading \<Rightarrow> read_from_socket ev c
      | Parsing \<Rightarrow> (parse_request file_handler ev c, [])
      | Writing \<Rightarrow> write_to_socket ev c
      | Closed \<Rightarrow> (c, []))"

text \<open>
  The loop of \<open>serve\<close> on the events of successive passes: the result, or \<open>None\<close> while the loop
  has not ended, with the state reached and the effects so far.
\<close>

fun serve :: "static_file_handler \<Rightarrow> io_event list \<Rightarrow> connection \<Rightarrow>
    connection_result option \<times> connection \<times> effect list" where
  "serve file_handler evs c =
     (if conn_state c = Closed then (Some (conn_result c), c, [])
      else case evs of
          [] \<Rightarrow> (None, c, [])
        | ev # rest \<Rightarrow>
          (case conn_step file_handler ev c of (c', effs) \<Rightarrow>
             case serve file_handler rest c' of (res, c'', effs') \<Rightarrow> (res, c'', effs @ effs')))"

subsection \<open>Keep-alive tokens\<close>

lemma trim_front_eq: "trim_front s = dropWhile is_ows s"
  by (induction s) (auto simp: is_ows_def)

lemma trim_back_eq: "trim_back s = rev (dropWhile is_ows (rev s))"
proof (induction s rule: rev_induct)
  case (snoc x xs)
  then show ?case by (subst trim_back.simps) (auto simp flip: is_ows_def)
qed (simp add: trim_back.simps)

lemma trim_view_eq: "trim_view s = ows_strip s"
  by (simp add: trim_view_def trim_front_eq trim_back_eq ows_strip_def)

lemma iequals_loop_eq:
  "length l = length r \<Longrightarrow> iequals_loop l r \<longleftrightarrow> to_lower_ascii l = to_lower_ascii r"
  by (induction l r rule: list_induct2) (auto simp: to_lower_ascii_def)

lemma ascii_iequals_iff: "ascii_iequals l r \<longleftrightarrow> to_lower_ascii l = to_lower_ascii r"
  using iequals_loop_eq by (auto simp: ascii_iequals_def to_lower_ascii_def dest: map_eq_imp_length_eq)

fun comma_fields :: "bytes \<Rightarrow> bytes list" where
  "comma_fields [] = [[]]"
| "comma_fields (c # cs) =
     (if c = CHR '','' then [] # comma_fields cs
      else (c # hd (comma_fields cs)) # tl (comma_fields cs))"

lemma comma_fields_one: "CHR '','' \<notin> set s \<Longrightarrow> comma_fields s = [s]"
  by (induction s) auto

lemma comma_fields_hit: "CHR '','' \<notin> set a \<Longrightarrow> comma_fields (a @ CHR '','' # b) = a # comma_fields b"
  by (induction a) auto

lemma token_loop_iff:
  "token_loop v token \<longleftrightarrow>
     (\<exists>w \<in> set (comma_fields v). to_lower_ascii (ows_strip w) = to_lower_ascii token)"
proof (induction v token rule: token_loop.induct)
  case (1 v token)
  show ?case
  proof (cases "sv_find '','' v")
    case None
    then have "CHR '','' \<notin> set v" by (simp add: sv_find_char_None)
    then show ?thesis
      by (subst token_loop.simps)
         (simp add: None Let_def trim_view_eq ascii_iequals_iff comma_fields_one)
  next
    case (Some i)
    define a b where "a = take i v" and "b = drop (i + 1) v"
    have i: "i < length v" "v ! i = CHR '',''" and a: "CHR '','' \<notin> set a"
      using sv_find_char_Some [OF Some] by (simp_all add: a_def)
    have v: "v = a @ CHR '','' # b"
      using id_take_nth_drop [OF i(1)] i(2) unfolding a_def b_def by simp
    have "token_loop v token \<longleftrightarrow> to_lower_ascii (ows_strip a) = to_lower_ascii token \<or> token_loop b token"
      using Some
      by (subst token_loop.simps) (auto simp: trim_view_eq ascii_iequals_iff substr_def a_def b_def)
    moreover have "token_loop b token \<longleftrightarrow>
        (\<exists>w \<in> set (comma_fields b). to_lower_ascii (ows_strip w) = to_lower_ascii token)"
      if "to_lower_ascii (ows_strip a) \<noteq> to_lower_ascii token"
      using 1 [OF refl refl _ Some] that
      by (simp add: Some trim_view_eq ascii_iequals_iff substr_def a_def b_def)
    ultimately show ?thesis using v comma_fields_hit [OF a] by auto
  qed
qed


end
