(* ===== verification/Connection_Invariants.thy ===== *)
theory Connection_Invariants
  imports Connection
begin

section \<open>Invariants and termination of the connection\<close>

text \<open>
  The invariant of the connection object, its preservation by every pass of \<open>serve\<close>, the
  exactness of the byte counters, and a well-founded measure that every pass decreases unless
  a system call is interrupted. The assumptions on the operating system are those of POSIX:
  \<open>read\<close> returns at most the 4096 bytes asked for and \<open>send\<close> at most the bytes given.
\<close>

subsection \<open>The invariant\<close>

definition io_ok :: "io_event \<Rightarrow> connection \<Rightarrow> bool" where
  "io_ok ev c \<longleftrightarrow>
     (case ev_read ev of Inr data \<Rightarrow> length data \<le> 4096 | Inl _ \<Rightarrow> True) \<and>
     (case ev_send ev of Inr n \<Rightarrow> n \<le> length (pending_response c) - write_offset c | Inl _ \<Rightarrow> True)"

abbreviation served :: "connection \<Rightarrow> size_t" where
  "served c \<equiv> requests_served (conn_result c)"

abbreviation limit :: "connection \<Rightarrow> size_t" where
  "limit c \<equiv> max_requests (limits (config c))"

definition buffer_capacity :: nat where
  "buffer_capacity = 1064964"

definition conn_inv :: "connection \<Rightarrow> bool" where
  "conn_inv c \<longleftrightarrow> 0 < limit c \<and> parser_capacity (parser c) = buffer_capacity \<and>
     buffered_bytes (parser c) < buffer_capacity + 4096 \<and> served c \<le> limit c \<and>
     (case conn_state c of
        Reading \<Rightarrow> buffered_bytes (parser c) < buffer_capacity \<and> pending_response c = [] \<and>
          write_offset c = 0 \<and> served c < limit c
      | Parsing \<Rightarrow> pending_response c = [] \<and> write_offset c = 0 \<and> served c < limit c
      | Writing \<Rightarrow> write_offset c < length (pending_response c) \<and>
          (\<not> close_after_write c \<longrightarrow> served c < limit c)
      | Closed \<Rightarrow> True)"

lemma size_t_inc: "s < l \<Longrightarrow> unat (s + 1) = unat s + 1" for s l :: size_t
  using unat_size_t [of l] by (simp add: word_less_nat_alt unat_word_ariths)

lemmas conn_ops = finish_def begin_request_timeout_def begin_keep_alive_timeout_def queue_response_def
  read_timed_out_def

lemma serialize_not_Nil [simp]: "serialize_response order r \<noteq> []"
  by (simp add: serialize_response_def)

lemma finish_inv: "conn_inv c \<Longrightarrow> conn_inv (finish r c)"
  by (auto simp: conn_inv_def finish_def)

lemma queue_closing_inv: "conn_inv c \<Longrightarrow> conn_inv (queue_response ev r False why c)"
  by (auto simp: conn_inv_def queue_response_def)

lemma read_timed_out_inv: "conn_inv c \<Longrightarrow> conn_inv (read_timed_out ev c)"
  by (simp add: read_timed_out_def finish_inv queue_closing_inv)

lemma read_inv:
  assumes "conn_inv c" and "conn_state c = Reading" and "io_ok ev c"
  shows "conn_inv (fst (read_from_socket ev c))"
proof -
  have b: "buffered_bytes (feed (parser c) d) < buffer_capacity + 4096" if "ev_read ev = Inr d" for d
    using assms that by (simp add: conn_inv_def io_ok_def http.feed_size)
  show ?thesis
    using assms b
    by (auto simp: read_from_socket_def Let_def finish_inv read_timed_out_inv split: prod.splits option.splits sum.splits)
       (auto simp: conn_inv_def begin_request_timeout_def http.feed_limits)
qed

lemma write_inv:
  assumes "conn_inv c" and "conn_state c = Writing" and "io_ok ev c"
  shows "conn_inv (fst (write_to_socket ev c))"
  using assms
  by (auto simp: write_to_socket_def Let_def finish_inv split: prod.splits option.splits sum.splits)
     (auto simp: conn_inv_def begin_keep_alive_timeout_def finish_def io_ok_def)

lemma parse_cases:
  fixes old :: connection and ev :: io_event
  defines "new \<equiv> if phase old = KeepAlive \<and> buffered_bytes (parser old) > 0
                 then begin_request_timeout (ev_now ev) old else old"
  obtains (more) "parser_next (parser old) = (need_more_data, parser old)"
      "parse_request h ev old = new\<lparr>conn_state := Reading\<rparr>"
  | (error) e k where "parser_next (parser old) = (parse_error e k, parser old)"
      "parse_request h ev old = queue_response ev
         (if k = UnsupportedTransferEncoding then not_implemented_response else bad_request_response)
         False ParseError new"
  | (ready) r p where "parser_next (parser old) = (request_ready r, p)"
      "parse_request h ev old = queue_response ev
         ((route_request (ev_fs ev) r h)\<lparr>resp_version := req_version r\<rparr>)
         (should_keep_alive r \<and> served old + 1 < limit old)
         (if served old + 1 < limit old then ConnectionClose else RequestLimit)
         (new\<lparr>parser := p, conn_result := (conn_result old)\<lparr>requests_served := served old + 1\<rparr>\<rparr>)"
proof -
  have new: "parser new = parser old" "conn_result new = conn_result old" "config new = config old"
    by (simp_all add: new_def begin_request_timeout_def)
  have same: "new\<lparr>parser := parser old\<rparr> = new" unfolding new(1) [symmetric] by simp
  note pr = parse_request_def Let_def same
  show thesis
  proof (cases rule: parser_next_cases [of "parser old"])
    case more
    show ?thesis
      by (rule that(1) [OF more]) (use more new in \<open>simp add: pr flip: new_def\<close>)
  next
    case (error e k)
    show ?thesis
      by (rule that(2) [OF error]) (use error new in \<open>simp add: pr flip: new_def\<close>)
  next
    case (ready r i n)
    show ?thesis
      by (rule that(3) [OF ready(5)]) (use ready(5) new in \<open>simp add: pr not_le flip: new_def\<close>)
  qed
qed

lemma parse_inv:
  assumes "conn_inv c" and "conn_state c = Parsing"
  shows "conn_inv (parse_request h ev c)"
proof -
  let ?c1 = "if phase c = KeepAlive \<and> buffered_bytes (parser c) > 0
             then begin_request_timeout (ev_now ev) c else c"
  have c1: "conn_inv ?c1" using assms by (simp add: conn_inv_def begin_request_timeout_def)
  show ?thesis
  proof (cases rule: parse_cases [where old = c and ev = ev and h = h])
    case more
    then show ?thesis
      using c1 http.next_more [OF more(1)] assms by (auto simp: conn_inv_def begin_request_timeout_def)
  next
    case (error e k)
    then show ?thesis using queue_closing_inv [OF c1] by simp
  next
    case (ready r p)
    have "served c + 1 \<le> limit c" using assms by (simp add: conn_inv_def inc_le)
    then show ?thesis
      using ready(2) assms http.next_request [OF ready(1)]
      by (auto simp: conn_inv_def queue_response_def begin_request_timeout_def)
  qed
qed

lemma step_inv:
  assumes "conn_inv c" and "io_ok ev c"
  shows "conn_inv (fst (conn_step h ev c))"
  using assms read_inv parse_inv write_inv by (cases "conn_state c") (simp_all add: conn_step_def)

lemma new_connection_inv: "new_connection f cfg t1 t2 = Inr c \<Longrightarrow> conn_inv c"
  by (auto simp: new_connection_def conn_inv_def Let_def parser_capacity_def buffer_capacity_def
      buffered_bytes_def default_parser_def new_parser_def empty_result_def word_gt_0 split: if_splits)

definition is_closed :: "connection \<Rightarrow> bool" where
  "is_closed c \<longleftrightarrow> conn_state c = Closed"

declare serve.simps [simp del]

lemma serve_run:
  "serve h evs c = (let (c', effs) = run (conn_step h) is_closed evs c
     in (if is_closed c' then Some (conn_result c') else None, c', effs))"
proof (induction evs arbitrary: c)
  case (Cons ev evs)
  then show ?case by (subst serve.simps) (simp split: prod.splits flip: is_closed_def)
qed (simp add: serve.simps is_closed_def)

definition io_run_ok :: "static_file_handler \<Rightarrow> io_event list \<Rightarrow> connection \<Rightarrow> bool" where
  "io_run_ok h evs c = run_ok (conn_step h) is_closed io_ok evs c"

interpretation conn: traced_system "conn_step h" is_closed io_ok "\<lambda>c effs. conn_inv c" for h
  by unfold_locales (metis step_inv fst_conv)

lemma serve_inv:
  assumes "serve h evs c = (res, c', effs)" and "io_run_ok h evs c" and "conn_inv c"
  shows "conn_inv c'"
  using assms conn.run_inv [of h evs c]
  by (auto simp: serve_run io_run_ok_def Let_def split: prod.splits)

subsection \<open>Effects and counters\<close>

definition sent :: "effect list \<Rightarrow> bytes" where
  "sent effs = concat (map (\<lambda>e. case e of Sent b \<Rightarrow> b | _ \<Rightarrow> []) effs)"

definition received :: "effect list \<Rightarrow> bytes" where
  "received effs = concat (map (\<lambda>e. case e of Received b \<Rightarrow> b | _ \<Rightarrow> []) effs)"

lemma effect_simps [simp]:
  "sent [] = []" "sent (a @ b) = sent a @ sent b" "sent [Armed opt tv] = []" "sent [Received x] = []" "sent [Sent x] = x"
  "received [] = []" "received (a @ b) = received a @ received b" "received [Armed opt tv] = []"
  "received [Received x] = x" "received [Sent x] = []"
  by (simp_all add: sent_def received_def)

lemma arm_effects:
  assumes "arm_socket_timeout opt d ev = (e, armed)"
  shows "sent armed = [] \<and> received armed = []"
  using assms by (auto simp: arm_socket_timeout_def split: option.splits)

text \<open>What a pass through the loop does, by the state that it starts in.\<close>

lemma read_cases:
  assumes "read_from_socket ev c = (c', effs)"
  obtains (data) d where "d \<noteq> []" "ev_read ev = Inr d" "sent effs = []" "received effs = d"
      "c' = (if phase c = KeepAlive then begin_request_timeout (ev_later ev) c else c)
         \<lparr>conn_result := (conn_result c)\<lparr>bytes_read := bytes_read (conn_result c) + of_nat (length d)\<rparr>,
          parser := feed (parser c) d, conn_state := Parsing\<rparr>"
  | (timeout) "sent effs = []" "received effs = []" "c' = read_timed_out ev c"
  | (failed) why where "sent effs = []" "received effs = []" "c' = finish why c"
      "why = ReadError \<or> why = PeerClosed"
  | (retry) "sent effs = []" "received effs = []" "c' = c" "ev_read ev = Inl EINTR"
proof -
  obtain e armed where a: "arm_socket_timeout SO_RCVTIMEO (read_deadline c) ev = (e, armed)"
    by (cases "arm_socket_timeout SO_RCVTIMEO (read_deadline c) ev")
  note eff = arm_effects [OF a]
  show thesis
  proof (cases e)
    case (Some err)
    then show ?thesis
      using assms a eff that(2) that(3) [of ReadError] by (auto simp: read_from_socket_def split: if_splits)
  next
    case None
    show ?thesis
    proof (cases "ev_read ev")
      case (Inl err)
      then show ?thesis
        using assms a eff None that(2,4) that(3) [of ReadError]
        by (auto simp: read_from_socket_def split: if_splits)
    next
      case (Inr d)
      show ?thesis
      proof (cases "d = []")
        case True
        then show ?thesis
          using assms a eff None Inr that(3) [of PeerClosed] by (simp add: read_from_socket_def)
      next
        case False
        show ?thesis
          by (rule that(1) [OF False Inr])
             (use assms a eff None Inr False in \<open>auto simp: read_from_socket_def Let_def begin_request_timeout_def\<close>)
      qed
    qed
  qed
qed

lemma write_cases:
  assumes "write_to_socket ev c = (c', effs)"
  obtains (partial) n where "n > 0" "ev_send ev = Inr n" "received effs = []"
      "sent effs = take n (drop (write_offset c) (pending_response c))"
      "write_offset c + n \<noteq> length (pending_response c)"
      "c' = c\<lparr>write_offset := write_offset c + n, conn_result := (conn_result c)\<lparr>bytes_written :=
               bytes_written (conn_result c) + of_nat n\<rparr>\<rparr>"
  | (complete) n d where "n > 0" "ev_send ev = Inr n" "received effs = []"
      "sent effs = take n (drop (write_offset c) (pending_response c))"
      "write_offset c + n = length (pending_response c)"
      "d = c\<lparr>conn_result := (conn_result c)\<lparr>bytes_written := bytes_written (conn_result c) + of_nat n\<rparr>,
              pending_response := [], write_offset := 0\<rparr>"
      "c' = (if close_after_write c then finish (close_reason_after_write c) d
             else (begin_keep_alive_timeout (ev_later ev) d)\<lparr>conn_state := Parsing\<rparr>)"
  | (failed) why where "sent effs = []" "received effs = []" "c' = finish why c"
      "why = WriteTimeout \<or> why = WriteError"
  | (retry) "sent effs = []" "received effs = []" "c' = c" "ev_send ev = Inl EINTR"
proof -
  obtain e armed where a: "arm_socket_timeout SO_SNDTIMEO (write_deadline c) ev = (e, armed)"
    by (cases "arm_socket_timeout SO_SNDTIMEO (write_deadline c) ev")
  note eff = arm_effects [OF a]
  show thesis
  proof (cases e)
    case (Some err)
    then show ?thesis
      using assms a eff that(3) by (auto simp: write_to_socket_def split: if_splits)
  next
    case None
    show ?thesis
    proof (cases "ev_send ev")
      case (Inl err)
      then show ?thesis
        using assms a eff None that(3,4) by (auto simp: write_to_socket_def split: if_splits)
    next
      case (Inr n)
      consider "n = 0" | "n > 0" "write_offset c + n \<noteq> length (pending_response c)"
        | "n > 0" "write_offset c + n = length (pending_response c)" by blast
      then show ?thesis
      proof cases
        case 1
        then show ?thesis
          using assms a eff None Inr that(3) [of WriteError] by (simp add: write_to_socket_def)
      next
        case 2
        show ?thesis
          by (rule that(1) [OF 2(1) Inr])
             (use assms a eff None Inr 2 in \<open>auto simp: write_to_socket_def\<close>)
      next
        case 3
        show ?thesis
          by (rule that(2) [OF 3(1) Inr])
             (use assms a eff None Inr 3 in \<open>auto simp: write_to_socket_def Let_def\<close>)
      qed
    qed
  qed
qed

definition counters_inv :: "connection \<Rightarrow> effect list \<Rightarrow> bool" where
  "counters_inv c effs \<longleftrightarrow> conn_inv c \<and>
     bytes_read (conn_result c) = of_nat (length (received effs)) \<and>
     bytes_written (conn_result c) = of_nat (length (sent effs))"

lemma read_timed_out_keeps [simp]:
  "bytes_read (conn_result (read_timed_out ev c)) = bytes_read (conn_result c)"
  "bytes_written (conn_result (read_timed_out ev c)) = bytes_written (conn_result c)"
  "served (read_timed_out ev c) = served c" "config (read_timed_out ev c) = config c"
  "parser (read_timed_out ev c) = parser c"
  by (simp_all add: conn_ops)

lemma finish_keeps [simp]:
  "bytes_read (conn_result (finish why c)) = bytes_read (conn_result c)"
  "bytes_written (conn_result (finish why c)) = bytes_written (conn_result c)"
  "served (finish why c) = served c" "config (finish why c) = config c" "parser (finish why c) = parser c"
  "conn_state (finish why c) = Closed" "reason (conn_result (finish why c)) = why"
  by (simp_all add: finish_def)

lemma queue_keeps [simp]:
  "conn_result (queue_response ev r k why c) = conn_result c"
  "config (queue_response ev r k why c) = config c" "parser (queue_response ev r k why c) = parser c"
  "conn_state (queue_response ev r k why c) = Writing" "write_offset (queue_response ev r k why c) = 0"
  "close_after_write (queue_response ev r k why c) = (\<not> k)"
  "close_reason_after_write (queue_response ev r k why c) = why"
  by (simp_all add: queue_response_def)

lemma begin_keeps [simp]:
  "conn_result (begin_request_timeout t c) = conn_result c" "config (begin_request_timeout t c) = config c"
  "parser (begin_request_timeout t c) = parser c" "conn_state (begin_request_timeout t c) = conn_state c"
  "pending_response (begin_request_timeout t c) = pending_response c"
  "conn_result (begin_keep_alive_timeout t c) = conn_result c" "config (begin_keep_alive_timeout t c) = config c"
  "parser (begin_keep_alive_timeout t c) = parser c"
  "pending_response (begin_keep_alive_timeout t c) = pending_response c"
  by (simp_all add: begin_request_timeout_def begin_keep_alive_timeout_def)

lemma counters_step:
  assumes "counters_inv c os" and "\<not> is_closed c" and "io_ok ev c" and "conn_step h ev c = (c', effs)"
  shows "counters_inv c' (os @ effs)"
proof -
  have inv: "conn_inv c'" using step_inv [of c ev h] assms by (simp add: counters_inv_def)
  show ?thesis
  proof (cases "conn_state c")
    case Reading
    then have "read_from_socket ev c = (c', effs)" using assms(4) by (simp add: conn_step_def)
    then show ?thesis
      by (cases rule: read_cases) (use assms(1) inv in \<open>auto simp: counters_inv_def\<close>)
  next
    case Parsing
    then have e: "effs = []" and c': "c' = parse_request h ev c" using assms(4) by (simp_all add: conn_step_def)
    show ?thesis
      by (cases rule: parse_cases [where old = c and ev = ev and h = h])
         (use assms(1) inv c' e in \<open>auto simp: counters_inv_def\<close>)
  next
    case Writing
    then have w: "write_to_socket ev c = (c', effs)" using assms(4) by (simp add: conn_step_def)
    have "length (take n (drop (write_offset c) (pending_response c))) = n" if "ev_send ev = Inr n" for n
      using assms(3) that by (simp add: io_ok_def min_def)
    then show ?thesis
      by (cases rule: write_cases [OF w]) (use assms(1) inv in \<open>auto simp: counters_inv_def\<close>)
  qed (use assms in \<open>simp add: is_closed_def\<close>)
qed

interpretation counted: traced_system "conn_step h" is_closed io_ok counters_inv for h
  by unfold_locales (rule counters_step)

subsection \<open>Termination\<close>

definition io_progress :: "io_event \<Rightarrow> connection \<Rightarrow> bool" where
  "io_progress ev c \<longleftrightarrow> io_ok ev c \<and> ev_read ev \<noteq> Inl EINTR \<and> ev_send ev \<noteq> Inl EINTR"

definition conn_rank :: "connection \<Rightarrow> nat \<times> nat \<times> nat" where
  "conn_rank c =
     (unat (limit c) - unat (served c),
      case conn_state c of
        Reading \<Rightarrow> (2, 2 * (buffer_capacity + 4096 - buffered_bytes (parser c)))
      | Parsing \<Rightarrow> (2, 2 * (buffer_capacity + 4096 - buffered_bytes (parser c)) + 1)
      | Writing \<Rightarrow> (if close_after_write c then 1 else 3, length (pending_response c) - write_offset c)
      | Closed \<Rightarrow> (0, 0))"

definition conn_smaller :: "(connection \<times> connection) set" where
  "conn_smaller = inv_image (less_than <*lex*> less_than <*lex*> less_than) conn_rank"

lemma wf_conn_smaller: "wf conn_smaller"
  by (simp add: conn_smaller_def wf_lex_prod)

lemma read_timed_out_smaller:
  assumes "conn_state c = Reading"
  shows "(read_timed_out ev c, c) \<in> conn_smaller"
  using assms by (auto simp: conn_smaller_def conn_rank_def read_timed_out_def)

lemma read_smaller:
  assumes "conn_inv c" and "conn_state c = Reading" and "io_progress ev c"
    and "read_from_socket ev c = (c', effs)"
  shows "(c', c) \<in> conn_smaller"
  using assms(4)
proof (cases rule: read_cases)
  case (data d)
  have "buffered_bytes (parser c) < buffer_capacity" "length d \<le> 4096" "0 < length d"
    using assms data by (simp_all add: conn_inv_def io_progress_def io_ok_def)
  then have "Suc (2 * (buffer_capacity + 4096 - (buffered_bytes (parser c) + length d)))
      < 2 * (buffer_capacity + 4096 - buffered_bytes (parser c))" by arith
  then show ?thesis
    using data(5) assms(2) by (simp add: conn_smaller_def conn_rank_def http.feed_size)
next
  case timeout
  then show ?thesis using read_timed_out_smaller [OF assms(2)] by simp
qed (use assms(2,3) in \<open>auto simp: conn_smaller_def conn_rank_def io_progress_def\<close>)

lemma write_smaller:
  assumes "conn_inv c" and "conn_state c = Writing" and "io_progress ev c"
    and "write_to_socket ev c = (c', effs)"
  shows "(c', c) \<in> conn_smaller"
  using assms(4)
proof (cases rule: write_cases)
  case (partial n)
  then show ?thesis
    using assms by (auto simp: conn_smaller_def conn_rank_def conn_inv_def)
next
  case (complete n d)
  then show ?thesis
    using assms(2) by (auto simp: conn_smaller_def conn_rank_def)
qed (use assms(2,3) in \<open>auto simp: conn_smaller_def conn_rank_def io_progress_def\<close>)

lemma parse_smaller:
  assumes "conn_inv c" and "conn_state c = Parsing"
  shows "(parse_request h ev c, c) \<in> conn_smaller"
proof (cases rule: parse_cases [where old = c and ev = ev and h = h])
  case (ready r p)
  have s: "served c < limit c" using assms by (simp add: conn_inv_def)
  then have "unat (served c + 1) = unat (served c) + 1" "unat (served c) < unat (limit c)"
    by (rule size_t_inc, simp add: word_less_nat_alt)
  moreover from this have "unat (limit c) - Suc (unat (served c)) < unat (limit c) - unat (served c)"
    by arith
  ultimately show ?thesis using ready(2) assms(2) by (simp add: conn_smaller_def conn_rank_def)
qed (use assms in \<open>auto simp: conn_smaller_def conn_rank_def\<close>)

interpretation conn_live: terminating_system "conn_step h" is_closed io_progress "\<lambda>c effs. conn_inv c" conn_smaller
  for h
proof unfold_locales
  fix c c' :: connection and ev effs and os :: "effect list"
  assume c: "conn_inv c" "\<not> is_closed c" "io_progress ev c"
  show "conn_inv c'" if "conn_step h ev c = (c', effs)"
    using step_inv [of c ev h] c that by (simp add: io_progress_def)
  show "(fst (conn_step h ev c), c) \<in> conn_smaller"
    using c read_smaller [of c ev] write_smaller [of c ev] parse_smaller [of c h ev]
    by (cases "conn_state c"; cases "read_from_socket ev c"; cases "write_to_socket ev c")
       (simp_all add: conn_step_def is_closed_def)
qed (rule wf_conn_smaller)

subsection \<open>The configuration is constant\<close>

lemma step_config: "config (fst (conn_step h ev c)) = config c"
proof (cases "conn_state c")
  case Reading
  obtain c' effs where r: "read_from_socket ev c = (c', effs)" by (cases "read_from_socket ev c")
  then show ?thesis by (cases rule: read_cases) (use Reading r in \<open>auto simp: conn_step_def\<close>)
next
  case Parsing
  then show ?thesis
    by (cases rule: parse_cases [where old = c and ev = ev and h = h]) (simp_all add: conn_step_def)
next
  case Writing
  obtain c' effs where w: "write_to_socket ev c = (c', effs)" by (cases "write_to_socket ev c")
  then show ?thesis by (cases rule: write_cases) (use Writing w in \<open>auto simp: conn_step_def\<close>)
qed (simp add: conn_step_def)

lemma serve_config: "run (conn_step h) is_closed evs c = (c', effs) \<Longrightarrow> config c' = config c"
proof (induction evs arbitrary: c effs)
  case (Cons ev evs)
  then show ?case using step_config [of h ev c] by (auto split: if_splits prod.splits)
qed simp

end
