(* ===== verification/Connection_Correctness.thy ===== *)
theory Connection_Correctness
  imports Connection_Invariants
begin

section \<open>What a connection promises\<close>

text \<open>
  The contract of \<open>Connection::serve\<close>: deadlines, the last response, and a simulation that
  relates every run, however the bytes are fragmented by \<open>read\<close> and \<open>send\<close>, to the
  specification \<open>answers\<close>, the concatenated responses to the requests in order.
\<close>

subsection \<open>Deadlines\<close>

lemma timeout_value_bounds:
  assumes "timeout_value deadline now = Some tv"
  shows "now < deadline \<and> 0 \<le> tv_sec tv \<and> 0 \<le> tv_usec tv \<and> tv_usec tv < 1000000 \<and>
    0 < tv_sec tv * 1000000 + tv_usec tv \<and>
    (tv_sec tv * 1000000 + tv_usec tv) * 1000 \<le> max 1000 (deadline - now) \<and>
    deadline - now < (tv_sec tv * 1000000 + tv_usec tv + 1) * 1000"
proof -
  define t where "t = (if (deadline - now) div 1000 \<le> 0 then 1 else (deadline - now) div 1000)"
  have pos: "0 < deadline - now" and tv: "tv = \<lparr>tv_sec = t div 1000000, tv_usec = t mod 1000000\<rparr>"
    using assms by (auto simp: timeout_value_def Let_def t_def split: if_splits)
  have "tv_sec tv * 1000000 + tv_usec tv = t" by (simp add: tv)
  moreover have "0 < t" "t * 1000 \<le> max 1000 (deadline - now)" "deadline - now < (t + 1) * 1000"
    using pos unfolding t_def by auto
  ultimately show ?thesis using pos by (auto simp: tv pos_imp_zdiv_nonneg_iff)
qed

text \<open>From a request under way: while the count of requests stays, the deadline stays.\<close>

definition deadline_inv :: "int \<Rightarrow> size_t \<Rightarrow> connection \<Rightarrow> bool" where
  "deadline_inv d s c \<longleftrightarrow> conn_inv c \<and> s \<le> served c \<and>
     (served c = s \<longrightarrow>
       (case conn_state c of
          Closed \<Rightarrow> True
        | Writing \<Rightarrow> close_after_write c
        | _ \<Rightarrow> phase c = Request \<and> read_deadline c = d))"

lemma deadline_step:
  assumes "deadline_inv d s c" and "\<not> is_closed c" and "io_ok ev c" and "conn_step h ev c = (c', effs)"
  shows "deadline_inv d s c'"
proof -
  have inv: "conn_inv c'" using step_inv [of c ev h] assms by (simp add: deadline_inv_def)
  show ?thesis
  proof (cases "conn_state c")
    case Reading
    then have "read_from_socket ev c = (c', effs)" using assms(4) by (simp add: conn_step_def)
    then show ?thesis
      by (cases rule: read_cases)
         (use assms(1) inv Reading in \<open>auto simp: deadline_inv_def read_timed_out_def\<close>)
  next
    case Parsing
    then have c': "c' = parse_request h ev c" using assms(4) by (simp add: conn_step_def)
    show ?thesis
    proof (cases rule: parse_cases [where old = c and ev = ev and h = h])
      case (ready r p)
      have lt: "served c < limit c" using assms(1) Parsing by (simp add: deadline_inv_def conn_inv_def)
      have "served c < served c + 1" using size_t_inc [OF lt] by (simp add: word_less_nat_alt)
      then show ?thesis using assms(1) inv Parsing ready(2) c' by (auto simp: deadline_inv_def)
    qed (use assms(1) inv Parsing c' in \<open>auto simp: deadline_inv_def\<close>)
  next
    case Writing
    then have "write_to_socket ev c = (c', effs)" using assms(4) by (simp add: conn_step_def)
    then show ?thesis
      by (cases rule: write_cases) (use assms(1) inv Writing in \<open>auto simp: deadline_inv_def\<close>)
  qed (use assms in \<open>simp add: is_closed_def\<close>)
qed

interpretation deadline: traced_system "conn_step h" is_closed io_ok "\<lambda>c effs. deadline_inv d s c" for h d s
  by unfold_locales (rule deadline_step)

subsection \<open>The last response\<close>

definition closing_inv :: "bytes \<Rightarrow> connection_end_reason \<Rightarrow> connection \<Rightarrow> effect list \<Rightarrow> bool" where
  "closing_inv out why c effs \<longleftrightarrow> received effs = [] \<and> conn_inv c \<and>
     (conn_state c = Writing \<and> close_after_write c \<and> close_reason_after_write c = why \<and>
        sent effs @ drop (write_offset c) (pending_response c) = out \<or>
      conn_state c = Closed \<and>
        (reason (conn_result c) = why \<and> sent effs = out \<or>
         reason (conn_result c) \<in> {WriteTimeout, WriteError} \<and> prefix (sent effs) out))"

lemma take_drop_split: "take n (drop i xs) @ drop (i + n) xs = drop i xs"
  by (metis append_take_drop_id add.commute drop_drop)

lemma closing_step:
  assumes "closing_inv out why c os" and "\<not> is_closed c" and "io_ok ev c" and "conn_step h ev c = (c', effs)"
  shows "closing_inv out why c' (os @ effs)"
proof -
  have inv: "conn_inv c'" using step_inv [of c ev h] assms by (simp add: closing_inv_def)
  have w: "conn_state c = Writing" "close_after_write c" "close_reason_after_write c = why" "received os = []"
      and out: "sent os @ drop (write_offset c) (pending_response c) = out"
    using assms(1,2) by (auto simp: closing_inv_def is_closed_def)
  have "write_to_socket ev c = (c', effs)" using assms(4) w by (simp add: conn_step_def)
  then show ?thesis
  proof (cases rule: write_cases)
    case (partial n)
    then show ?thesis using w out inv take_drop_split [of n "write_offset c" "pending_response c"]
      by (simp add: closing_inv_def)
  next
    case (complete n d)
    then have "sent os @ sent effs = out"
      using out take_drop_split [of n "write_offset c" "pending_response c"] by simp
    then show ?thesis using complete w inv by (simp add: closing_inv_def)
  next
    case (failed r)
    then show ?thesis using w out inv by (auto simp: closing_inv_def)
  next
    case retry
    then show ?thesis using w out inv by (simp add: closing_inv_def)
  qed
qed

interpretation closing: traced_system "conn_step h" is_closed io_ok "closing_inv out why" for h out why
  by unfold_locales (rule closing_step)

subsection \<open>The answers owed to a sequence of requests\<close>

text \<open>
  The specification of a connection: what a server that reads whole requests and writes whole
  responses sends for the requests \<open>rs\<close> when \<open>i\<close> requests were answered before. The sequence
  ends with the first request after which the connection is not kept alive.
\<close>

definition keeps :: "size_t \<Rightarrow> nat \<Rightarrow> http_request \<Rightarrow> bool" where
  "keeps m i r \<longleftrightarrow> should_keep_alive r \<and> i + 1 < unat m"

definition with_connection :: "bool \<Rightarrow> http_response \<Rightarrow> http_response" where
  "with_connection keep r =
     r\<lparr>resp_headers := set_header ''Connection'' (if keep then ''keep-alive'' else ''close'') (resp_headers r)\<rparr>"

definition answer ::
  "fs_env \<Rightarrow> (header_table \<Rightarrow> header_table) \<Rightarrow> static_file_handler \<Rightarrow> bool \<Rightarrow> http_request \<Rightarrow> bytes" where
  "answer env order h keep r = serialize_response order
     (with_connection keep ((route_request env r h)\<lparr>resp_version := req_version r\<rparr>))"

fun answers :: "fs_env \<Rightarrow> (header_table \<Rightarrow> header_table) \<Rightarrow> static_file_handler \<Rightarrow> size_t \<Rightarrow>
    nat \<Rightarrow> http_request list \<Rightarrow> bytes" where
  "answers env order h m i [] = []"
| "answers env order h m i (r # rs) =
     answer env order h (keeps m i r) r @
     (if keeps m i r then answers env order h m (Suc i) rs else [])"

fun all_keep :: "size_t \<Rightarrow> nat \<Rightarrow> http_request list \<Rightarrow> bool" where
  "all_keep m i [] = True"
| "all_keep m i (r # rs) = (keeps m i r \<and> all_keep m (Suc i) rs)"

definition timeout_answer :: "(header_table \<Rightarrow> header_table) \<Rightarrow> bytes" where
  "timeout_answer order = serialize_response order (with_connection False request_timeout_response)"

lemma answers_append:
  "answers env order h m i (rs @ ss) = answers env order h m i rs @
     (if all_keep m i rs then answers env order h m (i + length rs) ss else [])"
  by (induction rs arbitrary: i) auto

lemma all_keep_append: "all_keep m i (rs @ ss) \<longleftrightarrow> all_keep m i rs \<and> all_keep m (i + length rs) ss"
  by (induction rs arbitrary: i) auto

subsection \<open>The simulation\<close>

definition wf_client :: "http_request list \<Rightarrow> bool" where
  "wf_client rs \<longleftrightarrow> list_all (\<lambda>r. wf_request 1048576 r \<and> length (print_head r) + 3 \<le> 16384) rs"

definition stream :: "http_request list \<Rightarrow> bytes" where
  "stream rs = concat (map print_request rs)"

lemma stream_simps [simp]: "stream [] = []" "stream (r # rs) = print_request r @ stream rs"
    "stream (rs @ ss) = stream rs @ stream ss"
  by (simp_all add: stream_def)

text \<open>The parser on a prefix of a stream of well-formed requests.\<close>

lemma parse_stream:
  assumes "wf_client rs" and "prefix (buffer p) (stream rs)"
    and "max_header_bytes p = 16384" and "max_body_bytes p = 1048576"
  obtains (more) "parser_next p = (need_more_data, p)"
      "rs = [] \<or> strict_prefix (buffer p) (print_request (hd rs))"
  | (ready) r ss rest where "rs = r # ss" "buffer p = print_request r @ rest" "prefix rest (stream ss)"
      "parser_next p = (request_ready r, p\<lparr>buffer := rest\<rparr>)"
proof (cases rs)
  case Nil
  then have "buffer p = []" using assms(2) by simp
  then have "parser_next p = (need_more_data, p)" by (simp add: parser_next_def)
  then show ?thesis using Nil that(1) by blast
next
  case (Cons r ss)
  have wf: "wf_request (max_body_bytes p) r" "length (print_head r) + 3 \<le> unat (max_header_bytes p)"
    using assms Cons by (simp_all add: wf_client_def)
  have "prefix (buffer p) (print_request r @ stream ss)" using assms(2) Cons by simp
  then consider "strict_prefix (buffer p) (print_request r)"
    | rest where "buffer p = print_request r @ rest" "prefix rest (stream ss)"
    by (metis append_Nil2 prefix_append prefix_order.less_le prefix_bot.bot_least)
  then show ?thesis
  proof cases
    case 1
    then show ?thesis using that(1) next_partial_more [OF wf 1] Cons by simp
  next
    case 2
    then show ?thesis using that(2) parse_print_request [OF wf(1) _ 2(1)] wf(2) Cons by simp
  qed
qed

lemma queue_pending [simp]:
  "pending_response (queue_response ev r keep why c) = serialize_response (ev_order ev) (with_connection keep r)"
  by (simp add: queue_response_def with_connection_def)

definition awaits :: "http_request list \<Rightarrow> connection \<Rightarrow> bool" where
  "awaits ts c \<longleftrightarrow> ts = [] \<or> strict_prefix (buffer (parser c)) (print_request (hd ts))"

text \<open>
  The relation between the connection, the bytes sent and the bytes \<open>out\<close> owed for the
  requests parsed, \<open>kept\<close> saying whether the last of them keeps the connection, \<open>late\<close> being the
  408 answer.
\<close>

definition wire_state ::
  "bytes \<Rightarrow> bytes \<Rightarrow> bool \<Rightarrow> http_request list \<Rightarrow> connection \<Rightarrow> bytes \<Rightarrow> bool" where
  "wire_state out late kept ts c s =
     (case conn_state c of
        Reading \<Rightarrow> kept \<and> s = out \<and> awaits ts c
      | Parsing \<Rightarrow> kept \<and> s = out
      | Writing \<Rightarrow>
          (let all = s @ drop (write_offset c) (pending_response c)
           in if \<not> close_after_write c then kept \<and> all = out
              else if close_reason_after_write c = ReadTimeout then kept \<and> all = out @ late
              else close_reason_after_write c \<in> {ConnectionClose, RequestLimit} \<and> \<not> kept \<and> all = out)
      | Closed \<Rightarrow>
          (case reason (conn_result c) of
             ConnectionClose \<Rightarrow> \<not> kept \<and> s = out
           | RequestLimit \<Rightarrow> \<not> kept \<and> s = out
           | PeerClosed \<Rightarrow> kept \<and> s = out \<and> awaits ts c
           | KeepAliveTimeout \<Rightarrow> s = out
           | ReadError \<Rightarrow> s = out
           | ReadTimeout \<Rightarrow> s = out @ late
           | ParseError \<Rightarrow> False
           | _ \<Rightarrow> prefix s (out @ late)))"

definition wire_inv ::
  "fs_env \<Rightarrow> (header_table \<Rightarrow> header_table) \<Rightarrow> static_file_handler \<Rightarrow> size_t \<Rightarrow> http_request list \<Rightarrow>
   connection \<Rightarrow> effect list \<Rightarrow> bool" where
  "wire_inv env order h m rs c effs \<longleftrightarrow>
     conn_inv c \<and> limit c = m \<and> max_header_bytes (parser c) = 16384 \<and> max_body_bytes (parser c) = 1048576 \<and>
     (prefix (received effs) (stream rs) \<longrightarrow>
       (\<exists>ss ts. rs = ss @ ts \<and> unat (served c) = length ss \<and>
          received effs = stream ss @ buffer (parser c) \<and>
          wire_state (answers env order h m 0 ss) (timeout_answer order) (all_keep m 0 ss) ts c (sent effs)))"

definition wire_ok :: "fs_env \<Rightarrow> (header_table \<Rightarrow> header_table) \<Rightarrow> io_event \<Rightarrow> connection \<Rightarrow> bool" where
  "wire_ok env order ev c \<longleftrightarrow> io_ok ev c \<and> ev_fs ev = env \<and> ev_order ev = order"

lemma wire_read:
  assumes "wire_state out late kept ts c s" and "conn_state c = Reading" and "ev_order ev = order"
    and "late = timeout_answer order" and "read_from_socket ev c = (c', effs)"
  shows "wire_state out late kept ts c' (s @ sent effs)"
  using assms(5)
  by (cases rule: read_cases)
     (use assms(1-4) in \<open>auto simp: wire_state_def read_timed_out_def timeout_answer_def awaits_def\<close>)

lemma wire_write:
  assumes "wire_state out late kept ts c s" and "conn_state c = Writing"
    and "write_to_socket ev c = (c', effs)"
  shows "wire_state out late kept ts c' (s @ sent effs)"
  using assms(3)
proof (cases rule: write_cases)
  case (partial n)
  then show ?thesis
    using assms(1,2) take_drop_split [of n "write_offset c" "pending_response c"]
    by (simp add: wire_state_def Let_def split: if_splits)
next
  case (complete n d)
  then show ?thesis
    using assms(1,2) by (auto simp: wire_state_def Let_def split: if_splits)
next
  case (failed why)
  have "prefix s (out @ late)" if "s @ x = out @ late" for x using that by (metis prefixI)
  then show ?thesis
    using failed assms(1,2) by (auto simp: wire_state_def Let_def split: if_splits)
next
  case retry
  then show ?thesis using assms(1,2) by simp
qed

lemma wire_parse:
  assumes "wire_state (answers env order h m 0 ss) late (all_keep m 0 ss) ts c s"
    and "conn_state c = Parsing" and "conn_inv c" and "limit c = m" and "unat (served c) = length ss"
    and "wf_client ts" and "prefix (buffer (parser c)) (stream ts)"
    and "max_header_bytes (parser c) = 16384" and "max_body_bytes (parser c) = 1048576"
    and "ev_fs ev = env" and "ev_order ev = order" and "c' = parse_request h ev c"
  shows "\<exists>us vs. ts = us @ vs \<and> unat (served c') = length (ss @ us) \<and>
    buffer (parser c) = stream us @ buffer (parser c') \<and>
    max_header_bytes (parser c') = 16384 \<and> max_body_bytes (parser c') = 1048576 \<and>
    wire_state (answers env order h m 0 (ss @ us)) late (all_keep m 0 (ss @ us)) vs c' s"
  using assms(6-9)
proof (cases rule: parse_stream)
  case more
  then have "c' = (if phase c = KeepAlive \<and> buffered_bytes (parser c) > 0
      then begin_request_timeout (ev_now ev) c else c)\<lparr>conn_state := Reading\<rparr>"
    using assms(12) by (cases rule: parse_cases [where old = c and ev = ev and h = h]) auto
  then show ?thesis
    using more(2) assms(1,2,5,8,9)
    by (intro exI [of _ "[]"] exI [of _ ts]) (auto simp: wire_state_def awaits_def)
next
  case (ready r vs rest)
  have lt: "served c < limit c" using assms(2,3) by (simp add: conn_inv_def)
  have k: "(should_keep_alive r \<and> served c + 1 < limit c) = keeps m (length ss) r"
    using size_t_inc [OF lt] assms(4,5) by (simp add: keeps_def word_less_nat_alt)
  have "c' = queue_response ev ((route_request (ev_fs ev) r h)\<lparr>resp_version := req_version r\<rparr>)
         (keeps m (length ss) r) (if served c + 1 < limit c then ConnectionClose else RequestLimit)
         ((if phase c = KeepAlive \<and> buffered_bytes (parser c) > 0
           then begin_request_timeout (ev_now ev) c else c)
          \<lparr>parser := (parser c)\<lparr>buffer := rest\<rparr>,
           conn_result := (conn_result c)\<lparr>requests_served := served c + 1\<rparr>\<rparr>)"
    using assms(12) ready(4) k by (cases rule: parse_cases [where old = c and ev = ev and h = h]) auto
  then show ?thesis
    using ready(1-3) assms(1,2,5,8-11) size_t_inc [OF lt]
    by (intro exI [of _ "[r]"] exI [of _ vs])
       (auto simp: wire_state_def answers_append all_keep_append answer_def)
qed

lemma next_limits:
  "parser_next p = (res, p') \<Longrightarrow>
     max_header_bytes p' = max_header_bytes p \<and> max_body_bytes p' = max_body_bytes p"
  by (cases rule: parser_next_cases [of p]) auto

lemma wire_step:
  assumes "wire_inv env order h m rs c os" and "wf_client rs" and "\<not> is_closed c"
    and "wire_ok env order ev c" and "conn_step h ev c = (c', effs)"
  shows "wire_inv env order h m rs c' (os @ effs)"
proof -
  have inv: "conn_inv c" "conn_inv c'" and ev: "io_ok ev c" "ev_fs ev = env" "ev_order ev = order"
    using step_inv [of c ev h] assms by (auto simp: wire_inv_def wire_ok_def)
  have keeps: "limit c = m" "max_header_bytes (parser c) = 16384" "max_body_bytes (parser c) = 1048576"
    using assms(1) by (simp_all add: wire_inv_def)
  have ex: "\<exists>ss ts. rs = ss @ ts \<and> unat (served c) = length ss \<and>
      received os = stream ss @ buffer (parser c) \<and>
      wire_state (answers env order h m 0 ss) (timeout_answer order) (all_keep m 0 ss) ts c (sent os)"
    if "prefix (received (os @ effs)) (stream rs)"
    using assms(1) append_prefixD [of "received os" "received effs"] that by (simp add: wire_inv_def)
  show ?thesis
  proof (cases "conn_state c")
    case Reading
    then have r: "read_from_socket ev c = (c', effs)" using assms(5) by (simp add: conn_step_def)
    have "limit c' = m" "served c' = served c" "max_header_bytes (parser c') = 16384"
        "max_body_bytes (parser c') = 1048576" "buffer (parser c') = buffer (parser c) @ received effs"
      by (cases rule: read_cases [OF r]; use keeps in \<open>simp add: feed_def\<close>)+
    then show ?thesis
      using ex inv wire_read [OF _ Reading ev(3) refl r] by (fastforce simp: wire_inv_def)
  next
    case Parsing
    then have c': "c' = parse_request h ev c" and e: "effs = []"
      using assms(5) by (simp_all add: conn_step_def)
    have m: "limit c' = m"
      by (cases rule: parse_cases [where old = c and ev = ev and h = h]) (use keeps c' in simp_all)
    have lim: "max_header_bytes (parser c') = 16384" "max_body_bytes (parser c') = 1048576"
    proof -
      have "parser c' = snd (parser_next (parser c))"
        by (cases rule: parse_cases [where old = c and ev = ev and h = h]) (use c' in simp_all)
      then show "max_header_bytes (parser c') = 16384" "max_body_bytes (parser c') = 1048576"
        using next_limits [OF prod.collapse [symmetric], of "parser c"] keeps by simp_all
    qed
    have "\<exists>ss ts. rs = ss @ ts \<and> unat (served c') = length ss \<and>
        received os = stream ss @ buffer (parser c') \<and>
        wire_state (answers env order h m 0 ss) (timeout_answer order) (all_keep m 0 ss) ts c' (sent os)"
      if pre: "prefix (received os) (stream rs)"
    proof -
      obtain ss ts where st: "rs = ss @ ts" "unat (served c) = length ss"
          "received os = stream ss @ buffer (parser c)"
          "wire_state (answers env order h m 0 ss) (timeout_answer order) (all_keep m 0 ss) ts c (sent os)"
        using ex pre e by auto
      have "wf_client ts" "prefix (buffer (parser c)) (stream ts)"
        using assms(2) pre st by (simp_all add: wf_client_def)
      from wire_parse [OF st(4) Parsing inv(1) keeps(1) st(2) this keeps(2,3) ev(2,3) c'] st
      show ?thesis by (metis append.assoc stream_simps(3))
    qed
    then show ?thesis using inv m lim e by (simp add: wire_inv_def)
  next
    case Writing
    then have w: "write_to_socket ev c = (c', effs)" using assms(5) by (simp add: conn_step_def)
    have "limit c' = m" "served c' = served c" "parser c' = parser c" "received effs = []"
      by (cases rule: write_cases [OF w]; use keeps in simp)+
    then show ?thesis
      using ex inv keeps wire_write [OF _ Writing w] by (fastforce simp: wire_inv_def)
  qed (use assms(3) in \<open>simp add: is_closed_def\<close>)
qed

lemma new_connection_wire:
  assumes "new_connection f cfg t1 t2 = Inr c"
  shows "wire_inv env order h (max_requests (limits cfg)) rs c []"
proof -
  have c: "conn_inv c" "buffer (parser c) = []" "served c = 0" "limit c = max_requests (limits cfg)"
      "max_header_bytes (parser c) = 16384" "max_body_bytes (parser c) = 1048576"
      "conn_state c = Reading \<or> conn_state c = Closed \<and> reason (conn_result c) = ReadError"
    using new_connection_inv [OF assms] assms
    by (auto simp: new_connection_def Let_def default_parser_def new_parser_def empty_result_def split: if_splits)
  then have "wire_state [] (timeout_answer order) True rs c []"
    by (auto simp: wire_state_def awaits_def print_request_def strict_prefix_def)
  then have "rs = [] @ rs \<and> unat (served c) = length ([] :: http_request list) \<and>
      received [] = stream [] @ buffer (parser c) \<and>
      wire_state (answers env order h m 0 []) (timeout_answer order) (all_keep m 0 []) rs c (sent [])" for m
    using c by simp
  then have ex: "\<exists>ss ts. rs = ss @ ts \<and> unat (served c) = length ss \<and>
      received [] = stream ss @ buffer (parser c) \<and>
      wire_state (answers env order h m 0 ss) (timeout_answer order) (all_keep m 0 ss) ts c (sent [])" for m
    by (intro exI)
  show ?thesis unfolding wire_inv_def by (intro conjI impI c ex)
qed

interpretation wire: traced_system "conn_step h" is_closed "\<lambda>ev c. wf_client rs \<and> wire_ok env order ev c"
    "wire_inv env order h m rs" for h rs env order m
  by unfold_locales (use wire_step in blast)

lemma wire_state_prefix: "wire_state out late kept ts c s \<Longrightarrow> prefix s (out @ late)"
  by (auto simp: wire_state_def Let_def split: state.splits connection_end_reason.splits if_splits)
     (metis append.assoc prefixI)+

lemma wire_serve:
  assumes "new_connection f cfg t1 t2 = Inr c" and "wf_client rs"
    and "run_ok (conn_step h) is_closed (wire_ok env order) evs c"
    and "serve h evs c = (res, c', effs)" and "prefix (received effs) (stream rs)"
  obtains ss ts where "rs = ss @ ts" "unat (served c') = length ss"
    "received effs = stream ss @ buffer (parser c')"
    "wire_state (answers env order h (max_requests (limits cfg)) 0 ss) (timeout_answer order)
       (all_keep (max_requests (limits cfg)) 0 ss) ts c' (sent effs)"
    "res = (if is_closed c' then Some (conn_result c') else None)"
proof -
  have r: "run (conn_step h) is_closed evs c = (c', effs)"
      "res = (if is_closed c' then Some (conn_result c') else None)"
    using assms(4) by (auto simp: serve_run Let_def split: prod.splits)
  have "run_ok (conn_step h) is_closed (\<lambda>ev c. wf_client rs \<and> wire_ok env order ev c) evs c"
    by (rule run_ok_mono [OF _ assms(3)]) (simp add: assms(2))
  from wire.run_inv [OF r(1) this new_connection_wire [OF assms(1)]]
  show thesis using that r(2) assms(5) by (auto simp: wire_inv_def)
qed

subsection \<open>A sample run\<close>

definition sample_conn :: connection where
  "sample_conn =
     \<lparr>fd = 5, parser = default_parser, conn_state = Reading, pending_response = [], write_offset = 0,
      close_after_write = False, close_reason_after_write = ConnectionClose, config = default_config,
      phase = Request, read_deadline = 10000000000, write_deadline = 0, conn_result = empty_result\<rparr>"

abbreviation site_env :: fs_env where "site_env \<equiv> posix_env plain_tree"

definition quiet :: io_event where
  "quiet = \<lparr>ev_now = 1, ev_later = 1, ev_setsockopt = None, ev_read = Inr [], ev_send = Inr 0,
     ev_fs = site_env, ev_order = id\<rparr>"

definition reads :: "bytes \<Rightarrow> io_event" where
  "reads d = quiet\<lparr>ev_read := Inr d\<rparr>"

definition sends :: "nat \<Rightarrow> io_event" where
  "sends n = quiet\<lparr>ev_send := Inr n\<rparr>"

definition sample_answer :: bytes where
  "sample_answer = answer site_env id site_handler True sample_get"

definition sample_events :: "io_event list" where
  "sample_events =
     [reads (print_request sample_get), quiet, sends (length sample_answer), quiet, quiet]"

lemmas config_eval = default_config_def default_timeouts_def default_limits_def empty_result_def
  milliseconds_def

lemma sample_new: "new_connection 5 default_config 0 0 = Inr sample_conn"
  by (simp add: new_connection_def sample_conn_def config_eval)

lemma sample_keeps: "should_keep_alive sample_get"
  by (simp add: should_keep_alive_def has_connection_token_def sample_get_def header_map_def field_values_def)

lemmas io_eval = conn_step_def read_from_socket_def write_to_socket_def arm_socket_timeout_def
  timeout_value_def reads_def sends_def quiet_def config_eval

definition after_read :: connection where
  "after_read = sample_conn
     \<lparr>conn_result := empty_result\<lparr>bytes_read := of_nat (length (print_request sample_get))\<rparr>,
      parser := default_parser\<lparr>buffer := print_request sample_get\<rparr>, conn_state := Parsing\<rparr>"

definition after_parse :: connection where
  "after_parse = after_read
     \<lparr>conn_result := (conn_result after_read)\<lparr>requests_served := 1\<rparr>, parser := default_parser,
      pending_response := sample_answer, write_deadline := 10000000001, conn_state := Writing\<rparr>"

definition after_send :: connection where
  "after_send = after_parse
     \<lparr>conn_result := (conn_result after_parse)\<lparr>bytes_written := of_nat (length sample_answer)\<rparr>,
      pending_response := [], phase := KeepAlive, read_deadline := 5000000001, conn_state := Parsing\<rparr>"

lemma sample_step_read:
  "conn_step h (reads (print_request sample_get)) sample_conn =
     (after_read, [Armed SO_RCVTIMEO \<lparr>tv_sec = 9, tv_usec = 999999\<rparr>, Received (print_request sample_get)])"
  by (simp add: io_eval sample_conn_def feed_def default_parser_def new_parser_def print_request_def after_read_def)

lemma sample_step_parse: "conn_step site_handler quiet after_read = (after_parse, [])"
proof -
  have "parser_next (parser after_read) = (request_ready sample_get, default_parser)"
    using sample_get_next [of "[]"] by (simp add: after_read_def default_parser_def new_parser_def)
  then show ?thesis
    using sample_keeps
    by (simp add: conn_step_def parse_request_def after_read_def after_parse_def sample_conn_def quiet_def
        config_eval queue_response_def sample_answer_def answer_def with_connection_def Let_def word_le_nat_alt)
qed

lemma sample_answer_pos: "0 < length sample_answer"
  by (simp add: sample_answer_def answer_def)

lemma sample_step_send:
  "conn_step h (sends (length sample_answer)) after_parse =
     (after_send, [Armed SO_SNDTIMEO \<lparr>tv_sec = 10, tv_usec = 0\<rparr>, Sent sample_answer])"
  using sample_answer_pos
  by (simp add: io_eval after_parse_def after_send_def after_read_def sample_conn_def begin_keep_alive_timeout_def)

lemma sample_step_idle:
  "conn_step h quiet after_send = (after_send\<lparr>conn_state := Reading\<rparr>, [])"
  "conn_step h quiet (after_send\<lparr>conn_state := Reading\<rparr>) =
     (finish PeerClosed after_send, [Armed SO_RCVTIMEO \<lparr>tv_sec = 5, tv_usec = 0\<rparr>])"
  by (simp_all add: io_eval after_parse_def after_send_def after_read_def sample_conn_def parse_request_def
      parser_next_def default_parser_def new_parser_def buffered_bytes_def need_more_data_def finish_def)

lemmas sample_steps = sample_step_read sample_step_parse sample_step_send sample_step_idle

lemma sample_states [simp]:
  "conn_state sample_conn = Reading" "conn_state after_read = Parsing" "conn_state after_parse = Writing"
  "conn_state after_send = Parsing" "pending_response after_parse = sample_answer" "write_offset after_parse = 0"
  by (simp_all add: sample_conn_def after_read_def after_parse_def after_send_def)

lemma sample_request_length: "length (print_request sample_get) = 28"
  using sample_get_len by (simp add: print_request_def) (simp add: sample_get_def)

lemma sample_event_ok [simp]:
  "wire_ok site_env id quiet c" "length d \<le> 4096 \<Longrightarrow> wire_ok site_env id (reads d) c"
  "n \<le> length (pending_response c) - write_offset c \<Longrightarrow> wire_ok site_env id (sends n) c"
  by (simp_all add: wire_ok_def io_ok_def quiet_def reads_def sends_def)

lemma sample_events_ok:
  "run_ok (conn_step site_handler) is_closed (wire_ok site_env id) sample_events sample_conn"
  by (simp add: sample_events_def sample_steps sample_request_length)

lemma sample_client: "wf_client [sample_get]"
  by (simp add: wf_client_def sample_get_wf sample_get_len)

lemma sample_serve:
  obtains effs where
    "serve site_handler sample_events sample_conn =
       (Some (conn_result (finish PeerClosed after_send)), finish PeerClosed after_send, effs)"
    "sent effs = sample_answer" "received effs = print_request sample_get"
  by (simp add: serve_run sample_events_def is_closed_def sample_steps sent_def received_def)

subsection \<open>Properties\<close>

text \<open>
  C2. Answers in order, under any fragmentation. A client that sends well-formed requests
  (header blocks at least three bytes below the limit) gets, at every moment of the run and
  whatever pieces \<open>read\<close> and \<open>send\<close> cut, a prefix of the responses to the requests parsed so
  far, in order, each complete before the next begins, followed at most by the 408 answer.
  It is never told that a request is malformed.
\<close>

theorem connection_answers_in_order:
  assumes "new_connection f cfg t1 t2 = Inr c" and "wf_client rs"
    and "run_ok (conn_step h) is_closed (wire_ok env order) evs c"
    and "serve h evs c = (res, c', effs)" and "prefix (received effs) (stream rs)"
  shows "unat (requests_served (conn_result c')) \<le> length rs \<and>
    prefix (sent effs)
      (answers env order h (max_requests (limits cfg)) 0 (take (unat (requests_served (conn_result c'))) rs)
       @ timeout_answer order) \<and>
    (case res of None \<Rightarrow> True | Some result \<Rightarrow> reason result \<noteq> ParseError)"
  using assms
proof (cases rule: wire_serve)
  case (1 ss ts)
  have "reason (conn_result c') \<noteq> ParseError" if "is_closed c'"
    using 1(4) that by (auto simp: wire_state_def is_closed_def)
  then show ?thesis using 1(1,2,5) wire_state_prefix [OF 1(4)] by simp
qed

text \<open>
  C5. Complete answers. When such a run ends because a request or the request limit asks for
  the connection to be closed, or because the peer closed it after sending all its requests,
  every byte of the responses to all requests up to the closing one has been sent, and
  nothing else.
\<close>

theorem connection_answers_complete:
  assumes "new_connection f cfg t1 t2 = Inr c" and "wf_client rs"
    and "run_ok (conn_step h) is_closed (wire_ok env order) evs c"
    and "serve h evs c = (Some result, c', effs)" and "prefix (received effs) (stream rs)"
    and "reason result \<in> {ConnectionClose, RequestLimit} \<or>
         reason result = PeerClosed \<and> received effs = stream rs"
  shows "sent effs = answers env order h (max_requests (limits cfg)) 0 rs"
  using assms(1-5)
proof (cases rule: wire_serve)
  case (1 ss ts)
  let ?m = "max_requests (limits cfg)"
  have closed: "conn_state c' = Closed" "result = conn_result c'"
    using 1(5) by (auto simp: is_closed_def split: if_splits)
  show ?thesis
  proof (cases "reason result = PeerClosed")
    case True
    then have all: "received effs = stream rs" and w: "awaits ts c'" "sent effs = answers env order h ?m 0 ss"
      using assms(6) 1(4) closed by (auto simp: wire_state_def)
    have "buffer (parser c') = stream ts" using 1(1,3) all by simp
    then have "ts = []" using w(1) by (cases ts) (auto simp: awaits_def strict_prefix_def)
    then show ?thesis using w(2) 1(1) by simp
  next
    case False
    then have "\<not> all_keep ?m 0 ss" "sent effs = answers env order h ?m 0 ss"
      using assms(6) 1(4) closed by (auto simp: wire_state_def)
    then show ?thesis using 1(1) by (simp add: answers_append)
  qed
qed



theorem connection_answers_in_order_witness:
  "\<exists>c' effs res. serve site_handler sample_events sample_conn = (res, c', effs) \<and>
     received effs = print_request sample_get \<and>
     prefix (sent effs)
       (answers site_env id site_handler 100 0 (take (unat (requests_served (conn_result c'))) [sample_get])
        @ timeout_answer id)"
proof -
  obtain effs where e: "serve site_handler sample_events sample_conn =
       (Some (conn_result (finish PeerClosed after_send)), finish PeerClosed after_send, effs)"
    "received effs = print_request sample_get" by (rule sample_serve)
  show ?thesis
    using connection_answers_in_order [OF sample_new sample_client sample_events_ok e(1)] e
    by (auto simp: config_eval)
qed

theorem connection_answers_complete_witness:
  "\<exists>c' effs result. serve site_handler sample_events sample_conn = (Some result, c', effs) \<and>
     reason result = PeerClosed \<and> sent effs \<noteq> [] \<and>
     sent effs = answers site_env id site_handler 100 0 [sample_get]"
proof -
  obtain effs where e: "serve site_handler sample_events sample_conn =
       (Some (conn_result (finish PeerClosed after_send)), finish PeerClosed after_send, effs)"
    "sent effs = sample_answer" "received effs = print_request sample_get" by (rule sample_serve)
  show ?thesis
    using connection_answers_complete [OF sample_new sample_client sample_events_ok e(1)] e sample_answer_pos
    by (auto simp: config_eval)
qed


text \<open>
  C14. Termination. On every infinite sequence of events in which no system call is
  interrupted by a signal, \<open>serve\<close> returns after finitely many passes, however slowly the peer
  sends or reads.
\<close>

theorem serve_terminates:
  assumes "new_connection f cfg t1 t2 = Inr c"
    and "\<forall>n. run_ok (conn_step h) is_closed io_progress (map evs [0..<n]) c"
  shows "\<exists>n result. fst (serve h (map evs [0..<n]) c) = Some result"
proof -
  obtain n where "is_closed (fst (run (conn_step h) is_closed (map evs [0..<n]) c))"
    using conn_live.run_reaches_final [of c h evs] new_connection_inv [OF assms(1)] assms(2) by blast
  then show ?thesis by (intro exI [of _ n]) (auto simp: serve_run split: prod.splits)
qed

theorem serve_terminates_witness:
  "\<exists>n result. fst (serve site_handler (map (\<lambda>i. quiet) [0..<n]) sample_conn) = Some result"
proof (rule serve_terminates [OF sample_new], rule allI)
  have "conn_step site_handler quiet sample_conn =
      (finish PeerClosed sample_conn, [Armed SO_RCVTIMEO \<lparr>tv_sec = 9, tv_usec = 999999\<rparr>])"
    by (simp add: io_eval sample_conn_def)
  moreover have "run_ok (conn_step site_handler) is_closed io_progress es (finish PeerClosed sample_conn)" for es
    by (cases es) (simp_all add: is_closed_def)
  ultimately show "run_ok (conn_step site_handler) is_closed io_progress (map (\<lambda>i. quiet) [0..<n]) sample_conn" for n
    by (cases n) (simp_all add: io_progress_def io_ok_def quiet_def upt_conv_Cons del: upt_Suc)
qed

text \<open>
  C15. Bounded memory and requests. At every moment of every run the parser buffers less than
  its header and body limits plus one read of 4096 bytes, no more requests are answered than
  configured, a response that is being written has bytes left, and a connection that is to be
  kept alive may still answer a request.
\<close>

theorem connection_bounded:
  assumes "new_connection f cfg t1 t2 = Inr c" and "run_ok (conn_step h) is_closed io_ok evs c"
    and "serve h evs c = (res, c', effs)"
  shows "length (buffer (parser c')) < 16384 + 4 + 1048576 + 4096 \<and>
    requests_served (conn_result c') \<le> max_requests (limits (config c')) \<and>
    (conn_state c' = Writing \<longrightarrow> write_offset c' < length (pending_response c') \<and>
       (close_after_write c' \<or> requests_served (conn_result c') < max_requests (limits (config c'))))"
proof -
  have "conn_inv c'"
    using serve_inv [OF assms(3) _ new_connection_inv [OF assms(1)]] assms(2) by (simp add: io_run_ok_def)
  then show ?thesis by (auto simp: conn_inv_def buffer_capacity_def buffered_bytes_def)
qed

lemma wire_run_io: "run_ok step fin (wire_ok env order) evs c \<Longrightarrow> run_ok step fin io_ok evs c"
  by (rule run_ok_mono [where ok = "wire_ok env order"]) (simp_all add: wire_ok_def)

theorem connection_bounded_witness:
  "\<exists>res c' effs. serve site_handler [reads (print_request sample_get), quiet] sample_conn = (res, c', effs) \<and>
     conn_state c' = Writing \<and> write_offset c' < length (pending_response c')"
proof -
  have "run_ok (conn_step site_handler) is_closed (wire_ok site_env id)
      [reads (print_request sample_get), quiet] sample_conn"
    by (simp add: sample_steps sample_request_length)
  then have ok: "run_ok (conn_step site_handler) is_closed io_ok [reads (print_request sample_get), quiet] sample_conn"
    by (rule wire_run_io)
  obtain effs where s: "serve site_handler [reads (print_request sample_get), quiet] sample_conn =
      (None, after_parse, effs)"
    by (simp add: serve_run sample_steps is_closed_def)
  show ?thesis using connection_bounded [OF sample_new ok s] s by simp
qed

text \<open>
  Exact accounting. The counters that \<open>serve\<close> returns are the numbers of bytes received
  from and sent to the socket, modulo the width of \<open>size_t\<close>.
\<close>

theorem connection_counters:
  assumes "new_connection f cfg t1 t2 = Inr c" and "run_ok (conn_step h) is_closed io_ok evs c"
    and "serve h evs c = (Some result, c', effs)"
  shows "bytes_read result = of_nat (length (received effs)) \<and>
    bytes_written result = of_nat (length (sent effs))"
proof -
  have r: "run (conn_step h) is_closed evs c = (c', effs)" "result = conn_result c'"
    using assms(3) by (auto simp: serve_run Let_def split: prod.splits if_splits)
  have "counters_inv c []"
    using new_connection_inv [OF assms(1)] assms(1)
    by (auto simp: counters_inv_def new_connection_def empty_result_def Let_def split: if_splits)
  from counted.run_inv [OF r(1) assms(2) this] r(2) show ?thesis by (simp add: counters_inv_def)
qed

theorem connection_counters_witness:
  "\<exists>result c' effs. serve site_handler sample_events sample_conn = (Some result, c', effs) \<and>
     bytes_read result = of_nat (length (print_request sample_get)) \<and>
     bytes_written result = of_nat (length sample_answer)"
proof -
  have ok: "run_ok (conn_step site_handler) is_closed io_ok sample_events sample_conn"
    by (rule wire_run_io [OF sample_events_ok])
  obtain effs where e: "serve site_handler sample_events sample_conn =
       (Some (conn_result (finish PeerClosed after_send)), finish PeerClosed after_send, effs)"
    "sent effs = sample_answer" "received effs = print_request sample_get" by (rule sample_serve)
  show ?thesis using connection_counters [OF sample_new ok e(1)] e by auto
qed


text \<open>
  C22. The request deadline is absolute. While a request is being read, single bytes that keep
  arriving do not extend its deadline. Once the clock has reached it, the next pass reads
  nothing more and queues a 408 answer that closes the connection.
\<close>

theorem request_deadline_absolute:
  assumes "conn_inv c" and "conn_state c \<in> {Reading, Parsing}" and "phase c = Request"
    and "run_ok (conn_step h) is_closed io_ok evs c" and "serve h evs c = (None, c', effs)"
    and "requests_served (conn_result c') = requests_served (conn_result c)" and "conn_state c' = Reading"
    and "read_deadline c \<le> ev_now ev"
  shows "read_deadline c' = read_deadline c \<and>
    conn_step h ev c' = (queue_response ev request_timeout_response False ReadTimeout c', [])"
proof -
  have r: "run (conn_step h) is_closed evs c = (c', effs)"
    using assms(5) by (auto simp: serve_run Let_def split: prod.splits)
  have "deadline_inv (read_deadline c) (served c) c"
    using assms(1-3) by (auto simp: deadline_inv_def)
  from deadline.run_inv [OF r assms(4) this]
  have "phase c' = Request" "read_deadline c' = read_deadline c"
    using assms(6,7) by (simp_all add: deadline_inv_def)
  then show ?thesis
    using assms(7,8)
    by (simp add: conn_step_def read_from_socket_def arm_socket_timeout_def timeout_value_def read_timed_out_def)
qed

definition slow_conn :: connection where
  "slow_conn = sample_conn\<lparr>conn_result := empty_result\<lparr>bytes_read := 4\<rparr>,
     parser := default_parser\<lparr>buffer := ''GET ''\<rparr>\<rparr>"

lemma slow_serve:
  "\<exists>effs. serve site_handler [reads ''GET '', quiet] sample_conn = (None, slow_conn, effs)"
  by (simp add: serve_run is_closed_def io_eval slow_conn_def sample_conn_def feed_def parse_request_def
      parser_next_def default_parser_def new_parser_def need_more_data_def)

theorem request_deadline_absolute_witness:
  "conn_step site_handler (quiet\<lparr>ev_now := 10000000000\<rparr>) slow_conn =
     (queue_response (quiet\<lparr>ev_now := 10000000000\<rparr>) request_timeout_response False ReadTimeout slow_conn, [])"
proof -
  obtain effs where s: "serve site_handler [reads ''GET '', quiet] sample_conn = (None, slow_conn, effs)"
    using slow_serve by blast
  have ok: "run_ok (conn_step site_handler) is_closed io_ok [reads ''GET '', quiet] sample_conn"
    by (simp add: io_ok_def reads_def quiet_def)
  have "conn_state sample_conn \<in> {Reading, Parsing}" "phase sample_conn = Request"
      "requests_served (conn_result slow_conn) = requests_served (conn_result sample_conn)"
      "conn_state slow_conn = Reading" "read_deadline sample_conn \<le> ev_now (quiet\<lparr>ev_now := 10000000000\<rparr>)"
    by (simp_all add: slow_conn_def sample_conn_def empty_result_def)
  from request_deadline_absolute [OF new_connection_inv [OF sample_new] this(1,2) ok s this(3-5)]
  show ?thesis by simp
qed

text \<open>
  C23. Bounded blocking. When a receive or send timeout is armed, the clock is before the
  deadline and the value is a valid, non-zero \<open>timeval\<close> (zero would mean no timeout) that does
  not extend past the deadline by more than the microsecond it is rounded up to.
\<close>

theorem armed_timeout_bounds:
  assumes "arm_socket_timeout opt deadline ev = (None, effs)"
  shows "\<exists>tv. effs = [Armed opt tv] \<and> ev_now ev < deadline \<and>
    0 \<le> tv_sec tv \<and> 0 \<le> tv_usec tv \<and> tv_usec tv < 1000000 \<and>
    0 < tv_sec tv * 1000000 + tv_usec tv \<and>
    (tv_sec tv * 1000000 + tv_usec tv) * 1000 \<le> max 1000 (deadline - ev_now ev) \<and>
    deadline - ev_now ev < (tv_sec tv * 1000000 + tv_usec tv + 1) * 1000"
proof -
  obtain tv where "timeout_value deadline (ev_now ev) = Some tv" "effs = [Armed opt tv]"
    using assms by (auto simp: arm_socket_timeout_def split: option.splits)
  then show ?thesis using timeout_value_bounds by blast
qed

theorem armed_timeout_bounds_witness:
  "\<exists>tv. snd (arm_socket_timeout SO_RCVTIMEO 5 quiet) = [Armed SO_RCVTIMEO tv] \<and>
     0 < tv_sec tv * 1000000 + tv_usec tv"
proof -
  have "arm_socket_timeout SO_RCVTIMEO 5 quiet = (None, snd (arm_socket_timeout SO_RCVTIMEO 5 quiet))"
    by (simp add: arm_socket_timeout_def timeout_value_def quiet_def)
  from armed_timeout_bounds [OF this] show ?thesis by blast
qed


definition error_answer :: "(header_table \<Rightarrow> header_table) \<Rightarrow> parse_error_kind \<Rightarrow> bytes" where
  "error_answer order k = serialize_response order (with_connection False
     (if k = UnsupportedTransferEncoding then not_implemented_response else bad_request_response))"

text \<open>
  C24. Malformed requests end the connection. After a parse error the connection reads nothing
  more; what it sends is a prefix of one 400 answer (501 for a transfer coding) that announces
  the close, and \<open>serve\<close> reports a parse error only when that answer was sent completely.
\<close>

theorem parse_error_closes:
  assumes "conn_inv c" and "conn_state c = Parsing" and "parser_next (parser c) = (parse_error e k, p)"
    and "run_ok (conn_step h) is_closed io_ok (ev # evs) c" and "serve h (ev # evs) c = (res, c', effs)"
  shows "received effs = [] \<and> prefix (sent effs) (error_answer (ev_order ev) k) \<and>
    (case res of
       None \<Rightarrow> True
     | Some result \<Rightarrow> reason result = ParseError \<and> sent effs = error_answer (ev_order ev) k \<or>
         reason result \<in> {WriteTimeout, WriteError})"
proof -
  let ?out = "error_answer (ev_order ev) k"
  obtain c1 where c1: "conn_step h ev c = (c1, [])" "closing_inv ?out ParseError c1 []"
  proof
    have "conn_inv (parse_request h ev c)" by (rule parse_inv [OF assms(1,2)])
    then show "closing_inv ?out ParseError (parse_request h ev c) []"
      by (cases rule: parse_cases [where old = c and ev = ev and h = h])
         (use assms(3) in \<open>auto simp: closing_inv_def error_answer_def\<close>)
  qed (simp add: conn_step_def assms(2))
  have n: "\<not> is_closed c" using assms(2) by (simp add: is_closed_def)
  then have r: "run (conn_step h) is_closed evs c1 = (c', effs)" "run_ok (conn_step h) is_closed io_ok evs c1"
      "res = (if is_closed c' then Some (conn_result c') else None)"
    using assms(4,5) c1(1) by (auto simp: serve_run Let_def split: prod.splits)
  have "closing_inv ?out ParseError c' effs" using closing.run_inv [OF r(1,2) c1(2)] by simp
  moreover from this have "prefix (sent effs) ?out" unfolding closing_inv_def by (metis prefixI prefix_order.refl)
  ultimately show ?thesis using r(3) by (auto simp: closing_inv_def is_closed_def)
qed

definition bad_conn :: connection where
  "bad_conn = sample_conn\<lparr>parser := default_parser\<lparr>buffer := ''BAD'' @ CRLF2\<rparr>, conn_state := Parsing\<rparr>"

theorem parse_error_closes_witness:
  "received (snd (snd (serve site_handler [quiet] bad_conn))) = [] \<and>
   prefix (sent (snd (snd (serve site_handler [quiet] bad_conn)))) (error_answer id BadRequest)"
proof -
  have inv: "conn_inv bad_conn"
    using new_connection_inv [OF sample_new]
    by (simp add: bad_conn_def conn_inv_def parser_capacity_def buffered_bytes_def buffer_capacity_def)
  have st: "conn_state bad_conn = Parsing" by (simp add: bad_conn_def)
  have "parser_next (parser bad_conn) =
      (parse_error ''request line is missing method separator'' BadRequest, parser bad_conn)"
    by (simp add: bad_conn_def parser_next_def parse_block_def parse_request_line_def substr_def)
  from parse_error_closes [OF inv st this, of site_handler quiet "[]"] show ?thesis
    by (cases "serve site_handler [quiet] bad_conn") (simp add: io_ok_def quiet_def)
qed

definition lists_token :: "http_request \<Rightarrow> bytes \<Rightarrow> bool" where
  "lists_token r token \<longleftrightarrow> (\<exists>f \<in> set (req_header_fields r). hf_name f = ''connection'' \<and>
     (\<exists>w \<in> set (comma_fields (hf_value f)). to_lower_ascii (ows_strip w) = token))"

lemma comma_fields_append: "comma_fields (a @ CHR '','' # b) = comma_fields a @ comma_fields b"
proof (induction a)
  case (Cons c a)
  have "comma_fields a \<noteq> []" by (cases a) auto
  then show ?case using Cons by simp
qed simp

lemma comma_fields_SP:
  "(\<exists>w \<in> set (comma_fields (SP # b)). P (ows_strip w)) \<longleftrightarrow> (\<exists>w \<in> set (comma_fields b). P (ows_strip w))"
proof -
  have "comma_fields b \<noteq> []" by (cases b) auto
  then show ?thesis by (cases "comma_fields b") auto
qed

lemma comma_join_tokens:
  "vs \<noteq> [] \<Longrightarrow> (\<exists>w \<in> set (comma_fields (comma_join vs)). P (ows_strip w)) \<longleftrightarrow>
     (\<exists>v \<in> set vs. \<exists>w \<in> set (comma_fields v). P (ows_strip w))"
proof (induction vs rule: comma_join.induct)
  case (3 v x vs)
  have "comma_fields (comma_join (v # x # vs)) = comma_fields v @ comma_fields (SP # comma_join (x # vs))"
    using comma_fields_append [of v "SP # comma_join (x # vs)"] by simp
  then show ?case
    using 3 comma_fields_SP [of "comma_join (x # vs)" P]
    by (simp add: bex_Un del: comma_fields.simps comma_join.simps)
qed auto

lemma has_token_iff:
  assumes "wf_request mb r" and "to_lower_ascii token = token"
  shows "has_connection_token r token \<longleftrightarrow> lists_token r token"
proof -
  let ?vs = "field_values (req_header_fields r) ''connection''"
  have h: "req_headers r = header_map (req_header_fields r)" using assms(1) by (simp add: wf_request_def)
  have "has_connection_token r token \<longleftrightarrow> ?vs \<noteq> [] \<and>
      (\<exists>w \<in> set (comma_fields (comma_join ?vs)). to_lower_ascii (ows_strip w) = token)"
    using assms(2) by (simp add: has_connection_token_def h header_map_def token_loop_iff)
  also have "\<dots> \<longleftrightarrow> (\<exists>v \<in> set ?vs. \<exists>w \<in> set (comma_fields v). to_lower_ascii (ows_strip w) = token)"
    using comma_join_tokens [of ?vs "\<lambda>w. to_lower_ascii w = token"] by (cases "?vs = []") simp_all
  also have "\<dots> \<longleftrightarrow> lists_token r token" by (auto simp: field_values_def lists_token_def)
  finally show ?thesis .
qed

text \<open>
  Keep-alive. For every request the parser can return, the connection is kept alive exactly
  when no Connection field, repeated or not, lists the token \<open>close\<close>, and the version is
  HTTP/1.1 or some Connection field lists \<open>keep-alive\<close>; tokens are compared without case and
  surrounding blanks.
\<close>

theorem keep_alive_tokens:
  assumes "wf_request mb r"
  shows "should_keep_alive r \<longleftrightarrow> \<not> lists_token r ''close'' \<and>
    (req_version r = ''HTTP/1.1'' \<or> lists_token r ''keep-alive'')"
proof -
  have "to_lower_ascii ''close'' = ''close''" "to_lower_ascii ''keep-alive'' = ''keep-alive''"
    by (simp_all add: to_lower_ascii_def tolower_def)
  moreover have "req_version r = ''HTTP/1.1'' \<or> req_version r = ''HTTP/1.0''"
    using assms by (simp add: wf_request_def)
  ultimately show ?thesis using has_token_iff [OF assms] by (auto simp: should_keep_alive_def)
qed

theorem keep_alive_tokens_witness:
  "should_keep_alive sample_get \<and> \<not> lists_token sample_get ''close''"
  using keep_alive_tokens [OF sample_get_wf] by (simp add: lists_token_def) (simp add: sample_get_def)

end
