(* ===== verification/Bounded_Queue.thy ===== *)
theory Bounded_Queue
  imports Http_Prelude
begin

section \<open>The bounded blocking queue\<close>

text \<open>
  Models \<open>include/http/bounded_queue.hpp\<close>. The critical sections of \<open>push\<close>, \<open>pop\<close> and \<open>close\<close> are
  functions; \<open>None\<close> means that the predicate of the condition variable is false, so the caller
  waits. A second model puts threads around them: the sets of waiting threads, the window
  between unlocking and notifying, and spurious wake-ups.
\<close>

subsection \<open>Critical sections\<close>

record 'a bounded_queue =
  bq_capacity :: size_t
  bq_queue :: "'a list"
  high_water_mark :: size_t
  bq_closed :: bool

definition new_queue :: "size_t \<Rightarrow> bytes + 'a bounded_queue" where
  "new_queue cap =
     (if cap = 0 then Inl ''queue capacity must be greater than zero''
      else Inr \<lparr>bq_capacity = cap, bq_queue = [], high_water_mark = 0, bq_closed = False\<rparr>)"

definition may_push :: "'a bounded_queue \<Rightarrow> bool" where
  "may_push q \<longleftrightarrow> bq_closed q \<or> length (bq_queue q) < unat (bq_capacity q)"

definition may_pop :: "'a bounded_queue \<Rightarrow> bool" where
  "may_pop q \<longleftrightarrow> bq_closed q \<or> bq_queue q \<noteq> []"

definition push :: "'a \<Rightarrow> 'a bounded_queue \<Rightarrow> (bool \<times> 'a bounded_queue) option" where
  "push item q =
     (if \<not> may_push q then None
      else if bq_closed q then Some (False, q)
      else
        let q = q\<lparr>bq_queue := bq_queue q @ [item]\<rparr>;
            q = (if length (bq_queue q) > unat (high_water_mark q)
                 then q\<lparr>high_water_mark := of_nat (length (bq_queue q))\<rparr> else q)
        in Some (True, q))"

definition pop :: "'a bounded_queue \<Rightarrow> ('a option \<times> 'a bounded_queue) option" where
  "pop q =
     (if \<not> may_pop q then None
      else case bq_queue q of
          [] \<Rightarrow> Some (None, q)
        | item # rest \<Rightarrow> Some (Some item, q\<lparr>bq_queue := rest\<rparr>))"

definition close :: "'a bounded_queue \<Rightarrow> 'a bounded_queue" where
  "close q = q\<lparr>bq_closed := True\<rparr>"

definition queue_size :: "'a bounded_queue \<Rightarrow> nat" where
  "queue_size q = length (bq_queue q)"

definition queue_ok :: "'a bounded_queue \<Rightarrow> bool" where
  "queue_ok q \<longleftrightarrow> 0 < bq_capacity q \<and> length (bq_queue q) \<le> unat (high_water_mark q) \<and>
     high_water_mark q \<le> bq_capacity q"

subsection \<open>The contract\<close>

datatype 'a queue_op = Push 'a | Pop | Close

text \<open>
  A sequence of critical sections, in the order of their locks; a section whose caller waits
  changes nothing. The items accepted, the items returned and the queue reached.
\<close>

fun queue_run ::
  "('a \<Rightarrow> 'q \<Rightarrow> (bool \<times> 'q) option) \<Rightarrow> ('q \<Rightarrow> ('a option \<times> 'q) option) \<Rightarrow> ('q \<Rightarrow> 'q) \<Rightarrow>
   'a queue_op list \<Rightarrow> 'q \<Rightarrow> 'a list \<times> 'a list \<times> 'q" where
  "queue_run psh pp cls [] q = ([], [], q)"
| "queue_run psh pp cls (Push x # ops) q =
     (case psh x q of
        Some (True, q') \<Rightarrow> (case queue_run psh pp cls ops q' of (ins, outs, r) \<Rightarrow> (x # ins, outs, r))
      | Some (False, q') \<Rightarrow> queue_run psh pp cls ops q'
      | None \<Rightarrow> queue_run psh pp cls ops q)"
| "queue_run psh pp cls (Pop # ops) q =
     (case pp q of
        Some (Some x, q') \<Rightarrow> (case queue_run psh pp cls ops q' of (ins, outs, r) \<Rightarrow> (ins, x # outs, r))
      | Some (None, q') \<Rightarrow> queue_run psh pp cls ops q'
      | None \<Rightarrow> queue_run psh pp cls ops q)"
| "queue_run psh pp cls (Close # ops) q = queue_run psh pp cls ops (cls q)"

locale bounded_fifo =
  fixes push_op :: "'a \<Rightarrow> 'q \<Rightarrow> (bool \<times> 'q) option" and pop_op :: "'q \<Rightarrow> ('a option \<times> 'q) option"
    and close_op :: "'q \<Rightarrow> 'q" and items :: "'q \<Rightarrow> 'a list" and closed :: "'q \<Rightarrow> bool"
    and room :: "'q \<Rightarrow> nat" and ok :: "'q \<Rightarrow> bool"
  assumes push_accepted: "ok q \<Longrightarrow> push_op x q = Some (True, q') \<Longrightarrow>
        ok q' \<and> items q' = items q @ [x] \<and> room q' = room q \<and> \<not> closed q' \<and> \<not> closed q \<and>
        length (items q) < room q"
    and push_refused: "ok q \<Longrightarrow> push_op x q = Some (False, q') \<Longrightarrow> q' = q \<and> closed q"
    and push_waits: "ok q \<Longrightarrow> push_op x q = None \<longleftrightarrow> \<not> closed q \<and> room q \<le> length (items q)"
    and pop_item: "ok q \<Longrightarrow> pop_op q = Some (Some x, q') \<Longrightarrow>
        ok q' \<and> items q = x # items q' \<and> room q' = room q \<and> closed q' = closed q"
    and pop_end: "ok q \<Longrightarrow> pop_op q = Some (None, q') \<Longrightarrow> q' = q \<and> closed q \<and> items q = []"
    and pop_waits: "ok q \<Longrightarrow> pop_op q = None \<longleftrightarrow> \<not> closed q \<and> items q = []"
    and close_closes: "ok q \<Longrightarrow> ok (close_op q) \<and> closed (close_op q) \<and>
        items (close_op q) = items q \<and> room (close_op q) = room q"
    and room_pos: "ok q \<Longrightarrow> 0 < room q \<and> length (items q) \<le> room q"
begin

lemma run_fifo:
  assumes "queue_run push_op pop_op close_op ops q = (ins, outs, q')" and "ok q"
  shows "items q @ ins = outs @ items q' \<and> ok q' \<and> room q' = room q \<and> (closed q \<longrightarrow> ins = [] \<and> closed q')"
  using assms
proof (induction ops arbitrary: q ins outs)
  case (Cons op ops)
  show ?case
  proof (cases op)
    case (Push x)
    then show ?thesis
      using Cons push_accepted [OF Cons.prems(2), of x] push_refused [OF Cons.prems(2), of x]
      by (fastforce split: option.splits prod.splits bool.splits)
  next
    case Pop
    then show ?thesis
      using Cons pop_item [OF Cons.prems(2)] pop_end [OF Cons.prems(2)]
      by (fastforce split: option.splits prod.splits)
  next
    case Close
    then show ?thesis using Cons close_closes [OF Cons.prems(2)] by fastforce
  qed
qed auto

lemma run_closed:
  assumes "queue_run push_op pop_op close_op ops q = (ins, outs, q')" and "ok q" and "closed q"
  shows "outs = take (length (filter ((=) Pop) ops)) (items q)"
  using assms
proof (induction ops arbitrary: q ins outs)
  case (Cons op ops)
  show ?case
  proof (cases op)
    case (Push x)
    have "push_op x q = Some (False, q)"
      using push_accepted [OF Cons.prems(2), of x] push_refused [OF Cons.prems(2), of x] push_waits [OF Cons.prems(2), of x] Cons.prems(3)
      by (cases "push_op x q") auto
    then show ?thesis using Push Cons by auto
  next
    case Pop
    then obtain r q1 where r: "pop_op q = Some (r, q1)"
      using pop_waits [OF Cons.prems(2)] Cons.prems(3) by (cases "pop_op q") auto
    show ?thesis
    proof (cases r)
      case None
      then show ?thesis using Pop r Cons pop_end [OF Cons.prems(2), of q1] by fastforce
    next
      case (Some x)
      then show ?thesis
        using Pop r Cons pop_item [OF Cons.prems(2), of x q1] by (auto split: prod.splits)
    qed
  next
    case Close
    then show ?thesis using Cons close_closes [OF Cons.prems(2)] by fastforce
  qed
qed auto

end

lemma unat_of_nat_below:
  assumes "n < unat (c :: size_t)"
  shows "unat (1 + of_nat n :: size_t) = Suc n"
proof -
  have "unat (of_nat (Suc n) :: size_t) = Suc n"
    using assms unat_size_t [of c] by (simp only: unat_of_nat take_bit_nat_eq_self)
       (simp add: take_bit_nat_eq_self)
  then show ?thesis by simp
qed

lemma push_cases:
  assumes "queue_ok q"
  shows "push x q =
    (if bq_closed q then Some (False, q)
     else if length (bq_queue q) < unat (bq_capacity q)
     then Some (True, q\<lparr>bq_queue := bq_queue q @ [x],
            high_water_mark := max (high_water_mark q) (of_nat (length (bq_queue q) + 1))\<rparr>)
     else None)"
proof -
  show ?thesis
    by (cases q)
       (auto simp: push_def may_push_def Let_def max_def word_le_nat_alt unat_of_nat_below word_unat_eq_iff)
qed

interpretation bq: bounded_fifo push pop close bq_queue bq_closed "\<lambda>q. unat (bq_capacity q)" queue_ok
proof unfold_locales
  fix q q' :: "'a bounded_queue" and x
  assume ok: "queue_ok q"
  have len: "length (bq_queue q) \<le> unat (bq_capacity q)"
    using ok by (auto simp: queue_ok_def word_le_nat_alt)
  have n: "unat (1 + of_nat (length (bq_queue q)) :: size_t) = length (bq_queue q) + 1"
    if "length (bq_queue q) < unat (bq_capacity q)"
    using unat_of_nat_below [OF that] by simp
  show "queue_ok q' \<and> bq_queue q' = bq_queue q @ [x] \<and> unat (bq_capacity q') = unat (bq_capacity q) \<and>
      \<not> bq_closed q' \<and> \<not> bq_closed q \<and> length (bq_queue q) < unat (bq_capacity q)"
    if "push x q = Some (True, q')"
    using that ok n unfolding push_cases [OF ok]
    by (auto simp: queue_ok_def max_def word_le_nat_alt split: if_splits)
  show "q' = q \<and> bq_closed q" if "push x q = Some (False, q')"
    using that by (auto simp: push_cases [OF ok] split: if_splits)
  show "push x q = None \<longleftrightarrow> \<not> bq_closed q \<and> unat (bq_capacity q) \<le> length (bq_queue q)"
    by (auto simp: push_cases [OF ok])
  show "queue_ok q' \<and> bq_queue q = x # bq_queue q' \<and> unat (bq_capacity q') = unat (bq_capacity q) \<and>
      bq_closed q' = bq_closed q" if "pop q = Some (Some x, q')"
    using that ok by (auto simp: pop_def queue_ok_def split: if_splits list.splits)
  show "q' = q \<and> bq_closed q \<and> bq_queue q = []" if "pop q = Some (None, q')"
    using that by (auto simp: pop_def may_pop_def split: if_splits list.splits)
  show "pop q = None \<longleftrightarrow> \<not> bq_closed q \<and> bq_queue q = []"
    by (auto simp: pop_def may_pop_def split: list.splits)
  show "queue_ok (close q) \<and> bq_closed (close q) \<and> bq_queue (close q) = bq_queue q \<and>
      unat (bq_capacity (close q)) = unat (bq_capacity q)"
    using ok by (simp add: close_def queue_ok_def)
  show "0 < unat (bq_capacity q) \<and> length (bq_queue q) \<le> unat (bq_capacity q)"
    using ok len by (simp add: queue_ok_def word_less_nat_alt)
qed


subsection \<open>Threads and condition variables\<close>

text \<open>
  The program counters of a thread around the critical sections: waiting in \<open>not_full_\<close> or
  \<open>not_empty_\<close>, woken and about to lock again, between unlocking and notifying, or outside.
  \<open>close\<close> notifies both conditions one after the other.
\<close>

datatype 'a thread = Outside | PushWait 'a | PushWoken 'a | PushNotify | PopWait | PopWoken | PopNotify
  | CloseNotify | CloseNotify2

record 'a monitor =
  mon_queue :: "'a bounded_queue"
  threads :: "'a thread list"

fun waits_push :: "'a thread \<Rightarrow> bool" where
  "waits_push (PushWait x) = True"
| "waits_push t = False"

fun woken_push :: "'a thread \<Rightarrow> bool" where
  "woken_push (PushWoken x) = True"
| "woken_push t = False"

fun wake_push :: "'a thread \<Rightarrow> 'a thread" where
  "wake_push (PushWait x) = PushWoken x"
| "wake_push t = t"

fun wake_pop :: "'a thread \<Rightarrow> 'a thread" where
  "wake_pop PopWait = PopWoken"
| "wake_pop t = t"

definition set_thread :: "nat \<Rightarrow> 'a thread \<Rightarrow> 'a monitor \<Rightarrow> 'a monitor" where
  "set_thread i t m = m\<lparr>threads := (threads m)[i := t]\<rparr>"

inductive mon_step :: "'a monitor \<Rightarrow> 'a monitor \<Rightarrow> bool" where
  push_section: "i < length (threads m) \<Longrightarrow> threads m ! i = Outside \<or> threads m ! i = PushWoken x \<Longrightarrow>
     push x (mon_queue m) = Some (True, q) \<Longrightarrow>
     mon_step m (set_thread i PushNotify (m\<lparr>mon_queue := q\<rparr>))"
| push_refused: "i < length (threads m) \<Longrightarrow> threads m ! i = Outside \<or> threads m ! i = PushWoken x \<Longrightarrow>
     push x (mon_queue m) = Some (False, q) \<Longrightarrow>
     mon_step m (set_thread i Outside (m\<lparr>mon_queue := q\<rparr>))"
| push_wait: "i < length (threads m) \<Longrightarrow> threads m ! i = Outside \<or> threads m ! i = PushWoken x \<Longrightarrow>
     push x (mon_queue m) = None \<Longrightarrow> mon_step m (set_thread i (PushWait x) m)"
| push_notify: "i < length (threads m) \<Longrightarrow> threads m ! i = PushNotify \<Longrightarrow>
     j < length (threads m) \<Longrightarrow> threads m ! j = PopWait \<Longrightarrow>
     mon_step m (set_thread i Outside (set_thread j PopWoken m))"
| push_notify_none: "i < length (threads m) \<Longrightarrow> threads m ! i = PushNotify \<Longrightarrow>
     PopWait \<notin> set (threads m) \<Longrightarrow> mon_step m (set_thread i Outside m)"
| pop_section: "i < length (threads m) \<Longrightarrow> threads m ! i = Outside \<or> threads m ! i = PopWoken \<Longrightarrow>
     pop (mon_queue m) = Some (Some x, q) \<Longrightarrow>
     mon_step m (set_thread i PopNotify (m\<lparr>mon_queue := q\<rparr>))"
| pop_end: "i < length (threads m) \<Longrightarrow> threads m ! i = Outside \<or> threads m ! i = PopWoken \<Longrightarrow>
     pop (mon_queue m) = Some (None, q) \<Longrightarrow>
     mon_step m (set_thread i Outside (m\<lparr>mon_queue := q\<rparr>))"
| pop_wait: "i < length (threads m) \<Longrightarrow> threads m ! i = Outside \<or> threads m ! i = PopWoken \<Longrightarrow>
     pop (mon_queue m) = None \<Longrightarrow> mon_step m (set_thread i PopWait m)"
| pop_notify: "i < length (threads m) \<Longrightarrow> threads m ! i = PopNotify \<Longrightarrow>
     j < length (threads m) \<Longrightarrow> waits_push (threads m ! j) \<Longrightarrow>
     mon_step m (set_thread i Outside (set_thread j (wake_push (threads m ! j)) m))"
| pop_notify_none: "i < length (threads m) \<Longrightarrow> threads m ! i = PopNotify \<Longrightarrow>
     \<forall>t \<in> set (threads m). \<not> waits_push t \<Longrightarrow> mon_step m (set_thread i Outside m)"
| close_section: "i < length (threads m) \<Longrightarrow> threads m ! i = Outside \<Longrightarrow>
     mon_step m (set_thread i CloseNotify (m\<lparr>mon_queue := close (mon_queue m)\<rparr>))"
| close_notify: "i < length (threads m) \<Longrightarrow> threads m ! i = CloseNotify \<Longrightarrow>
     mon_step m (m\<lparr>threads := (map wake_pop (threads m))[i := CloseNotify2]\<rparr>)"
| close_notify2: "i < length (threads m) \<Longrightarrow> threads m ! i = CloseNotify2 \<Longrightarrow>
     mon_step m (m\<lparr>threads := (map wake_push (threads m))[i := Outside]\<rparr>)"
| spurious: "i < length (threads m) \<Longrightarrow>
     mon_step m (set_thread i (wake_push (wake_pop (threads m ! i))) m)"

inductive mon_reach :: "size_t \<Rightarrow> nat \<Rightarrow> 'a monitor \<Rightarrow> bool" for cap n where
  start: "new_queue cap = Inr q \<Longrightarrow> mon_reach cap n \<lparr>mon_queue = q, threads = replicate n Outside\<rparr>"
| step: "mon_reach cap n m \<Longrightarrow> mon_step m m' \<Longrightarrow> mon_reach cap n m'"

definition num :: "('a \<Rightarrow> bool) \<Rightarrow> 'a list \<Rightarrow> nat" where
  "num P xs = length (filter P xs)"

lemma num_update:
  "i < length xs \<Longrightarrow> num P (xs[i := y]) + (if P (xs ! i) then 1 else 0) = num P xs + (if P y then 1 else 0)"
proof (induction xs arbitrary: i)
  case (Cons x xs)
  then show ?case by (cases i) (auto simp: num_def)
qed simp

lemma num_zero: "num P xs = 0 \<longleftrightarrow> (\<forall>x \<in> set xs. \<not> P x)"
  by (auto simp: num_def filter_empty_conv)

lemma num_map: "num P (map f xs) = num (P \<circ> f) xs"
  by (simp add: num_def filter_map comp_def)

lemma num_pos: "i < length xs \<Longrightarrow> P (xs ! i) \<Longrightarrow> 0 < num P xs"
  by (auto simp: num_def filter_empty_conv)

text \<open>
  No wake-up is lost: if a consumer waits, every queued item is matched by a notification that
  is still to be sent or by a consumer already woken; if a producer waits, so is every free
  place; and if somebody waits on a closed queue, the closer has still to notify.
\<close>

definition mon_inv :: "'a monitor \<Rightarrow> bool" where
  "mon_inv m \<longleftrightarrow> queue_ok (mon_queue m) \<and>
     (0 < num (\<lambda>t. t = PopWait) (threads m) \<longrightarrow>
        (if bq_closed (mon_queue m) then 0 < num (\<lambda>t. t = CloseNotify) (threads m)
         else length (bq_queue (mon_queue m)) \<le>
           num (\<lambda>t. t = PushNotify) (threads m) + num (\<lambda>t. t = PopWoken) (threads m))) \<and>
     (0 < num waits_push (threads m) \<longrightarrow>
        (if bq_closed (mon_queue m)
         then 0 < num (\<lambda>t. t = CloseNotify) (threads m) + num (\<lambda>t. t = CloseNotify2) (threads m)
         else unat (bq_capacity (mon_queue m)) - length (bq_queue (mon_queue m)) \<le>
           num (\<lambda>t. t = PopNotify) (threads m) + num woken_push (threads m)))"

lemmas num_updates = num_update [of _ _ "\<lambda>t. t = PopWait"] num_update [of _ _ "\<lambda>t. t = PushNotify"]
  num_update [of _ _ "\<lambda>t. t = PopWoken"] num_update [of _ _ "\<lambda>t. t = CloseNotify"]
  num_update [of _ _ "\<lambda>t. t = CloseNotify2"] num_update [of _ _ "\<lambda>t. t = PopNotify"]
  num_update [of _ _ waits_push] num_update [of _ _ woken_push]

lemma mon_inv_push:
  assumes "mon_inv m" "i < length (threads m)" "threads m ! i = Outside \<or> threads m ! i = PushWoken x"
    "push x (mon_queue m) = Some (True, q)"
  shows "mon_inv (set_thread i PushNotify (m\<lparr>mon_queue := q\<rparr>))"
  using assms(1,3) bq.push_accepted [OF _ assms(4)] num_updates [OF assms(2), of PushNotify]
  by (auto simp: mon_inv_def set_thread_def)

lemma mon_inv_push_refused:
  assumes "mon_inv m" "i < length (threads m)" "threads m ! i = Outside \<or> threads m ! i = PushWoken x"
    "push x (mon_queue m) = Some (False, q)"
  shows "mon_inv (set_thread i Outside (m\<lparr>mon_queue := q\<rparr>))"
  using assms(1,3) bq.push_refused [OF _ assms(4)] num_updates [OF assms(2), of Outside]
  by (auto simp: mon_inv_def set_thread_def)


lemma mon_inv_push_wait:
  assumes "mon_inv m" "i < length (threads m)" "threads m ! i = Outside \<or> threads m ! i = PushWoken x"
    "push x (mon_queue m) = None"
  shows "mon_inv (set_thread i (PushWait x) m)"
  using assms(1,3,4) bq.push_waits [of "mon_queue m" x] num_updates [OF assms(2), of "PushWait x"]
  by (auto simp: mon_inv_def set_thread_def)

lemma mon_inv_pop:
  assumes "mon_inv m" "i < length (threads m)" "threads m ! i = Outside \<or> threads m ! i = PopWoken"
    "pop (mon_queue m) = Some (Some x, q)"
  shows "mon_inv (set_thread i PopNotify (m\<lparr>mon_queue := q\<rparr>))"
  using assms(1,3) bq.pop_item [OF _ assms(4)] num_updates [OF assms(2), of PopNotify]
  by (auto simp: mon_inv_def set_thread_def)

lemma mon_inv_pop_end:
  assumes "mon_inv m" "i < length (threads m)" "threads m ! i = Outside \<or> threads m ! i = PopWoken"
    "pop (mon_queue m) = Some (None, q)"
  shows "mon_inv (set_thread i Outside (m\<lparr>mon_queue := q\<rparr>))"
  using assms(1,3) bq.pop_end [OF _ assms(4)] num_updates [OF assms(2), of Outside]
  by (auto simp: mon_inv_def set_thread_def)

lemma mon_inv_pop_wait:
  assumes "mon_inv m" "i < length (threads m)" "threads m ! i = Outside \<or> threads m ! i = PopWoken"
    "pop (mon_queue m) = None"
  shows "mon_inv (set_thread i PopWait m)"
  using assms(1,3,4) bq.pop_waits [of "mon_queue m"] num_updates [OF assms(2), of PopWait]
  by (auto simp: mon_inv_def set_thread_def)

lemma mon_inv_push_notify:
  assumes "mon_inv m" "i < length (threads m)" "threads m ! i = PushNotify"
    "j < length (threads m)" "threads m ! j = PopWait"
  shows "mon_inv (set_thread i Outside (set_thread j PopWoken m))"
proof -
  have "i \<noteq> j" using assms(3,5) by auto
  then have n: "i < length ((threads m)[j := PopWoken])" "(threads m)[j := PopWoken] ! i = PushNotify"
    using assms by simp_all
  show ?thesis
    using assms(1,5) n(2) num_updates [OF assms(4), of PopWoken] num_updates [OF n(1), of Outside]
    by (auto simp: mon_inv_def set_thread_def)
qed

lemma mon_inv_pop_notify:
  assumes "mon_inv m" "i < length (threads m)" "threads m ! i = PopNotify"
    "j < length (threads m)" "waits_push (threads m ! j)"
  shows "mon_inv (set_thread i Outside (set_thread j (wake_push (threads m ! j)) m))"
proof -
  obtain x where x: "threads m ! j = PushWait x" using assms(5) by (cases "threads m ! j") auto
  then have "i \<noteq> j" using assms(3) by auto
  then have n: "i < length ((threads m)[j := PushWoken x])" "(threads m)[j := PushWoken x] ! i = PopNotify"
    using assms by simp_all
  show ?thesis
    using assms(1) x n(2) num_updates [OF assms(4), of "PushWoken x"] num_updates [OF n(1), of Outside]
    by (auto simp: mon_inv_def set_thread_def)
qed

lemma mon_inv_push_notify_none:
  assumes "mon_inv m" "i < length (threads m)" "threads m ! i = PushNotify" "PopWait \<notin> set (threads m)"
  shows "mon_inv (set_thread i Outside m)"
proof -
  have "num (\<lambda>t. t = PopWait) (threads m) = 0" using assms(4) by (auto simp: num_zero)
  then show ?thesis
    using assms(1,3) num_updates [OF assms(2), of Outside] by (auto simp: mon_inv_def set_thread_def)
qed

lemma mon_inv_pop_notify_none:
  assumes "mon_inv m" "i < length (threads m)" "threads m ! i = PopNotify"
    "\<forall>t \<in> set (threads m). \<not> waits_push t"
  shows "mon_inv (set_thread i Outside m)"
proof -
  have "num waits_push (threads m) = 0" using assms(4) by (auto simp: num_zero)
  then show ?thesis
    using assms(1,3) num_updates [OF assms(2), of Outside] by (auto simp: mon_inv_def set_thread_def)
qed

lemma mon_inv_close:
  assumes "mon_inv m" "i < length (threads m)" "threads m ! i = Outside"
  shows "mon_inv (set_thread i CloseNotify (m\<lparr>mon_queue := close (mon_queue m)\<rparr>))"
  using assms(1,3) bq.close_closes [of "mon_queue m"] num_updates [OF assms(2), of CloseNotify]
  by (auto simp: mon_inv_def set_thread_def)

lemma mon_inv_spurious:
  assumes "mon_inv m" "i < length (threads m)"
  shows "mon_inv (set_thread i (wake_push (wake_pop (threads m ! i))) m)"
  using assms(1) num_updates [OF assms(2), of "wake_push (wake_pop (threads m ! i))"]
  by (cases "threads m ! i") (auto simp: mon_inv_def set_thread_def split: if_splits)

lemma wake_pop_eq [simp]:
  "wake_pop t \<noteq> PopWait" "wake_pop t = PushNotify \<longleftrightarrow> t = PushNotify" "wake_pop t = CloseNotify \<longleftrightarrow> t = CloseNotify"
  "wake_pop t = CloseNotify2 \<longleftrightarrow> t = CloseNotify2" "wake_pop t = PopNotify \<longleftrightarrow> t = PopNotify"
  "waits_push (wake_pop t) = waits_push t" "woken_push (wake_pop t) = woken_push t"
  by (cases t; simp)+

lemma wake_push_eq [simp]:
  "\<not> waits_push (wake_push t)" "wake_push t = PushNotify \<longleftrightarrow> t = PushNotify"
  "wake_push t = PopWait \<longleftrightarrow> t = PopWait" "wake_push t = PopWoken \<longleftrightarrow> t = PopWoken"
  "wake_push t = CloseNotify \<longleftrightarrow> t = CloseNotify" "wake_push t = CloseNotify2 \<longleftrightarrow> t = CloseNotify2"
  "wake_push t = PopNotify \<longleftrightarrow> t = PopNotify"
  by (cases t; simp)+

lemma mon_inv_close_notify:
  assumes "mon_inv m" "i < length (threads m)" "threads m ! i = CloseNotify"
  shows "mon_inv (m\<lparr>threads := (map wake_pop (threads m))[i := CloseNotify2]\<rparr>)"
proof -
  have i: "i < length (map wake_pop (threads m))" using assms(2) by simp
  have "num (\<lambda>t. False) xs = 0" for xs :: "'a thread list" by (simp add: num_def)
  then show ?thesis
    using assms num_updates [OF i, of CloseNotify2] by (auto simp: mon_inv_def num_map comp_def)
qed

lemma mon_inv_close_notify2:
  assumes "mon_inv m" "i < length (threads m)" "threads m ! i = CloseNotify2"
  shows "mon_inv (m\<lparr>threads := (map wake_push (threads m))[i := Outside]\<rparr>)"
proof -
  have i: "i < length (map wake_push (threads m))" using assms(2) by simp
  have "num (\<lambda>t. False) xs = 0" for xs :: "'a thread list" by (simp add: num_def)
  then show ?thesis
    using assms num_updates [OF i, of Outside] by (auto simp: mon_inv_def num_map comp_def)
qed

lemmas mon_inv_intros = mon_inv_push mon_inv_push_refused mon_inv_push_wait mon_inv_push_notify
  mon_inv_push_notify_none mon_inv_pop mon_inv_pop_end mon_inv_pop_wait mon_inv_pop_notify
  mon_inv_pop_notify_none mon_inv_close mon_inv_close_notify mon_inv_close_notify2 mon_inv_spurious

lemma mon_step_inv: "mon_step m m' \<Longrightarrow> mon_inv m \<Longrightarrow> mon_inv m'"
  by (induction rule: mon_step.induct) (rule mon_inv_intros; assumption)+

lemma mon_reach_inv: "mon_reach cap n m \<Longrightarrow> mon_inv m"
proof (induction rule: mon_reach.induct)
  case (start q)
  then show ?case
    by (auto simp: new_queue_def mon_inv_def queue_ok_def num_def word_gt_0 split: if_splits)
qed (rule mon_step_inv)

subsection \<open>Histories\<close>

definition queue_after :: "'a queue_op list \<Rightarrow> 'a bounded_queue \<Rightarrow> 'a bounded_queue" where
  "queue_after ops q = snd (snd (queue_run push pop close ops q))"

lemma queue_after_simps [simp]:
  "queue_after [] q = q"
  "queue_after (Push x # ops) q = queue_after ops (case push x q of None \<Rightarrow> q | Some (_, q') \<Rightarrow> q')"
  "queue_after (Pop # ops) q = queue_after ops (case pop q of None \<Rightarrow> q | Some (_, q') \<Rightarrow> q')"
  "queue_after (Close # ops) q = queue_after ops (close q)"
  by (auto simp: queue_after_def split: option.splits prod.splits bool.splits)

lemma queue_after_append: "queue_after (xs @ ys) q = queue_after ys (queue_after xs q)"
proof (induction xs arbitrary: q)
  case (Cons x xs)
  then show ?case by (cases x) simp_all
qed simp

lemma queue_after_ok: "queue_ok q \<Longrightarrow> queue_ok (queue_after ops q)"
  using bq.run_fifo [of ops q] by (cases "queue_run push pop close ops q") (auto simp: queue_after_def)

lemma high_water_step:
  assumes "queue_ok q"
  shows "unat (high_water_mark (queue_after [op] q)) =
    max (unat (high_water_mark q)) (length (bq_queue (queue_after [op] q)))"
proof (cases op)
  case (Push x)
  have "unat (1 + of_nat (length (bq_queue q)) :: size_t) = Suc (length (bq_queue q))"
    if "length (bq_queue q) < unat (bq_capacity q)" using that by (rule unat_of_nat_below)
  then show ?thesis
    using assms Push by (auto simp: push_cases queue_ok_def max_def word_le_nat_alt)
next
  case Pop
  then show ?thesis using assms by (auto simp: pop_def queue_ok_def max_def split: list.splits)
next
  case Close
  then show ?thesis using assms by (simp add: close_def queue_ok_def max_def)
qed

lemma high_water_max:
  assumes "queue_ok q" and "unat (high_water_mark q) = length (bq_queue q)"
  shows "unat (high_water_mark (queue_after ops q)) =
    Max ((\<lambda>k. length (bq_queue (queue_after (take k ops) q))) ` {..length ops})"
proof (induction ops rule: rev_induct)
  case (snoc op ops)
  let ?f = "\<lambda>k. length (bq_queue (queue_after (take k (ops @ [op])) q))"
  have "?f ` {..length ops} = (\<lambda>k. length (bq_queue (queue_after (take k ops) q))) ` {..length ops}"
    by (rule image_cong) auto
  then have "unat (high_water_mark (queue_after ops q)) = Max (?f ` {..length ops})" using snoc by simp
  moreover have "{..length (ops @ [op])} = insert (length (ops @ [op])) {..length ops}" by auto
  ultimately show ?case
    using high_water_step [OF queue_after_ok [OF assms(1), of ops], of op]
    by (simp add: queue_after_append Max_insert max.commute)
qed (use assms in simp)

subsection \<open>Properties\<close>

text \<open>
  C18. First in, first out, within the capacity. Whatever the order in which threads enter the
  critical sections, the items accepted are the items returned, in that order, followed by
  those still queued; at most the capacity is queued; a producer waits exactly when an open queue is full and a consumer
  exactly when an open queue is empty. Once the queue is closed nothing is accepted, and every \<open>pop\<close> returns the next of
  the items it still holds, until all of them are taken.
\<close>

theorem queue_fifo:
  assumes "new_queue cap = Inr q" and "queue_run push pop close ops q = (ins, outs, q')"
    and "queue_run push pop close more_ops q' = (ins', outs', q'')"
  shows "ins = outs @ bq_queue q' \<and> length (bq_queue q') \<le> unat cap \<and>
    (push x q' = None \<longleftrightarrow> \<not> bq_closed q' \<and> length (bq_queue q') = unat cap) \<and>
    (pop q' = None \<longleftrightarrow> \<not> bq_closed q' \<and> bq_queue q' = []) \<and>
    (bq_closed q' \<longrightarrow> ins' = [] \<and> bq_queue q' = outs' @ bq_queue q'' \<and>
       outs' = take (length (filter ((=) Pop) more_ops)) (bq_queue q'))"
proof -
  have q: "queue_ok q" "bq_queue q = []" "bq_capacity q = cap"
    using assms(1) by (auto simp: new_queue_def queue_ok_def word_gt_0 split: if_splits)
  have f: "ins = outs @ bq_queue q'" "queue_ok q'" "unat (bq_capacity q') = unat cap"
    using bq.run_fifo [OF assms(2) q(1)] q by auto
  moreover have "length (bq_queue q') \<le> unat cap" using bq.room_pos [OF f(2)] f(3) by simp
  ultimately show ?thesis
    using bq.run_fifo [OF assms(3) f(2)] bq.run_closed [OF assms(3) f(2)] bq.push_waits [OF f(2), of x] bq.pop_waits [OF f(2)]
    by auto
qed

theorem queue_fifo_witness:
  "\<exists>q q' q''. new_queue 2 = Inr q \<and>
     queue_run push pop close [Push CHR ''a'', Push CHR ''b'', Push CHR ''c'', Pop, Close] q = (''ab'', ''a'', q') \<and>
     queue_run push pop close [Push CHR ''d'', Pop] q' = ('''', ''b'', q'') \<and> ''ab'' = ''a'' @ bq_queue q' \<and>
     ''b'' = take 1 (bq_queue q')"
proof -
  let ?q = "\<lparr>bq_capacity = 2, bq_queue = '''', high_water_mark = 0, bq_closed = False\<rparr>"
  let ?q' = "\<lparr>bq_capacity = 2, bq_queue = ''b'', high_water_mark = 2, bq_closed = True\<rparr>"
  have n: "new_queue 2 = Inr ?q" by (simp add: new_queue_def)
  have r: "queue_run push pop close [Push CHR ''a'', Push CHR ''b'', Push CHR ''c'', Pop, Close] ?q = (''ab'', ''a'', ?q')"
    by (simp add: push_def pop_def close_def may_push_def may_pop_def)
  have r': "queue_run push pop close [Push CHR ''d'', Pop] ?q' = ('''', ''b'', ?q'\<lparr>bq_queue := ''''\<rparr>)"
    by (simp add: push_def pop_def close_def may_push_def may_pop_def)
  have "''ab'' = ''a'' @ bq_queue ?q' \<and> ''b'' = take 1 (bq_queue ?q')" using queue_fifo [OF n r r'] by simp
  then show ?thesis using n r r' by blast
qed

text \<open>
  The high-water mark is exact: after any sequence of operations on a new queue it is the
  greatest number of items that the queue held at any moment.
\<close>

theorem queue_high_water:
  assumes "new_queue cap = Inr q"
  shows "unat (high_water_mark (queue_after ops q)) =
    Max ((\<lambda>k. length (bq_queue (queue_after (take k ops) q))) ` {..length ops})"
proof (rule high_water_max)
  show "queue_ok q" "unat (high_water_mark q) = length (bq_queue q)"
    using assms by (auto simp: new_queue_def queue_ok_def word_gt_0 split: if_splits)
qed

theorem queue_high_water_witness:
  "\<exists>q. new_queue 2 = Inr q \<and> unat (high_water_mark (queue_after [Push CHR ''a'', Pop] q)) =
    Max ((\<lambda>k. length (bq_queue (queue_after (take k [Push CHR ''a'', Pop]) q))) ` {..length [Push CHR ''a'', Pop]})"
proof -
  obtain q where q: "new_queue 2 = Inr (q :: char bounded_queue)" by (simp add: new_queue_def)
  from queue_high_water [OF q, of "[Push CHR ''a'', Pop]"] q show ?thesis by blast
qed

text \<open>
  C13. No lost wake-up. In every reachable state of any number of threads that push, pop and
  close, with spurious wake-ups and with the lock released before each notification: when no
  thread is about to act, a thread waits in \<open>pop\<close> only if the queue is empty and open, and
  in \<open>push\<close> only if it is full and open.
\<close>

theorem queue_no_lost_wakeup:
  assumes "mon_reach cap n m"
    and "\<forall>t \<in> set (threads m). t = Outside \<or> t = PopWait \<or> waits_push t"
  shows "(PopWait \<in> set (threads m) \<longrightarrow> bq_queue (mon_queue m) = [] \<and> \<not> bq_closed (mon_queue m)) \<and>
    ((\<exists>t \<in> set (threads m). waits_push t) \<longrightarrow>
       length (bq_queue (mon_queue m)) = unat (bq_capacity (mon_queue m)) \<and> \<not> bq_closed (mon_queue m))"
proof -
  have none: "num P (threads m) = 0"
    if "\<not> P Outside" "\<not> P PopWait" "\<And>x. \<not> P (PushWait x)" for P
    unfolding num_zero
  proof
    fix t
    assume "t \<in> set (threads m)"
    then have "t = Outside \<or> t = PopWait \<or> waits_push t" using assms(2) by blast
    then show "\<not> P t" using that waits_push.elims(2) [of t] by blast
  qed
  have zero: "num (\<lambda>t. t = PushNotify) (threads m) = 0" "num (\<lambda>t. t = PopWoken) (threads m) = 0"
      "num (\<lambda>t. t = PopNotify) (threads m) = 0" "num (\<lambda>t. t = CloseNotify) (threads m) = 0"
      "num (\<lambda>t. t = CloseNotify2) (threads m) = 0" "num woken_push (threads m) = 0"
    by (rule none; simp)+
  have inv: "mon_inv m" using assms(1) by (rule mon_reach_inv)
  have len: "length (bq_queue (mon_queue m)) \<le> unat (bq_capacity (mon_queue m))"
    using bq.room_pos inv by (auto simp: mon_inv_def)
  have "0 < num (\<lambda>t. t = PopWait) (threads m)" if "PopWait \<in> set (threads m)"
    using that num_zero [of "\<lambda>t. t = PopWait" "threads m"] by auto
  moreover have "0 < num waits_push (threads m)" if "\<exists>t \<in> set (threads m). waits_push t"
    using that num_zero [of waits_push "threads m"] by auto
  ultimately show ?thesis using inv zero len by (auto simp: mon_inv_def split: if_splits)
qed

theorem queue_no_lost_wakeup_witness:
  "\<exists>m. mon_reach 2 1 (m :: char monitor) \<and> threads m = [PopWait] \<and>
     bq_queue (mon_queue m) = [] \<and> \<not> bq_closed (mon_queue m)"
proof -
  obtain q where q: "new_queue 2 = Inr (q :: char bounded_queue)" "pop q = None"
    by (simp add: new_queue_def pop_def may_pop_def)
  let ?m = "\<lparr>mon_queue = q, threads = replicate 1 Outside\<rparr>"
  have "mon_step ?m (set_thread 0 PopWait ?m)" by (rule pop_wait) (simp_all add: q(2))
  then have r: "mon_reach 2 1 (set_thread 0 PopWait ?m)" using mon_reach.start [OF q(1)] mon_reach.step by blast
  have t: "threads (set_thread 0 PopWait ?m) = [PopWait]" by (simp add: set_thread_def)
  from queue_no_lost_wakeup [OF r] r t show ?thesis by (intro exI [of _ "set_thread 0 PopWait ?m"]) simp
qed

end
