(* ===== verification/Worker_Pool.thy ===== *)
theory Worker_Pool
  imports Connection_Correctness Bounded_Queue
begin

section \<open>The worker pool\<close>

text \<open>
  Models \<open>include/http/worker_pool.hpp\<close> and \<open>src/worker_pool.cpp\<close>. The pool is the queue of
  client descriptors, the program counter of every worker thread and the atomic counters. The
  threads interleave: a step is one critical section of the queue, one update of a counter, or
  the whole service of a connection by a worker, whose outcome is any result that
  \<open>serve\<close> can return, or an exception.
\<close>

subsection \<open>Counters\<close>

record pool_counters =
  dispatched_connections :: size_t
  rejected_dispatches :: size_t
  active_connections :: size_t
  completed_connections :: size_t
  total_requests_served :: size_t
  total_bytes_read :: size_t
  total_bytes_written :: size_t
  peer_closes :: size_t
  explicit_closes :: size_t
  request_limit_closes :: size_t
  parse_errors :: size_t
  read_timeouts :: size_t
  keep_alive_timeouts :: size_t
  write_timeouts :: size_t
  read_errors :: size_t
  write_errors :: size_t
  worker_errors :: size_t

record worker_pool_stats = pool_counters +
  queued_connections :: size_t
  queue_high_water :: size_t

definition zero_counters :: pool_counters where
  "zero_counters =
     \<lparr>dispatched_connections = 0, rejected_dispatches = 0, active_connections = 0,
      completed_connections = 0, total_requests_served = 0, total_bytes_read = 0,
      total_bytes_written = 0, peer_closes = 0, explicit_closes = 0, request_limit_closes = 0,
      parse_errors = 0, read_timeouts = 0, keep_alive_timeouts = 0, write_timeouts = 0,
      read_errors = 0, write_errors = 0, worker_errors = 0\<rparr>"

definition record_result :: "connection_result \<Rightarrow> pool_counters \<Rightarrow> pool_counters" where
  "record_result result cs =
     (let cs = cs\<lparr>completed_connections := completed_connections cs + 1,
                  total_requests_served := total_requests_served cs + requests_served result,
                  total_bytes_read := total_bytes_read cs + bytes_read result,
                  total_bytes_written := total_bytes_written cs + bytes_written result\<rparr>
      in case reason result of
           PeerClosed \<Rightarrow> cs\<lparr>peer_closes := peer_closes cs + 1\<rparr>
         | ConnectionClose \<Rightarrow> cs\<lparr>explicit_closes := explicit_closes cs + 1\<rparr>
         | RequestLimit \<Rightarrow> cs\<lparr>request_limit_closes := request_limit_closes cs + 1\<rparr>
         | ParseError \<Rightarrow> cs\<lparr>parse_errors := parse_errors cs + 1\<rparr>
         | ReadTimeout \<Rightarrow> cs\<lparr>read_timeouts := read_timeouts cs + 1\<rparr>
         | KeepAliveTimeout \<Rightarrow> cs\<lparr>keep_alive_timeouts := keep_alive_timeouts cs + 1\<rparr>
         | WriteTimeout \<Rightarrow> cs\<lparr>write_timeouts := write_timeouts cs + 1\<rparr>
         | ReadError \<Rightarrow> cs\<lparr>read_errors := read_errors cs + 1\<rparr>
         | WriteError \<Rightarrow> cs\<lparr>write_errors := write_errors cs + 1\<rparr>)"

subsection \<open>The pool\<close>

datatype worker = WPop | WPopped int | WServing int | WRecorded | WExited

record worker_pool =
  pool_queue :: "int bounded_queue"
  pool_config :: connection_config
  workers :: "worker list"
  counters :: pool_counters
  counting :: nat

text \<open>
  The constructor; \<open>spawn_error\<close> is the message of the exception when a thread cannot be
  started, after which the queue is closed and the threads already running are joined.
\<close>

definition new_pool ::
  "size_t \<Rightarrow> size_t \<Rightarrow> connection_config \<Rightarrow> bytes option \<Rightarrow> bytes + worker_pool" where
  "new_pool worker_count queue_capacity cfg spawn_error =
     (case new_queue queue_capacity of
        Inl err \<Rightarrow> Inl err
      | Inr q \<Rightarrow>
        if worker_count = 0 then Inl ''worker count must be greater than zero''
        else case spawn_error of
            Some err \<Rightarrow> Inl err
          | None \<Rightarrow> Inr \<lparr>pool_queue = q, pool_config = cfg,
                        workers = replicate (unat worker_count) WPop,
                        counters = zero_counters, counting = 0\<rparr>)"

definition count_dispatch :: "worker_pool \<Rightarrow> worker_pool" where
  "count_dispatch p = p\<lparr>counting := counting p - 1,
     counters := (counters p)\<lparr>dispatched_connections := dispatched_connections (counters p) + 1\<rparr>\<rparr>"

definition count_rejection :: "worker_pool \<Rightarrow> worker_pool" where
  "count_rejection p =
     p\<lparr>counters := (counters p)\<lparr>rejected_dispatches := rejected_dispatches (counters p) + 1\<rparr>\<rparr>"

definition pool_request_shutdown :: "worker_pool \<Rightarrow> worker_pool" where
  "pool_request_shutdown p = p\<lparr>pool_queue := close (pool_queue p)\<rparr>"

definition set_worker :: "nat \<Rightarrow> worker \<Rightarrow> worker_pool \<Rightarrow> worker_pool" where
  "set_worker i w p = p\<lparr>workers := (workers p)[i := w]\<rparr>"

definition add_active :: "size_t \<Rightarrow> worker_pool \<Rightarrow> worker_pool" where
  "add_active n p =
     p\<lparr>counters := (counters p)\<lparr>active_connections := active_connections (counters p) + n\<rparr>\<rparr>"

definition add_worker_error :: "worker_pool \<Rightarrow> worker_pool" where
  "add_worker_error p =
     p\<lparr>counters := (counters p)\<lparr>worker_errors := worker_errors (counters p) + 1\<rparr>\<rparr>"

definition pool_stats :: "worker_pool \<Rightarrow> worker_pool_stats" where
  "pool_stats p =
     pool_counters.extend (counters p)
       \<lparr>queued_connections = of_nat (queue_size (pool_queue p)),
        queue_high_water = high_water_mark (pool_queue p)\<rparr>"

text \<open>The results \<open>Connection(client, config).serve(handler)\<close> can return.\<close>

definition connection_outcome ::
  "static_file_handler \<Rightarrow> connection_config \<Rightarrow> int \<Rightarrow> connection_result \<Rightarrow> bool" where
  "connection_outcome h cfg client result \<longleftrightarrow>
     (\<exists>t1 t2 c evs c' effs. new_connection client cfg t1 t2 = Inr c \<and>
        run_ok (conn_step h) is_closed io_ok evs c \<and> serve h evs c = (Some result, c', effs))"

datatype pool_label = Accept int | Count | Refuse int | Shutdown
  | Take int | Exit | Begin int | Finish int connection_result | Throw int | End

inductive pool_step :: "static_file_handler \<Rightarrow> worker_pool \<Rightarrow> pool_label \<Rightarrow> worker_pool \<Rightarrow> bool" for h where
  dispatch_push: "push client (pool_queue p) = Some (True, q) \<Longrightarrow>
     pool_step h p (Accept client) (p\<lparr>pool_queue := q, counting := counting p + 1\<rparr>)"
| dispatch_count: "0 < counting p \<Longrightarrow> pool_step h p Count (count_dispatch p)"
| dispatch_refused: "push client (pool_queue p) = Some (False, q) \<Longrightarrow>
     pool_step h p (Refuse client) (count_rejection (p\<lparr>pool_queue := q\<rparr>))"
| shutdown: "pool_step h p Shutdown (pool_request_shutdown p)"
| worker_pop: "i < length (workers p) \<Longrightarrow> workers p ! i = WPop \<Longrightarrow>
     pop (pool_queue p) = Some (Some client, q) \<Longrightarrow>
     pool_step h p (Take client) (set_worker i (WPopped client) (p\<lparr>pool_queue := q\<rparr>))"
| worker_exit: "i < length (workers p) \<Longrightarrow> workers p ! i = WPop \<Longrightarrow>
     pop (pool_queue p) = Some (None, q) \<Longrightarrow>
     pool_step h p Exit (set_worker i WExited (p\<lparr>pool_queue := q\<rparr>))"
| worker_begin: "i < length (workers p) \<Longrightarrow> workers p ! i = WPopped client \<Longrightarrow>
     pool_step h p (Begin client) (set_worker i (WServing client) (add_active 1 p))"
| worker_served: "i < length (workers p) \<Longrightarrow> workers p ! i = WServing client \<Longrightarrow>
     connection_outcome h (pool_config p) client result \<Longrightarrow>
     pool_step h p (Finish client result)
       (set_worker i WRecorded (p\<lparr>counters := record_result result (counters p)\<rparr>))"
| worker_threw: "i < length (workers p) \<Longrightarrow> workers p ! i = WServing client \<Longrightarrow>
     pool_step h p (Throw client) (set_worker i WRecorded (add_worker_error p))"
| worker_end: "i < length (workers p) \<Longrightarrow> workers p ! i = WRecorded \<Longrightarrow>
     pool_step h p End (set_worker i WPop (add_active (- 1) p))"

inductive pool_run :: "static_file_handler \<Rightarrow> worker_pool \<Rightarrow> pool_label list \<Rightarrow> worker_pool \<Rightarrow> bool" for h p0 where
  start: "pool_run h p0 [] p0"
| step: "pool_run h p0 tr p \<Longrightarrow> pool_step h p l p' \<Longrightarrow> pool_run h p0 (tr @ [l]) p'"

subsection \<open>Traces\<close>

definition accepts :: "pool_label list \<Rightarrow> int list" where
  "accepts tr = concat (map (\<lambda>l. case l of Accept c \<Rightarrow> [c] | _ \<Rightarrow> []) tr)"

definition takes :: "pool_label list \<Rightarrow> int list" where
  "takes tr = concat (map (\<lambda>l. case l of Take c \<Rightarrow> [c] | _ \<Rightarrow> []) tr)"

definition handled :: "pool_label list \<Rightarrow> int list" where
  "handled tr = concat (map (\<lambda>l. case l of Finish c r \<Rightarrow> [c] | Throw c \<Rightarrow> [c] | _ \<Rightarrow> []) tr)"

definition results :: "pool_label list \<Rightarrow> connection_result list" where
  "results tr = concat (map (\<lambda>l. case l of Finish c r \<Rightarrow> [r] | _ \<Rightarrow> []) tr)"

definition throws :: "pool_label list \<Rightarrow> int list" where
  "throws tr = concat (map (\<lambda>l. case l of Throw c \<Rightarrow> [c] | _ \<Rightarrow> []) tr)"

lemmas trace_defs = accepts_def takes_def handled_def results_def throws_def

fun service :: "worker \<Rightarrow> int list" where
  "service (WPopped c) = [c]"
| "service (WServing c) = [c]"
| "service w = []"

fun is_active :: "worker \<Rightarrow> bool" where
  "is_active (WServing c) = True"
| "is_active WRecorded = True"
| "is_active w = False"

definition in_service :: "worker list \<Rightarrow> int list" where
  "in_service ws = concat (map service ws)"

lemma in_service_update:
  "i < length ws \<Longrightarrow>
     mset (in_service (ws[i := w])) + mset (service (ws ! i)) = mset (in_service ws) + mset (service w)"
proof (induction ws arbitrary: i)
  case (Cons v ws)
  then show ?case by (cases i) (auto simp: in_service_def)
qed simp

lemma in_service_length: "length (in_service ws) \<le> length ws"
proof (induction ws)
  case (Cons w ws)
  then show ?case by (cases w) (auto simp: in_service_def)
qed (simp add: in_service_def)

text \<open>
  Ownership: the accepted descriptors are the taken ones followed by the queue, in order; a
  taken descriptor is in service or handled; workers exit only from a closed, empty queue.
\<close>

definition pool_inv :: "pool_label list \<Rightarrow> worker_pool \<Rightarrow> bool" where
  "pool_inv tr p \<longleftrightarrow> queue_ok (pool_queue p) \<and>
     accepts tr = takes tr @ bq_queue (pool_queue p) \<and>
     mset (takes tr) = mset (in_service (workers p)) + mset (handled tr) \<and>
     (WExited \<in> set (workers p) \<longrightarrow> bq_closed (pool_queue p) \<and> bq_queue (pool_queue p) = [])"

lemma pool_step_inv:
  assumes "pool_step h p l p'" and "pool_inv tr p"
  shows "pool_inv (tr @ [l]) p'"
  using assms
proof (induction rule: pool_step.induct)
  case (dispatch_push client p q)
  then show ?case
    using bq.push_accepted [OF _ dispatch_push(1)] by (auto simp: pool_inv_def trace_defs)
next
  case (dispatch_count p)
  then show ?case by (simp add: pool_inv_def trace_defs count_dispatch_def)
next
  case (dispatch_refused client p q)
  then show ?case
    using bq.push_refused [OF _ dispatch_refused(1)] by (simp add: pool_inv_def trace_defs count_rejection_def)
next
  case (shutdown p)
  then show ?case
    using bq.close_closes [of "pool_queue p"]
    by (auto simp: pool_inv_def trace_defs pool_request_shutdown_def)
next
  case (worker_pop i p client q)
  then show ?case
    using bq.pop_item [OF _ worker_pop(3)] in_service_update [of i "workers p" "WPopped client"]
    by (auto simp: pool_inv_def trace_defs set_worker_def dest!: set_update_subset_insert [THEN subsetD])
next
  case (worker_exit i p q)
  then show ?case
    using bq.pop_end [OF _ worker_exit(3)] in_service_update [of i "workers p" WExited]
    by (auto simp: pool_inv_def trace_defs set_worker_def)
next
  case (worker_begin i p client)
  then show ?case
    using in_service_update [of i "workers p" "WServing client"]
    by (auto simp: pool_inv_def trace_defs set_worker_def add_active_def dest!: set_update_subset_insert [THEN subsetD])
next
  case (worker_served i p client result)
  then show ?case
    using in_service_update [of i "workers p" WRecorded]
    by (auto simp: pool_inv_def trace_defs set_worker_def dest!: set_update_subset_insert [THEN subsetD])
next
  case (worker_threw i p client)
  then show ?case
    using in_service_update [of i "workers p" WRecorded]
    by (auto simp: pool_inv_def trace_defs set_worker_def add_worker_error_def dest!: set_update_subset_insert [THEN subsetD])
next
  case (worker_end i p)
  then show ?case
    using in_service_update [of i "workers p" WPop]
    by (auto simp: pool_inv_def trace_defs set_worker_def add_active_def dest!: set_update_subset_insert [THEN subsetD])
qed

lemma pool_run_inv: "pool_run h p0 tr p \<Longrightarrow> pool_inv [] p0 \<Longrightarrow> pool_inv tr p"
  by (induction rule: pool_run.induct) (auto intro: pool_step_inv)

lemma new_pool_inv: "new_pool n cap cfg e = Inr p \<Longrightarrow> pool_inv [] p"
  by (auto simp: new_pool_def new_queue_def pool_inv_def trace_defs in_service_def queue_ok_def word_gt_0
      split: if_splits sum.splits option.splits)

lemma pool_step_workers: "pool_step h p l p' \<Longrightarrow> length (workers p') = length (workers p)"
  by (induction rule: pool_step.induct)
     (auto simp: set_worker_def count_dispatch_def count_rejection_def pool_request_shutdown_def
        add_active_def add_worker_error_def)

lemma pool_step_config: "pool_step h p l p' \<Longrightarrow> pool_config p' = pool_config p \<and>
    unat (bq_capacity (pool_queue p')) = unat (bq_capacity (pool_queue p)) \<or> \<not> queue_ok (pool_queue p)"
proof (induction rule: pool_step.induct)
  case (dispatch_push client p q)
  then show ?case using bq.push_accepted [OF _ dispatch_push] by auto
next
  case (dispatch_refused client p q)
  then show ?case using bq.push_refused [OF _ dispatch_refused] by (auto simp: count_rejection_def)
next
  case (worker_pop i p client q)
  then show ?case using bq.pop_item [OF _ worker_pop(3)] by (auto simp: set_worker_def)
next
  case (worker_exit i p q)
  then show ?case using bq.pop_end [OF _ worker_exit(3)] by (auto simp: set_worker_def)
qed (auto simp: set_worker_def count_dispatch_def pool_request_shutdown_def close_def add_active_def
      add_worker_error_def)

lemma pool_run_config:
  assumes "pool_run h p0 tr p" and "pool_inv [] p0"
  shows "length (workers p) = length (workers p0) \<and> pool_config p = pool_config p0 \<and>
    unat (bq_capacity (pool_queue p)) = unat (bq_capacity (pool_queue p0))"
  using assms(1)
proof (induction rule: pool_run.induct)
  case (step tr p l p')
  moreover have "queue_ok (pool_queue p)" using pool_run_inv [OF step(1) assms(2)] by (simp add: pool_inv_def)
  ultimately show ?case using pool_step_workers [OF step(2)] pool_step_config [OF step(2)] by auto
qed simp

subsection \<open>Counters and traces\<close>

definition counters_match :: "pool_label list \<Rightarrow> worker_pool \<Rightarrow> bool" where
  "counters_match tr p \<longleftrightarrow>
     of_nat (length (accepts tr)) = dispatched_connections (counters p) + of_nat (counting p) \<and>
     rejected_dispatches (counters p) = of_nat (num (\<lambda>l. \<exists>c. l = Refuse c) tr) \<and>
     active_connections (counters p) = of_nat (num is_active (workers p)) \<and>
     worker_errors (counters p) = of_nat (length (throws tr))"

definition totals_match :: "connection_result list \<Rightarrow> pool_counters \<Rightarrow> bool" where
  "totals_match rs cs \<longleftrightarrow>
     completed_connections cs = of_nat (length rs) \<and>
     total_requests_served cs = sum_list (map requests_served rs) \<and>
     total_bytes_read cs = sum_list (map bytes_read rs) \<and>
     total_bytes_written cs = sum_list (map bytes_written rs) \<and>
     peer_closes cs = of_nat (num (\<lambda>r. reason r = PeerClosed) rs) \<and>
     explicit_closes cs = of_nat (num (\<lambda>r. reason r = ConnectionClose) rs) \<and>
     request_limit_closes cs = of_nat (num (\<lambda>r. reason r = RequestLimit) rs) \<and>
     parse_errors cs = of_nat (num (\<lambda>r. reason r = ParseError) rs) \<and>
     read_timeouts cs = of_nat (num (\<lambda>r. reason r = ReadTimeout) rs) \<and>
     keep_alive_timeouts cs = of_nat (num (\<lambda>r. reason r = KeepAliveTimeout) rs) \<and>
     write_timeouts cs = of_nat (num (\<lambda>r. reason r = WriteTimeout) rs) \<and>
     read_errors cs = of_nat (num (\<lambda>r. reason r = ReadError) rs) \<and>
     write_errors cs = of_nat (num (\<lambda>r. reason r = WriteError) rs)"

lemma num_snoc [simp]: "num P (xs @ [x]) = num P xs + (if P x then 1 else 0)" "num P [] = 0"
  by (simp_all add: num_def)

lemma record_result_totals:
  assumes "totals_match rs cs"
  shows "totals_match (rs @ [r]) (record_result r cs)"
  using assms by (cases "reason r") (simp_all add: totals_match_def record_result_def add.commute)

lemma record_result_keeps [simp]:
  "dispatched_connections (record_result r cs) = dispatched_connections cs"
  "rejected_dispatches (record_result r cs) = rejected_dispatches cs"
  "active_connections (record_result r cs) = active_connections cs"
  "worker_errors (record_result r cs) = worker_errors cs"
  by (cases "reason r"; simp add: record_result_def)+

lemma active_update:
  fixes ws :: "worker list"
  assumes "i < length ws"
  shows "(of_nat (num is_active (ws[i := w])) :: size_t) =
    of_nat (num is_active ws) + of_bool (is_active w) - of_bool (is_active (ws ! i))"
proof -
  have "num is_active (ws[i := w]) + of_bool (is_active (ws ! i)) = num is_active ws + of_bool (is_active w)"
    using num_update [OF assms, of is_active w] by (auto split: if_splits)
  then have "(of_nat (num is_active (ws[i := w])) :: size_t) + of_bool (is_active (ws ! i)) =
      of_nat (num is_active ws) + of_bool (is_active w)"
    by (metis of_nat_add of_nat_of_bool)
  then show ?thesis by (simp add: algebra_simps)
qed

lemma pool_step_counters:
  assumes "pool_step h p l p'" and "counters_match tr p" and "totals_match (results tr) (counters p)"
  shows "counters_match (tr @ [l]) p' \<and> totals_match (results (tr @ [l])) (counters p')"
  using assms
proof (induction rule: pool_step.induct)
  case (worker_served i p client result)
  then have "results (tr @ [Finish client result]) = results tr @ [result]" by (simp add: results_def)
  then show ?case
    using worker_served record_result_totals [of "results tr" "counters p" result]
      active_update [of i "workers p" WRecorded]
    by (simp add: counters_match_def set_worker_def accepts_def throws_def)
next
  case (dispatch_count p)
  have "of_nat (counting p) = (of_nat (counting p - 1) :: size_t) + 1"
    using dispatch_count(1) by (metis of_nat_1 of_nat_add Suc_pred' Suc_eq_plus1)
  then show ?case
    using dispatch_count by (simp add: counters_match_def totals_match_def trace_defs count_dispatch_def)
qed (auto simp: counters_match_def totals_match_def trace_defs set_worker_def add_active_def add_worker_error_def
      count_rejection_def pool_request_shutdown_def active_update algebra_simps)

lemma pool_run_counters:
  assumes "pool_run h p0 tr p" and "new_pool n cap cfg e = Inr p0"
  shows "counters_match tr p \<and> totals_match (results tr) (counters p)"
  using assms(1)
proof (induction rule: pool_run.induct)
  case start
  have "num is_active (replicate k WPop) = 0" for k by (simp add: num_def)
  then show ?case using assms(2)
    by (auto simp: new_pool_def counters_match_def totals_match_def trace_defs zero_counters_def
        split: if_splits sum.splits option.splits)
next
  case (step tr p l p')
  then show ?case using pool_step_counters by blast
qed

lemma num_reasons:
  "length rs = num (\<lambda>r. reason r = PeerClosed) rs + num (\<lambda>r. reason r = ConnectionClose) rs +
     num (\<lambda>r. reason r = RequestLimit) rs + num (\<lambda>r. reason r = ParseError) rs +
     num (\<lambda>r. reason r = ReadTimeout) rs + num (\<lambda>r. reason r = KeepAliveTimeout) rs +
     num (\<lambda>r. reason r = WriteTimeout) rs + num (\<lambda>r. reason r = ReadError) rs +
     num (\<lambda>r. reason r = WriteError) rs"
proof (induction rs rule: rev_induct)
  case (snoc r rs)
  then show ?case by (cases "reason r") simp_all
qed simp

lemma handled_length: "length (handled tr) = length (results tr) + length (throws tr)"
proof (induction tr)
  case (Cons l tr)
  then show ?case by (cases l) (simp_all add: trace_defs)
qed (simp add: trace_defs)

inductive_cases finish_step: "pool_step h p (Finish client r) p'"

lemma accepts_mset:
  "pool_inv tr p \<Longrightarrow> mset (accepts tr) =
     mset (bq_queue (pool_queue p)) + mset (in_service (workers p)) + mset (handled tr)"
  by (simp add: pool_inv_def ac_simps)

lemma accepts_length:
  "pool_inv tr p \<Longrightarrow> length (accepts tr) =
     length (bq_queue (pool_queue p)) + length (in_service (workers p)) + length (handled tr)"
  using arg_cong [OF accepts_mset, of tr p size] by simp

lemma pool_run_outcomes:
  assumes "pool_run h p0 tr p" and "pool_inv [] p0" and "r \<in> set (results tr)"
  shows "\<exists>client. connection_outcome h (pool_config p0) client r"
  using assms(1,3)
proof (induction rule: pool_run.induct)
  case (step tr p l p')
  have cfg: "pool_config p = pool_config p0" using pool_run_config [OF step(1) assms(2)] by simp
  show ?case
  proof (cases "r \<in> set (results tr)")
    case False
    then obtain c where "l = Finish c r" using step(4) by (cases l) (auto simp: results_def)
    then have "pool_step h p (Finish c r) p'" using step(2) by simp
    then show ?thesis by (rule finish_step) (use cfg in auto)
  qed (use step in blast)
qed (simp add: results_def)

lemma outcome_limit:
  assumes "connection_outcome h cfg client r"
  shows "requests_served r \<le> max_requests (limits cfg)"
proof -
  obtain t1 t2 c evs c' effs where c: "new_connection client cfg t1 t2 = Inr c"
      "run_ok (conn_step h) is_closed io_ok evs c" "serve h evs c = (Some r, c', effs)"
    using assms by (auto simp: connection_outcome_def)
  have r: "run (conn_step h) is_closed evs c = (c', effs)" "r = conn_result c'"
    using c(3) by (auto simp: serve_run Let_def split: prod.splits if_splits)
  have "conn_inv c'"
    using serve_inv [OF c(3) _ new_connection_inv [OF c(1)]] c(2) by (simp add: io_run_ok_def)
  moreover have "limit c' = max_requests (limits cfg)"
    using serve_config [OF r(1)] c(1) by (auto simp: new_connection_def Let_def split: if_splits)
  ultimately show ?thesis using r(2) by (simp add: conn_inv_def)
qed

subsection \<open>Shutdown\<close>

fun worker_label :: "pool_label \<Rightarrow> bool" where
  "worker_label (Take c) = True"
| "worker_label Exit = True"
| "worker_label (Begin c) = True"
| "worker_label (Finish c r) = True"
| "worker_label (Throw c) = True"
| "worker_label End = True"
| "worker_label l = False"

fun weight :: "worker \<Rightarrow> nat" where
  "weight (WPopped c) = 4"
| "weight (WServing c) = 3"
| "weight WRecorded = 2"
| "weight WPop = 1"
| "weight WExited = 0"

definition pool_weight :: "worker_pool \<Rightarrow> nat" where
  "pool_weight p = sum_list (map weight (workers p)) + 4 * length (bq_queue (pool_queue p))"

lemma weight_update:
  "i < length ws \<Longrightarrow>
     sum_list (map weight (ws[i := w])) + weight (ws ! i) = sum_list (map weight ws) + weight w"
proof (induction ws arbitrary: i)
  case (Cons v ws)
  then show ?case by (cases i) auto
qed simp

lemma weight_bound: "sum_list (map weight ws) \<le> 4 * length ws"
proof (induction ws)
  case (Cons w ws)
  then show ?case by (cases w) auto
qed simp

lemma worker_step_weight:
  assumes "pool_step h p l p'" and "worker_label l" and "queue_ok (pool_queue p)"
  shows "pool_weight p' < pool_weight p"
  using assms
proof (induction rule: pool_step.induct)
  case (worker_pop i p client q)
  then show ?case
    using bq.pop_item [OF worker_pop(5,3)] weight_update [of i "workers p" "WPopped client"]
    by (simp add: pool_weight_def set_worker_def)
next
  case (worker_exit i p q)
  then show ?case
    using bq.pop_end [OF worker_exit(5,3)] weight_update [of i "workers p" WExited]
    by (simp add: pool_weight_def set_worker_def)
next
  case (worker_begin i p client)
  then show ?case using weight_update [of i "workers p" "WServing client"]
    by (simp add: pool_weight_def set_worker_def add_active_def)
next
  case (worker_served i p client result)
  then show ?case using weight_update [of i "workers p" WRecorded]
    by (simp add: pool_weight_def set_worker_def)
next
  case (worker_threw i p client)
  then show ?case using weight_update [of i "workers p" WRecorded]
    by (simp add: pool_weight_def set_worker_def add_worker_error_def)
next
  case (worker_end i p)
  then show ?case using weight_update [of i "workers p" WPop]
    by (simp add: pool_weight_def set_worker_def add_active_def)
qed simp_all

lemma worker_run_weight:
  assumes "pool_run h p tr p'" and "list_all worker_label tr" and "pool_inv tr0 p"
  shows "length tr + pool_weight p' \<le> pool_weight p \<and> pool_inv (tr0 @ tr) p'"
  using assms(1,2)
proof (induction rule: pool_run.induct)
  case (step tr q l q')
  then have "pool_inv (tr0 @ tr) q" "worker_label l" "length tr + pool_weight q \<le> pool_weight p" by auto
  then show ?case
    using worker_step_weight [OF step(2)] pool_step_inv [OF step(2)] by (fastforce simp: pool_inv_def)
qed (use assms(3) in simp)

lemma worker_progress:
  assumes "queue_ok (pool_queue p)" and "bq_closed (pool_queue p) \<or> bq_queue (pool_queue p) \<noteq> []"
    and "w \<in> set (workers p)" and "w \<noteq> WExited"
  shows "\<exists>l p'. worker_label l \<and> pool_step h p l p'"
proof -
  obtain i where i: "i < length (workers p)" "workers p ! i = w" using assms(3) by (auto simp: in_set_conv_nth)
  show ?thesis
  proof (cases w)
    case WPop
    show ?thesis
    proof (cases "pop (pool_queue p)")
      case None
      then show ?thesis using bq.pop_waits [OF assms(1)] assms(2) by simp
    next
      case (Some r)
      obtain item q where "r = (item, q)" by (cases r)
      then show ?thesis
        using Some i WPop worker_pop [of i p _ q h] worker_exit [of i p q h]
        by (cases item) (metis worker_label.simps)+
    qed
  qed (use i assms(4) worker_begin worker_threw worker_end in \<open>metis worker_label.simps\<close>)+
qed

lemma pool_request_shutdown_simps [simp]:
  "bq_closed (pool_queue (pool_request_shutdown p))" "workers (pool_request_shutdown p) = workers p"
  "counting (pool_request_shutdown p) = counting p" "counters (pool_request_shutdown p) = counters p"
  "bq_queue (pool_queue (pool_request_shutdown p)) = bq_queue (pool_queue p)"
  by (simp_all add: pool_request_shutdown_def close_def)

lemma pool_step_closed:
  assumes "pool_step h p l p'" and "queue_ok (pool_queue p)"
  shows "bq_closed (pool_queue p') \<longleftrightarrow> bq_closed (pool_queue p) \<or> l = Shutdown"
  using assms
proof (induction rule: pool_step.induct)
  case (dispatch_push client p q)
  then show ?case using bq.push_accepted [OF dispatch_push(2,1)] by auto
next
  case (dispatch_refused client p q)
  then show ?case using bq.push_refused [OF dispatch_refused(2,1)] by (simp add: count_rejection_def)
next
  case (worker_pop i p client q)
  then show ?case using bq.pop_item [OF worker_pop(4,3)] by (simp add: set_worker_def)
next
  case (worker_exit i p q)
  then show ?case using bq.pop_end [OF worker_exit(4,3)] by (simp add: set_worker_def)
qed (simp_all add: set_worker_def count_dispatch_def add_active_def add_worker_error_def)

inductive_cases refuse_step: "pool_step h p (Refuse c) p'"

lemma refuse_closed:
  assumes "pool_step h p (Refuse c) p'" and "queue_ok (pool_queue p)"
  shows "bq_closed (pool_queue p')"
  using assms(1)
proof (rule refuse_step)
  fix q assume "push c (pool_queue p) = Some (False, q)" "p' = count_rejection (p\<lparr>pool_queue := q\<rparr>)"
  then show ?thesis using bq.push_refused [OF assms(2)] by (auto simp: count_rejection_def)
qed

lemma pool_step_counting:
  "pool_step h p l p' \<Longrightarrow>
     counting p' = (case l of Accept c \<Rightarrow> counting p + 1 | Count \<Rightarrow> counting p - 1 | _ \<Rightarrow> counting p)"
  by (induction rule: pool_step.induct)
     (auto simp: set_worker_def count_dispatch_def count_rejection_def add_active_def add_worker_error_def)

lemma worker_step_not_exited:
  "pool_step h p l p' \<Longrightarrow> worker_label l \<Longrightarrow> \<exists>w \<in> set (workers p). w \<noteq> WExited"
  by (induction rule: pool_step.induct) (force simp: in_set_conv_nth)+

lemma worker_label_counting: "pool_step h p l p' \<Longrightarrow> worker_label l \<Longrightarrow> counting p' = counting p"
  using pool_step_counting [of h p l p'] by (cases l) auto

lemma new_pool_start:
  "new_pool n cap cfg e = Inr p \<Longrightarrow>
     \<not> bq_closed (pool_queue p) \<and> counting p = 0 \<and> length (workers p) = unat n \<and> 0 < unat n"
  by (auto simp: new_pool_def new_queue_def unat_gt_0 split: if_splits option.splits)

lemma pool_step_weight:
  assumes "pool_step h p l p'" and "queue_ok (pool_queue p)"
  shows "pool_weight p' + of_bool (worker_label l) \<le> pool_weight p + (case l of Accept c \<Rightarrow> 4 | _ \<Rightarrow> 0)"
proof (cases "worker_label l")
  case True
  then show ?thesis using worker_step_weight [OF assms(1) True assms(2)] by simp
next
  case False
  with assms show ?thesis
  proof (induction rule: pool_step.induct)
    case (dispatch_push client p q)
    then show ?case using bq.push_accepted [OF dispatch_push(2,1)] by (simp add: pool_weight_def)
  next
    case (dispatch_refused client p q)
    then show ?case using bq.push_refused [OF dispatch_refused(2,1)]
      by (simp add: pool_weight_def count_rejection_def)
  qed (simp_all add: pool_weight_def count_dispatch_def)
qed

lemma pool_run_workers: "pool_run h p0 tr p \<Longrightarrow> length (workers p) = length (workers p0)"
  by (induction rule: pool_run.induct) (auto dest: pool_step_workers)

lemma worker_run_closed:
  assumes "pool_run h p tr p'" and "list_all worker_label tr" and "pool_inv tr0 p"
  shows "bq_closed (pool_queue p') = bq_closed (pool_queue p)"
  using assms(1,2)
proof (induction rule: pool_run.induct)
  case (step tr q l q')
  then have "queue_ok (pool_queue q)"
    using worker_run_weight [OF step(1) _ assms(3)] by (auto simp: pool_inv_def)
  then show ?case using step pool_step_closed [OF step(2)] by auto
qed simp


lemma drained_pool:
  assumes "new_pool n cap cfg None = Inr p0" and "pool_run h p0 tr p"
    and "\<forall>w \<in> set (workers p). w = WExited"
  shows "bq_closed (pool_queue p) \<and> bq_queue (pool_queue p) = [] \<and>
    mset (accepts tr) = mset (handled tr) \<and> active_connections (counters p) = 0 \<and>
    dispatched_connections (counters p) + of_nat (counting p) =
      completed_connections (counters p) + worker_errors (counters p)"
proof -
  have inv: "pool_inv tr p" by (rule pool_run_inv [OF assms(2) new_pool_inv [OF assms(1)]])
  have c: "counters_match tr p" "totals_match (results tr) (counters p)"
    using pool_run_counters [OF assms(2,1)] by simp_all
  have "length (workers p) = unat n"
    using pool_run_config [OF assms(2) new_pool_inv [OF assms(1)]] assms(1)
    by (auto simp: new_pool_def new_queue_def split: if_splits)
  moreover have "0 < unat n"
    using assms(1) by (auto simp: new_pool_def new_queue_def unat_gt_0 split: if_splits)
  ultimately have "WExited \<in> set (workers p)"
    using assms(3) by (metis length_pos_if_in_set length_greater_0_conv hd_in_set)
  then have q: "bq_closed (pool_queue p)" "bq_queue (pool_queue p) = []"
    using inv by (auto simp: pool_inv_def)
  have "in_service (workers p) = []" "num is_active (workers p) = 0"
    using assms(3) by (auto simp: in_service_def num_zero)
  then show ?thesis
    using q accepts_mset [OF inv] accepts_length [OF inv] c handled_length [of tr]
    by (simp add: counters_match_def totals_match_def)
qed

subsection \<open>Properties\<close>

text \<open>
  C12. Ownership and back-pressure. In every interleaving of dispatches, workers and shutdown,
  the accepted client descriptors are taken by workers in the order of acceptance; each of
  them is in exactly one place: in the queue, in the hands of a worker, or handled; and no
  more are outstanding than the workers and the queue can hold.
\<close>

theorem pool_ownership:
  assumes "new_pool n cap cfg None = Inr p0" and "pool_run h p0 tr p"
  shows "accepts tr = takes tr @ bq_queue (pool_queue p) \<and>
    mset (accepts tr) =
      mset (bq_queue (pool_queue p)) + mset (in_service (workers p)) + mset (handled tr) \<and>
    length (accepts tr) \<le> length (handled tr) + unat n + unat cap"
proof -
  have inv: "pool_inv tr p" by (rule pool_run_inv [OF assms(2) new_pool_inv [OF assms(1)]])
  have "length (workers p) = unat n" "unat (bq_capacity (pool_queue p)) = unat cap"
    using pool_run_config [OF assms(2) new_pool_inv [OF assms(1)]] assms(1)
    by (auto simp: new_pool_def new_queue_def split: if_splits sum.splits)
  moreover have "length (bq_queue (pool_queue p)) \<le> unat (bq_capacity (pool_queue p))"
    using bq.room_pos inv by (auto simp: pool_inv_def)
  ultimately show ?thesis
    using inv accepts_mset [OF inv] accepts_length [OF inv] in_service_length [of "workers p"]
    by (simp add: pool_inv_def)
qed

definition sample_pool :: worker_pool where
  "sample_pool = \<lparr>pool_queue = \<lparr>bq_capacity = 2, bq_queue = [], high_water_mark = 0, bq_closed = False\<rparr>,
     pool_config = default_config, workers = [WPop], counters = zero_counters, counting = 0\<rparr>"

definition sample_pool2 :: worker_pool where
  "sample_pool2 = sample_pool\<lparr>pool_queue := \<lparr>bq_capacity = 2, bq_queue = [7], high_water_mark = 1, bq_closed = False\<rparr>,
     counting := 1\<rparr>"

lemma sample_pool_new: "new_pool 1 2 default_config None = Inr sample_pool"
  by (simp add: new_pool_def new_queue_def sample_pool_def)

lemma sample_pool_run: "pool_run h sample_pool [Accept 7] sample_pool2"
proof -
  have "push 7 (pool_queue sample_pool) = Some (True, pool_queue sample_pool2)"
    by (simp add: push_def may_push_def sample_pool_def sample_pool2_def)
  from pool_step.dispatch_push [OF this, of h] have "pool_step h sample_pool (Accept 7) sample_pool2"
    by (simp add: sample_pool_def sample_pool2_def)
  then show ?thesis using pool_run.step [OF pool_run.start] by fastforce
qed

theorem pool_ownership_witness:
  "accepts [Accept 7] = takes [Accept 7] @ bq_queue (pool_queue sample_pool2) \<and>
   length (accepts [Accept 7]) \<le> length (handled [Accept 7]) + unat (1 :: size_t) + unat (2 :: size_t)"
  using pool_ownership [OF sample_pool_new sample_pool_run [of site_handler]] by blast

text \<open>
  Accounting. At every moment the connections dispatched (with those just queued and not
  yet counted) are the connections queued, in service, completed and failed; the completed ones
  are split exactly over the nine end reasons; \<open>active_connections\<close> is the number of workers
  between their two updates of it; and the request total is the sum over the completed
  connections, none of which exceeds the configured request limit. All counters are modulo the
  width of \<open>size_t\<close>.
\<close>

theorem pool_accounting:
  assumes "new_pool n cap cfg None = Inr p0" and "pool_run h p0 tr p"
  defines "cs \<equiv> counters p"
  shows "dispatched_connections cs + of_nat (counting p) =
      of_nat (length (bq_queue (pool_queue p))) + of_nat (length (in_service (workers p))) +
      completed_connections cs + worker_errors cs \<and>
    completed_connections cs = peer_closes cs + explicit_closes cs + request_limit_closes cs +
      parse_errors cs + read_timeouts cs + keep_alive_timeouts cs + write_timeouts cs +
      read_errors cs + write_errors cs \<and>
    active_connections cs = of_nat (num is_active (workers p)) \<and>
    total_requests_served cs = sum_list (map requests_served (results tr)) \<and>
    list_all (\<lambda>r. requests_served r \<le> max_requests (limits cfg)) (results tr)"
proof -
  have inv: "pool_inv tr p" by (rule pool_run_inv [OF assms(2) new_pool_inv [OF assms(1)]])
  have c: "counters_match tr p" "totals_match (results tr) cs"
    using pool_run_counters [OF assms(2,1)] by (simp_all add: cs_def)
  have "length (accepts tr) = length (bq_queue (pool_queue p)) + length (in_service (workers p)) +
      length (results tr) + length (throws tr)"
    using accepts_length [OF inv] handled_length [of tr] by simp
  then have "(of_nat (length (accepts tr)) :: size_t) =
      of_nat (length (bq_queue (pool_queue p))) + of_nat (length (in_service (workers p))) +
      of_nat (length (results tr)) + of_nat (length (throws tr))" by simp
  moreover have "pool_config p0 = cfg"
    using assms(1) by (auto simp: new_pool_def new_queue_def split: if_splits)
  then have "list_all (\<lambda>r. requests_served r \<le> max_requests (limits cfg)) (results tr)"
    using pool_run_outcomes [OF assms(2) new_pool_inv [OF assms(1)]] outcome_limit
    unfolding list_all_iff by blast
  moreover have "(of_nat (length (results tr)) :: size_t) = of_nat (
      num (\<lambda>r. reason r = PeerClosed) (results tr) + num (\<lambda>r. reason r = ConnectionClose) (results tr) +
      num (\<lambda>r. reason r = RequestLimit) (results tr) + num (\<lambda>r. reason r = ParseError) (results tr) +
      num (\<lambda>r. reason r = ReadTimeout) (results tr) + num (\<lambda>r. reason r = KeepAliveTimeout) (results tr) +
      num (\<lambda>r. reason r = WriteTimeout) (results tr) + num (\<lambda>r. reason r = ReadError) (results tr) +
      num (\<lambda>r. reason r = WriteError) (results tr))"
    by (subst num_reasons) (rule refl)
  ultimately show ?thesis
    using c by (simp add: counters_match_def totals_match_def cs_def)
qed

theorem pool_accounting_witness:
  "dispatched_connections (counters sample_pool2) + of_nat (counting sample_pool2) =
      of_nat (length (bq_queue (pool_queue sample_pool2))) + of_nat (length (in_service (workers sample_pool2))) +
      completed_connections (counters sample_pool2) + worker_errors (counters sample_pool2)"
  using pool_accounting [OF sample_pool_new sample_pool_run [of site_handler]] by blast


text \<open>
  Draining. When all workers have exited, the queue is closed and empty, no connection is
  active, and exactly the accepted connections have been handled, each once; once the last
  dispatch is counted, the counter of dispatches is the sum of completed and failed ones.
\<close>

theorem pool_drained:
  assumes "new_pool n cap cfg None = Inr p0" and "pool_run h p0 tr p"
    and "\<forall>w \<in> set (workers p). w = WExited"
  shows "bq_closed (pool_queue p) \<and> bq_queue (pool_queue p) = [] \<and>
    mset (accepts tr) = mset (handled tr) \<and> active_connections (counters p) = 0 \<and>
    dispatched_connections (counters p) + of_nat (counting p) =
      completed_connections (counters p) + worker_errors (counters p)"
  by (rule drained_pool [OF assms])

theorem pool_drained_witness:
  "\<exists>tr p. pool_run site_handler sample_pool tr p \<and> workers p = [WExited] \<and> bq_closed (pool_queue p) \<and>
     mset (accepts tr) = mset (handled tr)"
proof -
  let ?p = "pool_request_shutdown sample_pool"
  let ?p' = "set_worker 0 WExited (?p\<lparr>pool_queue := pool_queue ?p\<rparr>)"
  have "pool_step site_handler ?p Exit ?p'"
    by (rule worker_exit) (simp_all add: pool_request_shutdown_def sample_pool_def pop_def may_pop_def close_def)
  then have r: "pool_run site_handler sample_pool ([] @ [Shutdown] @ [Exit]) ?p'"
    using pool_run.step [OF pool_run.step [OF pool_run.start pool_step.shutdown]] by fastforce
  have w: "workers ?p' = [WExited]"
    by (simp add: set_worker_def pool_request_shutdown_def sample_pool_def)
  from pool_drained [OF sample_pool_new r] r w show ?thesis by (metis empty_iff empty_set set_ConsD)
qed

text \<open>
  Shutdown ends. After the queue is closed the workers make only finitely many steps (at
  most four for each worker and queued connection), and as long as one of them has not
  exited, one of them can make a step: \<open>shutdown\<close> joins every thread.
\<close>

theorem pool_shutdown_ends:
  assumes "new_pool n cap cfg None = Inr p0" and "pool_run h p0 tr p" and "bq_closed (pool_queue p)"
    and "pool_run h p tr' p'" and "list_all worker_label tr'"
  shows "length tr' \<le> 4 * (unat n + length (bq_queue (pool_queue p))) \<and>
    ((\<forall>w \<in> set (workers p'). w = WExited) \<or> (\<exists>l p''. worker_label l \<and> pool_step h p' l p''))"
proof -
  have inv: "pool_inv tr p" by (rule pool_run_inv [OF assms(2) new_pool_inv [OF assms(1)]])
  have w: "length tr' + pool_weight p' \<le> pool_weight p" "queue_ok (pool_queue p')"
    using worker_run_weight [OF assms(4,5) inv] by (auto simp: pool_inv_def)
  have "length (workers p) = unat n"
    using pool_run_config [OF assms(2) new_pool_inv [OF assms(1)]] assms(1)
    by (auto simp: new_pool_def new_queue_def split: if_splits)
  then have "pool_weight p \<le> 4 * (unat n + length (bq_queue (pool_queue p)))"
    using weight_bound [of "workers p"] by (simp add: pool_weight_def)
  moreover have "bq_closed (pool_queue p')" using worker_run_closed [OF assms(4,5) inv] assms(3) by simp
  ultimately show ?thesis using w worker_progress [OF w(2)] by fastforce
qed

theorem pool_shutdown_ends_witness:
  "(\<exists>l p''. worker_label l \<and> pool_step site_handler (pool_request_shutdown sample_pool) l p'')"
proof -
  let ?p = "pool_request_shutdown sample_pool"
  have r: "pool_run site_handler sample_pool ([] @ [Shutdown]) ?p"
    by (rule pool_run.step [OF pool_run.start pool_step.shutdown])
  have c: "bq_closed (pool_queue ?p)" by (simp add: pool_request_shutdown_def close_def)
  have "\<not> (\<forall>w \<in> set (workers ?p). w = WExited)" by (simp add: pool_request_shutdown_def sample_pool_def)
  then show ?thesis using pool_shutdown_ends [OF sample_pool_new r c pool_run.start] by auto
qed

end
