(* ===== verification/Tcp_Listener.thy ===== *)
theory Tcp_Listener
  imports Connection
begin

section \<open>The listening socket\<close>

text \<open>
  Models \<open>include/http/tcp_listener.hpp\<close> and \<open>src/tcp_listener.cpp\<close>. The answers of the
  system calls that set up the socket are one record; the calls made are logged, with the
  \<open>close\<close> that the destructor of the local \<open>Fd\<close> makes when an exception leaves
  \<open>bind_ipv4\<close>. Ports are 16-bit words, swapped to and from network order.
\<close>

unbundle bit_operations_syntax

type_synonym uint16 = "16 word"

record tcp_listener =
  lst_fd :: int
  lst_port :: uint16

record sockaddr_in =
  sin_port :: uint16
  sin_addr :: "32 word"

record bind_env =
  be_socket :: "errno + int"
  be_reuse :: "errno option"
  be_pton :: "bytes \<Rightarrow> 32 word option"
  be_bind :: "errno option"
  be_listen :: "errno option"
  be_getsockname :: "errno + sockaddr_in"
  be_strerror :: "errno \<Rightarrow> bytes"

datatype listener_call = CallSocket | CallReuse int | CallBind int sockaddr_in | CallListen int int
  | CallName int | CallClose int

definition htons :: "uint16 \<Rightarrow> uint16" where
  "htons p = (push_bit 8 p OR drop_bit 8 p)"

definition ntohs :: "uint16 \<Rightarrow> uint16" where
  "ntohs p = (push_bit 8 p OR drop_bit 8 p)"

definition syscall_error :: "(errno \<Rightarrow> bytes) \<Rightarrow> bytes \<Rightarrow> errno \<Rightarrow> bytes" where
  "syscall_error strerror operation e = operation @ '': '' @ strerror e"

definition make_ipv4_address :: "(bytes \<Rightarrow> 32 word option) \<Rightarrow> bytes \<Rightarrow> uint16 \<Rightarrow> bytes + sockaddr_in" where
  "make_ipv4_address pton address port =
     (case pton address of
        None \<Rightarrow> Inl (''invalid IPv4 address: '' @ address)
      | Some a \<Rightarrow> Inr \<lparr>sin_port = htons port, sin_addr = a\<rparr>)"

definition bound_port :: "bind_env \<Rightarrow> bytes + uint16" where
  "bound_port env =
     (case be_getsockname env of
        Inl e \<Rightarrow> Inl (syscall_error (be_strerror env) ''getsockname'' e)
      | Inr addr \<Rightarrow> Inr (ntohs (sin_port addr)))"

definition bind_ipv4 ::
  "bind_env \<Rightarrow> uint16 \<Rightarrow> int \<Rightarrow> bytes \<Rightarrow> (bytes + tcp_listener) \<times> listener_call list" where
  "bind_ipv4 env port backlog address =
     (let err = syscall_error (be_strerror env)
      in case be_socket env of
           Inl e \<Rightarrow> (Inl (err ''socket'' e), [CallSocket])
         | Inr f \<Rightarrow>
           (case be_reuse env of
              Some e \<Rightarrow> (Inl (err ''setsockopt(SO_REUSEADDR)'' e), [CallSocket, CallReuse f, CallClose f])
            | None \<Rightarrow>
              (case make_ipv4_address (be_pton env) address port of
                 Inl msg \<Rightarrow> (Inl msg, [CallSocket, CallReuse f, CallClose f])
               | Inr addr \<Rightarrow>
                 (case be_bind env of
                    Some e \<Rightarrow> (Inl (err ''bind'' e), [CallSocket, CallReuse f, CallBind f addr, CallClose f])
                  | None \<Rightarrow>
                    (case be_listen env of
                       Some e \<Rightarrow> (Inl (err ''listen'' e),
                          [CallSocket, CallReuse f, CallBind f addr, CallListen f backlog, CallClose f])
                     | None \<Rightarrow>
                       (case bound_port env of
                          Inl msg \<Rightarrow> (Inl msg,
                            [CallSocket, CallReuse f, CallBind f addr, CallListen f backlog, CallName f, CallClose f])
                        | Inr assigned_port \<Rightarrow> (Inr \<lparr>lst_fd = f, lst_port = assigned_port\<rparr>,
                            [CallSocket, CallReuse f, CallBind f addr, CallListen f backlog, CallName f])))))))"

text \<open>
  The loop of \<open>accept\<close> on the successive answers of the system call; \<open>None\<close> while it waits.
\<close>

fun accept_loop :: "(errno \<Rightarrow> bytes) \<Rightarrow> (errno + int) list \<Rightarrow> (bytes + int) option" where
  "accept_loop strerror [] = None"
| "accept_loop strerror (Inr client # answers) = Some (Inr client)"
| "accept_loop strerror (Inl e # answers) =
     (if e \<noteq> EINTR then Some (Inl (syscall_error strerror ''accept'' e)) else accept_loop strerror answers)"

subsection \<open>Network byte order\<close>

lemma swap_bit:
  "bit (push_bit 8 p OR drop_bit 8 p :: uint16) n \<longleftrightarrow> n < 16 \<and> bit p (if n < 8 then 8 + n else n - 8)"
  using bit_imp_le_length [of p "8 + n"]
  by (auto simp: bit_or_iff bit_push_bit_iff bit_drop_bit_eq dest: bit_imp_le_length)

lemma ntohs_htons: "ntohs (htons p) = p"
proof (rule bit_word_eqI)
  fix n assume "n < LENGTH(16)"
  then show "bit (ntohs (htons p)) n = bit p n"
    unfolding ntohs_def htons_def swap_bit by auto
qed

subsection \<open>Properties\<close>

text \<open>
  Binding does not leak and reports its port. When \<open>bind_ipv4\<close> fails after the socket was
  created, the last call closes that socket, which was not closed before; when it succeeds the
  socket stays open and is the listener's, it was bound to the requested address with the
  requested port in network order, and if the kernel reports the address that was bound, the
  listener's port is the requested one.
\<close>

theorem bind_outcome:
  assumes "be_socket env = Inr f" and "bind_ipv4 env port backlog address = (r, calls)"
  shows "case r of
      Inl msg \<Rightarrow> \<exists>before. calls = before @ [CallClose f] \<and> CallClose f \<notin> set before
    | Inr l \<Rightarrow> lst_fd l = f \<and> CallClose f \<notin> set calls \<and>
        (\<exists>addr. be_pton env address = Some (sin_addr addr) \<and> CallBind f addr \<in> set calls \<and>
           ntohs (sin_port addr) = port \<and>
           (be_getsockname env = Inr addr \<longrightarrow> lst_port l = port))"
  using assms
  by (auto simp: bind_ipv4_def make_ipv4_address_def bound_port_def Let_def ntohs_htons
      split: sum.splits option.splits)

definition sample_bind :: bind_env where
  "sample_bind = \<lparr>be_socket = Inr 3, be_reuse = None, be_pton = (\<lambda>a. Some 2130706433), be_bind = None,
     be_listen = None, be_getsockname = Inr \<lparr>sin_port = htons 8080, sin_addr = 2130706433\<rparr>,
     be_strerror = (\<lambda>e. ''error'')\<rparr>"

theorem bind_outcome_witness:
  "\<exists>l calls. bind_ipv4 sample_bind 8080 128 ''127.0.0.1'' = (Inr l, calls) \<and> lst_fd l = 3 \<and> lst_port l = 8080"
proof -
  obtain l calls where b: "bind_ipv4 sample_bind 8080 128 ''127.0.0.1'' = (Inr l, calls)"
    by (simp add: bind_ipv4_def sample_bind_def make_ipv4_address_def bound_port_def)
  have s: "be_socket sample_bind = Inr 3" by (simp add: sample_bind_def)
  have "lst_port l = 8080"
    using b by (auto simp: bind_ipv4_def sample_bind_def make_ipv4_address_def bound_port_def ntohs_htons)
  then show ?thesis using bind_outcome [OF s b] b by auto
qed

text \<open>
  Interrupted accepts are retried. After any number of interruptions by signals, \<open>accept\<close>
  returns the first descriptor the kernel hands out, or throws the first other error.
\<close>

theorem accept_retries:
  assumes "answer \<noteq> Inl EINTR"
  shows "accept_loop strerror (replicate n (Inl EINTR) @ answer # rest) =
    Some (case answer of Inr client \<Rightarrow> Inr client
          | Inl e \<Rightarrow> Inl (syscall_error strerror ''accept'' e))"
  using assms by (induction n) (auto split: sum.splits)

theorem accept_retries_witness:
  "accept_loop (\<lambda>e. ''x'') (replicate 2 (Inl EINTR) @ Inr 9 # []) = Some (Inr 9)"
  using accept_retries [of "Inr 9" "\<lambda>e. ''x''" 2 "[]"] by simp

end
