(* ===== verification/Server.thy ===== *)
theory Server
  imports Worker_Pool Tcp_Listener
begin

section \<open>The server\<close>

text \<open>
  Models \<open>include/http/server.hpp\<close> and \<open>src/server.cpp\<close>: the construction of an
  \<open>HttpServer\<close> over the answers of the system calls, and its execution as interleaved steps of
  the thread in \<open>serve_forever\<close> (later in the destructor), the workers of the pool, threads in
  \<open>request_shutdown\<close> and the signal handler of \<open>src/main.cpp\<close>, which writes to the
  notification pipe. Nothing ever reads the pipe; a write to a full pipe fails.
\<close>

subsection \<open>Construction\<close>

record pipe_env =
  pe_pipe :: "errno + int \<times> int"
  pe_cloexec :: "int \<Rightarrow> errno option"
  pe_getfl :: "errno + 32 word"
  pe_setfl :: "errno option"

datatype pipe_call = CallPipe | CallCloexec int | CallGetfl int | CallSetfl int "32 word" | ClosePipe int

definition O_NONBLOCK :: "32 word" where
  "O_NONBLOCK = 2048"

text \<open>
  The two descriptors are members of an array of \<open>Fd\<close>, destroyed in reverse order when an
  exception leaves the function.
\<close>

definition make_shutdown_pipe ::
  "(errno \<Rightarrow> bytes) \<Rightarrow> pipe_env \<Rightarrow> (bytes + int \<times> int) \<times> pipe_call list" where
  "make_shutdown_pipe strerror env =
     (let err = syscall_error strerror
      in case pe_pipe env of
           Inl e \<Rightarrow> (Inl (err ''pipe'' e), [CallPipe])
         | Inr (r, w) \<Rightarrow>
           (case pe_cloexec env r of
              Some e \<Rightarrow> (Inl (err ''fcntl(FD_CLOEXEC)'' e), [CallPipe, CallCloexec r, ClosePipe w, ClosePipe r])
            | None \<Rightarrow>
              (case pe_cloexec env w of
                 Some e \<Rightarrow> (Inl (err ''fcntl(FD_CLOEXEC)'' e),
                   [CallPipe, CallCloexec r, CallCloexec w, ClosePipe w, ClosePipe r])
               | None \<Rightarrow>
                 (case pe_getfl env of
                    Inl e \<Rightarrow> (Inl (err ''fcntl(O_NONBLOCK)'' e),
                      [CallPipe, CallCloexec r, CallCloexec w, CallGetfl w, ClosePipe w, ClosePipe r])
                  | Inr flags \<Rightarrow>
                    (case pe_setfl env of
                       Some e \<Rightarrow> (Inl (err ''fcntl(O_NONBLOCK)'' e),
                         [CallPipe, CallCloexec r, CallCloexec w, CallGetfl w,
                          CallSetfl w (flags OR O_NONBLOCK), ClosePipe w, ClosePipe r])
                     | None \<Rightarrow> (Inr (r, w),
                         [CallPipe, CallCloexec r, CallCloexec w, CallGetfl w,
                          CallSetfl w (flags OR O_NONBLOCK)]))))))"

datatype ending = Returning | Destroying

datatype main_pc = MCheck | MPoll | MAccept | MAccepted int | MDispatch int | MCounting | MRefused
  | MStop ending | MStopClose ending | MStopWrite ending | MShutdown ending | MJoin ending
  | MReturned | MThrew bytes | MDestroyed

datatype requester = RClose | RWrite

record http_server =
  file_handler :: static_file_handler
  listener :: tcp_listener
  srv_pool :: worker_pool
  shutdown_pipe :: "int \<times> int"
  accepted_connections :: size_t
  shutdown_requested :: bool
  pipe_bytes :: nat
  pipe_capacity :: nat
  requesters :: "requester list"
  main_pc :: main_pc

record server_env =
  se_fs :: fs_env
  se_canonical_error :: bytes
  se_bind :: bind_env
  se_spawn :: "bytes option"
  se_pipe :: pipe_env
  se_pipe_capacity :: nat

datatype setup_call = Listening listener_call | Piping pipe_call

text \<open>
  The constructor builds the members in their order; an exception destroys those already
  built, so that a failure after \<open>bind_ipv4\<close> closes the listening socket.
\<close>

definition new_server ::
  "server_env \<Rightarrow> path \<Rightarrow> uint16 \<Rightarrow> int \<Rightarrow> bytes \<Rightarrow> connection_config \<Rightarrow> size_t \<Rightarrow> size_t \<Rightarrow>
     (bytes + http_server) \<times> setup_call list" where
  "new_server env document_root port backlog address cfg worker_count queue_capacity =
     (case new_handler (se_fs env) document_root default_max_file_bytes of
        None \<Rightarrow> (Inl (se_canonical_error env), [])
      | Some h \<Rightarrow>
        (case bind_ipv4 (se_bind env) port backlog address of
           (Inl err, calls) \<Rightarrow> (Inl err, map Listening calls)
         | (Inr l, calls) \<Rightarrow>
           (case new_pool worker_count queue_capacity cfg (se_spawn env) of
              Inl err \<Rightarrow> (Inl err, map Listening (calls @ [CallClose (lst_fd l)]))
            | Inr p \<Rightarrow>
              (case make_shutdown_pipe (be_strerror (se_bind env)) (se_pipe env) of
                 (Inl err, calls') \<Rightarrow>
                   (Inl err, map Listening calls @ map Piping calls' @ [Listening (CallClose (lst_fd l))])
               | (Inr fds, calls') \<Rightarrow>
                   (Inr \<lparr>file_handler = h, listener = l, srv_pool = p, shutdown_pipe = fds,
                      accepted_connections = 0, shutdown_requested = False, pipe_bytes = 0,
                      pipe_capacity = se_pipe_capacity env, requesters = [], main_pc = MCheck\<rparr>,
                    map Listening calls @ map Piping calls')))))"

record http_server_stats =
  stats_accepted :: size_t
  stats_workers :: worker_pool_stats

definition server_stats :: "http_server \<Rightarrow> http_server_stats" where
  "server_stats s = \<lparr>stats_accepted = accepted_connections s, stats_workers = pool_stats (srv_pool s)\<rparr>"

definition server_port :: "http_server \<Rightarrow> uint16" where
  "server_port s = lst_port (listener s)"

definition shutdown_notification_fd :: "http_server \<Rightarrow> int" where
  "shutdown_notification_fd s = snd (shutdown_pipe s)"

subsection \<open>Execution\<close>

definition notify :: "http_server \<Rightarrow> http_server" where
  "notify s = (if pipe_bytes s < pipe_capacity s then s\<lparr>pipe_bytes := pipe_bytes s + 1\<rparr> else s)"

definition close_pool :: "http_server \<Rightarrow> http_server" where
  "close_pool s = s\<lparr>srv_pool := pool_request_shutdown (srv_pool s)\<rparr>"

fun in_destructor :: "main_pc \<Rightarrow> bool" where
  "in_destructor (MStop e) = (e = Destroying)"
| "in_destructor (MStopClose e) = (e = Destroying)"
| "in_destructor (MStopWrite e) = (e = Destroying)"
| "in_destructor (MShutdown e) = (e = Destroying)"
| "in_destructor (MJoin e) = (e = Destroying)"
| "in_destructor pc = (pc = MDestroyed)"

fun ended :: "ending \<Rightarrow> main_pc" where
  "ended Returning = MReturned"
| "ended Destroying = MDestroyed"

datatype server_label = Pool pool_label | Main | Retry | Request | Signal | Destroy

inductive server_step ::
  "(errno \<Rightarrow> bytes) \<Rightarrow> http_server \<Rightarrow> server_label \<Rightarrow> http_server \<Rightarrow> bool" for strerror where
  loop_check: "main_pc s = MCheck \<Longrightarrow>
     server_step strerror s Main
       (s\<lparr>main_pc := if shutdown_requested s then MShutdown Returning else MPoll\<rparr>)"
| poll_pipe: "main_pc s = MPoll \<Longrightarrow> 0 < pipe_bytes s \<Longrightarrow>
     server_step strerror s Main (s\<lparr>main_pc := MStop Returning\<rparr>)"
| poll_listener: "main_pc s = MPoll \<Longrightarrow> pipe_bytes s = 0 \<Longrightarrow>
     server_step strerror s Main (s\<lparr>main_pc := MAccept\<rparr>)"
| poll_retry: "main_pc s = MPoll \<Longrightarrow> server_step strerror s Retry (s\<lparr>main_pc := MCheck\<rparr>)"
| poll_error: "main_pc s = MPoll \<Longrightarrow> e \<noteq> EINTR \<Longrightarrow>
     server_step strerror s Main (s\<lparr>main_pc := MThrew (syscall_error strerror ''poll'' e)\<rparr>)"
| accept_client: "main_pc s = MAccept \<Longrightarrow> accept_loop strerror replies = Some (Inr client) \<Longrightarrow>
     server_step strerror s Main (s\<lparr>main_pc := MAccepted client\<rparr>)"
| accept_error: "main_pc s = MAccept \<Longrightarrow> accept_loop strerror replies = Some (Inl err) \<Longrightarrow>
     server_step strerror s Main (s\<lparr>main_pc := MThrew err\<rparr>)"
| count_accepted: "main_pc s = MAccepted client \<Longrightarrow>
     server_step strerror s Main
       (s\<lparr>accepted_connections := accepted_connections s + 1, main_pc := MDispatch client\<rparr>)"
| dispatched: "main_pc s = MDispatch client \<Longrightarrow>
     pool_step (file_handler s) (srv_pool s) (Accept client) p \<Longrightarrow>
     server_step strerror s (Pool (Accept client)) (s\<lparr>srv_pool := p, main_pc := MCounting\<rparr>)"
| counted: "main_pc s = MCounting \<Longrightarrow> pool_step (file_handler s) (srv_pool s) Count p \<Longrightarrow>
     server_step strerror s (Pool Count) (s\<lparr>srv_pool := p, main_pc := MCheck\<rparr>)"
| refused: "main_pc s = MDispatch client \<Longrightarrow>
     pool_step (file_handler s) (srv_pool s) (Refuse client) p \<Longrightarrow>
     server_step strerror s (Pool (Refuse client)) (s\<lparr>srv_pool := p, main_pc := MRefused\<rparr>)"
| after_refusal: "main_pc s = MRefused \<Longrightarrow>
     server_step strerror s Main
       (s\<lparr>main_pc := if shutdown_requested s then MCheck else MThrew ''worker pool is closed''\<rparr>)"
| stop: "main_pc s = MStop e \<Longrightarrow>
     server_step strerror s Main
       (if shutdown_requested s then s\<lparr>main_pc := MShutdown e\<rparr>
        else s\<lparr>shutdown_requested := True, main_pc := MStopClose e\<rparr>)"
| stop_close: "main_pc s = MStopClose e \<Longrightarrow>
     server_step strerror s (Pool Shutdown) ((close_pool s)\<lparr>main_pc := MStopWrite e\<rparr>)"
| stop_write: "main_pc s = MStopWrite e \<Longrightarrow>
     server_step strerror s Main ((notify s)\<lparr>main_pc := MShutdown e\<rparr>)"
| pool_shutdown: "main_pc s = MShutdown e \<Longrightarrow>
     server_step strerror s (Pool Shutdown) ((close_pool s)\<lparr>main_pc := MJoin e\<rparr>)"
| pool_joined: "main_pc s = MJoin e \<Longrightarrow> \<forall>w \<in> set (workers (srv_pool s)). w = WExited \<Longrightarrow>
     server_step strerror s Main (s\<lparr>main_pc := ended e\<rparr>)"
| worker: "worker_label l \<Longrightarrow> pool_step (file_handler s) (srv_pool s) l p \<Longrightarrow>
     server_step strerror s (Pool l) (s\<lparr>srv_pool := p\<rparr>)"
| request: "\<not> in_destructor (main_pc s) \<Longrightarrow> \<not> shutdown_requested s \<Longrightarrow>
     server_step strerror s Request (s\<lparr>shutdown_requested := True, requesters := RClose # requesters s\<rparr>)"
| request_close: "requesters s = rs @ RClose # rs' \<Longrightarrow>
     server_step strerror s (Pool Shutdown) ((close_pool s)\<lparr>requesters := rs @ RWrite # rs'\<rparr>)"
| request_write: "requesters s = rs @ RWrite # rs' \<Longrightarrow>
     server_step strerror s Request ((notify s)\<lparr>requesters := rs @ rs'\<rparr>)"
| signal: "\<not> in_destructor (main_pc s) \<Longrightarrow> server_step strerror s Signal (notify s)"
| destroy: "main_pc s = MReturned \<or> main_pc s = MThrew err \<Longrightarrow> requesters s = [] \<Longrightarrow>
     server_step strerror s Destroy (s\<lparr>main_pc := MStop Destroying\<rparr>)"

inductive server_run ::
  "(errno \<Rightarrow> bytes) \<Rightarrow> http_server \<Rightarrow> server_label list \<Rightarrow> http_server \<Rightarrow> bool" for strerror s0 where
  start: "server_run strerror s0 [] s0"
| step: "server_run strerror s0 tr s \<Longrightarrow> server_step strerror s l s' \<Longrightarrow> server_run strerror s0 (tr @ [l]) s'"

definition pool_trace :: "server_label list \<Rightarrow> pool_label list" where
  "pool_trace tr = concat (map (\<lambda>l. case l of Pool k \<Rightarrow> [k] | _ \<Rightarrow> []) tr)"


subsection \<open>The pool inside the server\<close>

lemma notify_simps [simp]:
  "file_handler (notify s) = file_handler s" "srv_pool (notify s) = srv_pool s"
  "requesters (notify s) = requesters s" "main_pc (notify s) = main_pc s"
  "shutdown_requested (notify s) = shutdown_requested s"
  "accepted_connections (notify s) = accepted_connections s"
  "pipe_capacity (notify s) = pipe_capacity s" "pipe_bytes s \<le> pipe_bytes (notify s)"
  "0 < pipe_capacity s \<Longrightarrow> 0 < pipe_bytes (notify s)"
  by (auto simp: notify_def)

lemma close_pool_simps [simp]:
  "file_handler (close_pool s) = file_handler s"
  "srv_pool (close_pool s) = pool_request_shutdown (srv_pool s)"
  "requesters (close_pool s) = requesters s" "main_pc (close_pool s) = main_pc s"
  "shutdown_requested (close_pool s) = shutdown_requested s"
  "accepted_connections (close_pool s) = accepted_connections s"
  "pipe_capacity (close_pool s) = pipe_capacity s" "pipe_bytes (close_pool s) = pipe_bytes s"
  by (auto simp: close_pool_def)

lemma pool_trace_simps [simp]:
  "pool_trace [] = []" "pool_trace (tr @ tr') = pool_trace tr @ pool_trace tr'"
  "pool_trace (l # tr) = (case l of Pool k \<Rightarrow> [k] | _ \<Rightarrow> []) @ pool_trace tr"
  by (simp_all add: pool_trace_def)

lemma server_step_pool:
  "server_step strerror s l s' \<Longrightarrow> file_handler s' = file_handler s \<and> pipe_capacity s' = pipe_capacity s \<and>
     (case l of Pool k \<Rightarrow> pool_step (file_handler s) (srv_pool s) k (srv_pool s') | _ \<Rightarrow> srv_pool s' = srv_pool s)"
  by (induction rule: server_step.induct) (auto intro: pool_step.shutdown)

lemma server_run_pool:
  "server_run strerror s0 tr s \<Longrightarrow> file_handler s = file_handler s0 \<and> pipe_capacity s = pipe_capacity s0 \<and>
     pool_run (file_handler s0) (srv_pool s0) (pool_trace tr) (srv_pool s)"
proof (induction rule: server_run.induct)
  case (step tr s l s')
  then show ?case using server_step_pool [OF step(2)] by (cases l) (auto intro: pool_run.step)
qed (simp add: pool_run.start)

subsection \<open>Invariants\<close>

fun stopping :: "main_pc \<Rightarrow> requester list" where
  "stopping (MStopClose e) = [RClose]"
| "stopping (MStopWrite e) = [RWrite]"
| "stopping pc = []"

fun after_stop :: "main_pc \<Rightarrow> bool" where
  "after_stop (MStopClose e) = True"
| "after_stop (MStopWrite e) = True"
| "after_stop (MShutdown e) = True"
| "after_stop (MJoin e) = True"
| "after_stop pc = (pc = MReturned \<or> pc = MDestroyed)"

fun after_close :: "main_pc \<Rightarrow> bool" where
  "after_close (MJoin e) = True"
| "after_close pc = (pc = MReturned \<or> pc = MDestroyed \<or> pc = MRefused)"

text \<open>
  At most one thread carries a shutdown out; the queue is closed only after the flag is set,
  and it is closed and the pipe is readable once that thread has done its part.
\<close>

definition shutdown_inv :: "http_server \<Rightarrow> bool" where
  "shutdown_inv s \<longleftrightarrow>
     (let active = requesters s @ stopping (main_pc s); closed = bq_closed (pool_queue (srv_pool s))
      in length active \<le> 1 \<and> 0 < pipe_capacity s \<and>
         (active \<noteq> [] \<or> closed \<or> after_stop (main_pc s) \<longrightarrow> shutdown_requested s) \<and>
         (shutdown_requested s \<and> RClose \<notin> set active \<longrightarrow> closed) \<and>
         (shutdown_requested s \<and> active = [] \<longrightarrow> 0 < pipe_bytes s) \<and>
         (after_close (main_pc s) \<longrightarrow> closed))"

lemma shutdown_inv_pc:
  assumes "shutdown_inv s" and "stopping pc = stopping (main_pc s)"
    and "after_stop pc \<Longrightarrow> shutdown_requested s" and "after_close pc \<Longrightarrow> bq_closed (pool_queue (srv_pool s))"
  shows "shutdown_inv (s\<lparr>main_pc := pc\<rparr>)"
  using assms by (auto simp: shutdown_inv_def Let_def)

lemma shutdown_inv_step:
  assumes "server_step strerror s l s'" and "queue_ok (pool_queue (srv_pool s))" and "shutdown_inv s"
  shows "shutdown_inv s'"
  using assms
proof (induction rule: server_step.induct)
  case (refused s client p)
  then show ?case using refuse_closed [OF refused(2)] pool_step_closed [OF refused(2)]
    by (auto simp: shutdown_inv_def Let_def)
next
  case (dispatched s client p)
  then show ?case using pool_step_closed [OF dispatched(2)] by (auto simp: shutdown_inv_def Let_def)
next
  case (counted s p)
  then show ?case using pool_step_closed [OF counted(2)] by (auto simp: shutdown_inv_def Let_def)
next
  case (worker l s p)
  then show ?case using pool_step_closed [OF worker(2)] by (auto simp: shutdown_inv_def Let_def)
next
  case (pool_joined s e)
  then show ?case by (cases e) (auto simp: shutdown_inv_def Let_def)
next
  case (signal s)
  moreover have "0 < pipe_bytes s \<Longrightarrow> 0 < pipe_bytes (notify s)"
    using notify_simps(8) [of s] by linarith
  ultimately show ?case by (auto simp: shutdown_inv_def Let_def)
next
  case (request_write s rs rs')
  then have "rs = []" "rs' = []" "stopping (main_pc s) = []" by (auto simp: shutdown_inv_def Let_def)
  then show ?case using request_write by (simp add: shutdown_inv_def Let_def)
next
  case (request_close s rs rs')
  then have "rs = []" "rs' = []" "stopping (main_pc s) = []" by (auto simp: shutdown_inv_def Let_def)
  then show ?case using request_close by (simp add: shutdown_inv_def Let_def)
qed ((auto intro!: shutdown_inv_pc; fail) | (auto simp: shutdown_inv_def Let_def; fail))+

subsection \<open>The books of the accepting thread\<close>

definition refusals :: "pool_label list \<Rightarrow> nat" where
  "refusals tr = num (\<lambda>l. \<exists>c. l = Refuse c) tr"

fun before_refusal :: "main_pc \<Rightarrow> bool" where
  "before_refusal (MAccepted c) = True"
| "before_refusal (MDispatch c) = True"
| "before_refusal pc = (pc = MPoll \<or> pc = MAccept \<or> pc = MCounting)"

fun in_hand :: "main_pc \<Rightarrow> nat" where
  "in_hand (MDispatch c) = 1"
| "in_hand pc = 0"

definition books :: "pool_label list \<Rightarrow> http_server \<Rightarrow> bool" where
  "books ptr s \<longleftrightarrow>
     counting (srv_pool s) = of_bool (main_pc s = MCounting) \<and>
     accepted_connections s = of_nat (length (accepts ptr) + refusals ptr + in_hand (main_pc s)) \<and>
     refusals ptr \<le> 1 \<and>
     (before_refusal (main_pc s) \<or> main_pc s = MCheck \<and> \<not> shutdown_requested s \<longrightarrow> refusals ptr = 0) \<and>
     (main_pc s = MReturned \<or> main_pc s = MDestroyed \<longrightarrow> (\<forall>w \<in> set (workers (srv_pool s)). w = WExited))"

lemma worker_label_trace [simp]:
  "worker_label l \<Longrightarrow> accepts (tr @ [l]) = accepts tr" "worker_label l \<Longrightarrow> refusals (tr @ [l]) = refusals tr"
  by (cases l; simp add: accepts_def refusals_def)+

lemma books_step:
  assumes "server_step strerror s l s'" and "books (pool_trace tr) s"
  shows "books (pool_trace (tr @ [l])) s'"
  using assms
proof (induction rule: server_step.induct)
  case (dispatched s client p)
  then show ?case using pool_step_counting [OF dispatched(2)] by (simp add: books_def accepts_def refusals_def)
next
  case (counted s p)
  then show ?case using pool_step_counting [OF counted(2)] by (simp add: books_def accepts_def refusals_def)
next
  case (refused s client p)
  then show ?case using pool_step_counting [OF refused(2)] by (simp add: books_def accepts_def refusals_def)
next
  case (worker l s p)
  then show ?case
    using worker_step_not_exited [OF worker(2,1)] worker_label_counting [OF worker(2,1)] by (auto simp: books_def)
next
  case (pool_joined s e)
  then show ?case by (cases e) (simp_all add: books_def)
next
  case (destroy s err)
  then show ?case by (elim disjE) (simp_all add: books_def)
qed (simp_all add: books_def accepts_def refusals_def)

definition throws_ok :: "(errno \<Rightarrow> bytes) \<Rightarrow> main_pc \<Rightarrow> bool" where
  "throws_ok strerror pc \<longleftrightarrow> (\<forall>err. pc = MThrew err \<longrightarrow>
     (\<exists>e. err = syscall_error strerror ''poll'' e \<or> err = syscall_error strerror ''accept'' e))"

lemma accept_loop_error: "accept_loop strerror replies = Some (Inl err) \<Longrightarrow>
    \<exists>e. err = syscall_error strerror ''accept'' e"
  by (induction strerror replies rule: accept_loop.induct) (auto split: if_splits)

lemma throws_ok_step:
  "server_step strerror s l s' \<Longrightarrow> shutdown_inv s \<Longrightarrow> throws_ok strerror (main_pc s) \<Longrightarrow>
     throws_ok strerror (main_pc s')"
proof (induction rule: server_step.induct)
  case (after_refusal s)
  then show ?case by (auto simp: throws_ok_def shutdown_inv_def Let_def)
next
  case (pool_joined s e)
  then show ?case by (cases e) (auto simp: throws_ok_def)
qed (auto simp: throws_ok_def dest: accept_loop_error)

lemma new_server_start:
  assumes "new_server env r port b a cfg n cap = (Inr s0, calls)" and "0 < se_pipe_capacity env"
  shows "new_pool n cap cfg None = Inr (srv_pool s0)" and "shutdown_inv s0" and "books [] s0"
    and "throws_ok strerror (main_pc s0)"
proof -
  have p: "new_pool n cap cfg (se_spawn env) = Inr (srv_pool s0)" and
    s: "main_pc s0 = MCheck" "requesters s0 = []" "\<not> shutdown_requested s0" "accepted_connections s0 = 0"
      "0 < pipe_capacity s0"
    using assms by (auto simp: new_server_def split: option.splits sum.splits prod.splits)
  show n: "new_pool n cap cfg None = Inr (srv_pool s0)"
    using p by (auto simp: new_pool_def split: sum.splits if_splits option.splits)
  show "shutdown_inv s0" "books [] s0"
    using s new_pool_start [OF n] by (auto simp: shutdown_inv_def books_def accepts_def refusals_def)
  show "throws_ok strerror (main_pc s0)" using s by (simp add: throws_ok_def)
qed

definition server_inv :: "(errno \<Rightarrow> bytes) \<Rightarrow> server_label list \<Rightarrow> http_server \<Rightarrow> bool" where
  "server_inv strerror tr s \<longleftrightarrow> pool_inv (pool_trace tr) (srv_pool s) \<and> shutdown_inv s \<and>
     books (pool_trace tr) s \<and> throws_ok strerror (main_pc s)"

lemma server_inv_step:
  assumes "server_step strerror s l s'" and "server_inv strerror tr s"
  shows "server_inv strerror (tr @ [l]) s'"
proof -
  have "pool_inv (pool_trace (tr @ [l])) (srv_pool s')"
    using server_step_pool [OF assms(1)] assms(2) pool_step_inv [of _ "srv_pool s" _ "srv_pool s'"]
    by (cases l) (auto simp: server_inv_def)
  moreover have "queue_ok (pool_queue (srv_pool s))" using assms(2) by (simp add: server_inv_def pool_inv_def)
  ultimately show ?thesis
    using assms(2) shutdown_inv_step [OF assms(1)] books_step [OF assms(1)] throws_ok_step [OF assms(1)]
    by (simp add: server_inv_def)
qed

lemma server_run_inv:
  "server_run strerror s0 tr s \<Longrightarrow> server_inv strerror tr0 s0 \<Longrightarrow> server_inv strerror (tr0 @ tr) s"
proof (induction rule: server_run.induct)
  case (step tr s l s')
  then show ?case using server_inv_step [OF step(2)] by fastforce
qed simp

lemma new_server_inv:
  assumes "new_server env r port b a cfg n cap = (Inr s0, calls)" and "0 < se_pipe_capacity env"
  shows "server_inv strerror [] s0"
  using new_server_start [OF assms] new_pool_inv by (simp add: server_inv_def)

subsection \<open>Termination of the accept loop\<close>

fun main_rank :: "main_pc \<Rightarrow> nat" where
  "main_rank MAccept = 15"
| "main_rank (MAccepted c) = 14"
| "main_rank (MDispatch c) = 13"
| "main_rank MCounting = 8"
| "main_rank MRefused = 8"
| "main_rank MCheck = 7"
| "main_rank MPoll = 6"
| "main_rank (MStop e) = 5"
| "main_rank (MStopClose e) = 4"
| "main_rank (MStopWrite e) = 3"
| "main_rank (MShutdown e) = 2"
| "main_rank (MJoin e) = 1"
| "main_rank pc = 0"

fun requester_rank :: "requester \<Rightarrow> nat" where
  "requester_rank RClose = 2"
| "requester_rank RWrite = 1"

definition server_weight :: "http_server \<Rightarrow> nat" where
  "server_weight s = main_rank (main_pc s) + sum_list (map requester_rank (requesters s)) +
     (if shutdown_requested s then 0 else 3) + pool_weight (srv_pool s)"

definition work :: "server_label \<Rightarrow> bool" where
  "work l \<longleftrightarrow> l \<noteq> Retry \<and> l \<noteq> Signal"

lemma server_step_weight:
  assumes "server_step strerror s l s'" and "l \<noteq> Destroy" and "0 < pipe_bytes s"
    and "queue_ok (pool_queue (srv_pool s))"
  shows "server_weight s' + of_bool (work l) \<le> server_weight s + of_bool (l = Retry)"
  using assms
proof (induction rule: server_step.induct)
  case (dispatched s client p)
  then show ?case using pool_step_weight [OF dispatched(2,5)] by (simp add: server_weight_def work_def)
next
  case (counted s p)
  then show ?case using pool_step_weight [OF counted(2,5)] by (simp add: server_weight_def work_def)
next
  case (refused s client p)
  then show ?case using pool_step_weight [OF refused(2,5)] by (simp add: server_weight_def work_def)
next
  case (worker l s p)
  then show ?case using pool_step_weight [OF worker(2,5)]
    by (cases l) (simp_all add: server_weight_def work_def)
next
  case (pool_joined s e)
  then show ?case by (cases e) (simp_all add: server_weight_def work_def)
qed (simp_all add: server_weight_def work_def pool_weight_def)

lemma server_step_pipe: "server_step strerror s l s' \<Longrightarrow> pipe_bytes s \<le> pipe_bytes s'"
  by (induction rule: server_step.induct) auto

lemma server_run_weight:
  assumes "server_run strerror s tr s'" and "server_inv strerror tr0 s" and "0 < pipe_bytes s" and "Destroy \<notin> set tr"
  shows "server_weight s' + num work tr \<le> server_weight s + num (\<lambda>l. l = Retry) tr \<and> 0 < pipe_bytes s'"
  using assms(1,4)
proof (induction rule: server_run.induct)
  case (step tr s1 l s2)
  have "server_inv strerror (tr0 @ tr) s1" by (rule server_run_inv [OF step(1) assms(2)])
  then have "queue_ok (pool_queue (srv_pool s1))" by (simp add: server_inv_def pool_inv_def)
  then show ?case
    using step server_step_weight [OF step(2)] server_step_pipe [OF step(2)]
    by (cases "l = Retry") (auto simp: work_def)
qed (simp add: assms(3))

lemma main_rank_bound: "main_rank pc \<le> 15"
  by (cases pc) auto

lemma server_weight_bound:
  assumes "shutdown_inv s"
  shows "server_weight s \<le> 18 + 4 * (length (workers (srv_pool s)) + length (bq_queue (pool_queue (srv_pool s))))"
proof -
  have "sum_list (map requester_rank (requesters s)) + (if shutdown_requested s then 0 else 3) \<le> 3"
  proof (cases "requesters s")
    case (Cons r rs)
    then have "rs = []" "shutdown_requested s" using assms by (auto simp: shutdown_inv_def Let_def)
    then show ?thesis using Cons by (cases r) auto
  qed simp
  then show ?thesis
    using main_rank_bound [of "main_pc s"] weight_bound [of "workers (srv_pool s)"]
    by (simp add: server_weight_def pool_weight_def)
qed

fun finished :: "main_pc \<Rightarrow> bool" where
  "finished (MThrew err) = True"
| "finished pc = (pc = MReturned \<or> pc = MDestroyed)"

lemma worker_can_step:
  assumes "pool_inv ptr (srv_pool s)" and "0 < length (workers (srv_pool s))"
    and "bq_queue (pool_queue (srv_pool s)) \<noteq> [] \<or>
      bq_closed (pool_queue (srv_pool s)) \<and> \<not> (\<forall>w \<in> set (workers (srv_pool s)). w = WExited)"
  shows "\<exists>k s'. worker_label k \<and> server_step strerror s (Pool k) s'"
proof -
  have q: "queue_ok (pool_queue (srv_pool s))"
    "bq_closed (pool_queue (srv_pool s)) \<or> bq_queue (pool_queue (srv_pool s)) \<noteq> []"
    using assms by (auto simp: pool_inv_def)
  obtain w where w: "w \<in> set (workers (srv_pool s))" "w \<noteq> WExited"
    using assms by (auto simp: pool_inv_def) (metis length_greater_0_conv list.set_sel(1))
  obtain k p where "worker_label k" "pool_step (file_handler s) (srv_pool s) k p"
    using worker_progress [OF q w] by blast
  then show ?thesis using server_step.worker by blast
qed

lemma dispatch_can_step:
  assumes "pool_inv ptr (srv_pool s)" and "0 < length (workers (srv_pool s))" and "main_pc s = MDispatch c"
  shows "\<exists>k s'. server_step strerror s (Pool k) s'"
proof (cases "push c (pool_queue (srv_pool s))")
  case None
  have q: "queue_ok (pool_queue (srv_pool s))" using assms(1) by (simp add: pool_inv_def)
  then have "bq_queue (pool_queue (srv_pool s)) \<noteq> []"
    using None bq.push_waits [OF q] bq.room_pos [OF q] by fastforce
  then show ?thesis using worker_can_step [OF assms(1,2)] by blast
next
  case (Some r)
  obtain b q where r: "r = (b, q)" by (cases r)
  show ?thesis
  proof (cases b)
    case True
    then have "\<exists>p. pool_step (file_handler s) (srv_pool s) (Accept c) p"
      using Some r dispatch_push [of c "srv_pool s" q "file_handler s"] by auto
    then show ?thesis using server_step.dispatched [OF assms(3)] by blast
  next
    case False
    then have "\<exists>p. pool_step (file_handler s) (srv_pool s) (Refuse c) p"
      using Some r dispatch_refused [of c "srv_pool s" q "file_handler s"] by auto
    then show ?thesis using server_step.refused [OF assms(3)] by blast
  qed
qed

fun waiting :: "main_pc \<Rightarrow> bool" where
  "waiting (MDispatch c) = True"
| "waiting (MJoin e) = True"
| "waiting pc = (pc = MCounting)"

lemma main_can_step:
  assumes "0 < pipe_bytes s" and "\<not> finished (main_pc s)" and "\<not> waiting (main_pc s)"
  shows "\<exists>s'. server_step strerror s Main s' \<or> server_step strerror s (Pool Shutdown) s'"
proof (cases "main_pc s")
  case MCheck
  then show ?thesis using server_step.loop_check by blast
next
  case MPoll
  then show ?thesis using server_step.poll_pipe [OF MPoll assms(1)] by blast
next
  case MAccept
  have "accept_loop strerror [Inr 0] = Some (Inr 0)" by simp
  then show ?thesis using server_step.accept_client [OF MAccept] by blast
next
  case (MAccepted c)
  then show ?thesis using server_step.count_accepted by blast
next
  case MRefused
  then show ?thesis using server_step.after_refusal by blast
next
  case (MStop e)
  then show ?thesis using server_step.stop by blast
next
  case (MStopClose e)
  then show ?thesis using server_step.stop_close by blast
next
  case (MStopWrite e)
  then show ?thesis using server_step.stop_write by blast
next
  case (MShutdown e)
  then show ?thesis using server_step.pool_shutdown by blast
qed (use assms in auto)

lemma server_progress:
  assumes "server_inv strerror tr s" and "0 < pipe_bytes s" and "0 < length (workers (srv_pool s))"
    and "\<not> finished (main_pc s)"
  shows "\<exists>l s'. work l \<and> l \<noteq> Destroy \<and> server_step strerror s l s'"
proof -
  have inv: "pool_inv (pool_trace tr) (srv_pool s)" "shutdown_inv s" "books (pool_trace tr) s"
    using assms(1) by (auto simp: server_inv_def)
  have "work (Pool k)" "work Main" for k by (simp_all add: work_def)
  then have pool: "\<exists>k s'. server_step strerror s (Pool k) s' \<Longrightarrow> ?thesis"
    and main: "\<exists>s'. server_step strerror s Main s' \<Longrightarrow> ?thesis" by blast+
  show ?thesis
  proof (cases "waiting (main_pc s)")
    case False
    then show ?thesis using main_can_step [OF assms(2,4)] pool main by blast
  next
    case True
    then consider c where "main_pc s = MDispatch c" | "main_pc s = MCounting" | e where "main_pc s = MJoin e"
      by (cases "main_pc s") auto
    then show ?thesis
    proof cases
      case 1
      then show ?thesis using dispatch_can_step [OF inv(1) assms(3)] pool by blast
    next
      case 2
      then have "0 < counting (srv_pool s)" using inv(3) by (simp add: books_def)
      then show ?thesis using 2 dispatch_count server_step.counted pool by blast
    next
      case 3
      then have "bq_closed (pool_queue (srv_pool s))" using inv(2) by (simp add: shutdown_inv_def Let_def)
      then show ?thesis
        using worker_can_step [OF inv(1) assms(3)] pool main server_step.pool_joined [OF 3] by metis
    qed
  qed
qed

lemma server_workers:
  assumes "new_server env r port b a cfg n cap = (Inr s0, calls)" and "0 < se_pipe_capacity env"
    and "server_run strerror s0 tr s"
  shows "length (workers (srv_pool s)) = unat n" and "0 < unat n"
  using pool_run_workers server_run_pool [OF assms(3)] new_pool_start [OF new_server_start(1) [OF assms(1,2)]]
  by metis+

lemma server_books:
  assumes "new_server env r port b a cfg n cap = (Inr s0, calls)" and "0 < se_pipe_capacity env"
    and "server_run strerror s0 tr s"
  defines "cs \<equiv> stats_workers (server_stats s)"
  shows "stats_accepted (server_stats s) = dispatched_connections cs + of_nat (counting (srv_pool s)) +
      rejected_dispatches cs + of_nat (in_hand (main_pc s)) \<and>
    (rejected_dispatches cs = 0 \<or> rejected_dispatches cs = 1) \<and>
    (main_pc s = MReturned \<or> main_pc s = MDestroyed \<longrightarrow>
       (\<forall>w \<in> set (workers (srv_pool s)). w = WExited) \<and>
       active_connections cs = 0 \<and> queued_connections cs = 0 \<and>
       stats_accepted (server_stats s) = completed_connections cs + worker_errors cs + rejected_dispatches cs)"
proof -
  have inv: "server_inv strerror tr s" using server_run_inv [OF assms(3) new_server_inv [OF assms(1,2)]] by simp
  have p: "new_pool n cap cfg None = Inr (srv_pool s0)" by (rule new_server_start(1) [OF assms(1,2)])
  have run: "pool_run (file_handler s0) (srv_pool s0) (pool_trace tr) (srv_pool s)"
    using server_run_pool [OF assms(3)] by simp
  have b: "books (pool_trace tr) s" using inv by (simp add: server_inv_def)
  have c: "counters_match (pool_trace tr) (srv_pool s)" using pool_run_counters [OF run p] by simp
  have cs: "dispatched_connections cs = dispatched_connections (counters (srv_pool s))"
    "rejected_dispatches cs = rejected_dispatches (counters (srv_pool s))"
    "active_connections cs = active_connections (counters (srv_pool s))"
    "completed_connections cs = completed_connections (counters (srv_pool s))"
    "worker_errors cs = worker_errors (counters (srv_pool s))"
    "queued_connections cs = of_nat (length (bq_queue (pool_queue (srv_pool s))))"
    by (simp_all add: cs_def server_stats_def pool_stats_def pool_counters.defs queue_size_def)
  have acc: "accepted_connections s = dispatched_connections cs + of_nat (counting (srv_pool s)) +
      rejected_dispatches cs + of_nat (in_hand (main_pc s))"
    using b c by (simp add: books_def counters_match_def refusals_def cs)
  moreover have "rejected_dispatches cs = 0 \<or> rejected_dispatches cs = 1"
    using b c unfolding cs by (cases "refusals (pool_trace tr)") (auto simp: books_def counters_match_def refusals_def)
  moreover have "(\<forall>w \<in> set (workers (srv_pool s)). w = WExited) \<and> active_connections cs = 0 \<and>
      queued_connections cs = 0 \<and>
      accepted_connections s = completed_connections cs + worker_errors cs + rejected_dispatches cs"
    if "main_pc s = MReturned \<or> main_pc s = MDestroyed"
  proof -
    have ex: "\<forall>w \<in> set (workers (srv_pool s)). w = WExited" using b that by (auto simp: books_def)
    show ?thesis using drained_pool [OF p run ex] ex acc that by (auto simp: cs)
  qed
  ultimately show ?thesis by (simp add: server_stats_def)
qed

subsection \<open>A concrete server\<close>

definition sample_server_env :: server_env where
  "sample_server_env = \<lparr>se_fs = (posix_env plain_tree)\<lparr>fs_canonical := Some\<rparr>, se_canonical_error = ''canonical'',
     se_bind = sample_bind, se_spawn = None,
     se_pipe = \<lparr>pe_pipe = Inr (4, 5), pe_cloexec = (\<lambda>f. None), pe_getfl = Inr 0, pe_setfl = None\<rparr>,
     se_pipe_capacity = 65536\<rparr>"

definition sample_server :: http_server where
  "sample_server = \<lparr>file_handler = site_handler, listener = \<lparr>lst_fd = 3, lst_port = 8080\<rparr>, srv_pool = sample_pool,
     shutdown_pipe = (4, 5), accepted_connections = 0, shutdown_requested = False, pipe_bytes = 0,
     pipe_capacity = 65536, requesters = [], main_pc = MCheck\<rparr>"

definition stopped_server :: http_server where
  "stopped_server = sample_server\<lparr>srv_pool := pool_request_shutdown sample_pool, shutdown_requested := True,
     pipe_bytes := 1\<rparr>"

lemma sample_server_new:
  "\<exists>calls. new_server sample_server_env ''/srv/site'' 8080 128 ''127.0.0.1'' default_config 1 2 = (Inr sample_server, calls)"
  by (simp add: new_server_def sample_server_env_def sample_server_def new_handler_def site_handler_def
      bind_ipv4_def sample_bind_def make_ipv4_address_def bound_port_def ntohs_htons sample_pool_new
      make_shutdown_pipe_def)

lemma sample_capacity: "0 < se_pipe_capacity sample_server_env"
  by (simp add: sample_server_env_def)

lemma sample_server_run:
  "server_run strerror sample_server [Request, Pool Shutdown, Request] stopped_server"
proof -
  let ?a = "sample_server\<lparr>shutdown_requested := True, requesters := [RClose]\<rparr>"
  let ?b = "(close_pool ?a)\<lparr>requesters := [RWrite]\<rparr>"
  have 1: "server_step strerror sample_server Request ?a"
    using server_step.request [of sample_server strerror] by (simp add: sample_server_def)
  have 2: "server_step strerror ?a (Pool Shutdown) ?b"
    using server_step.request_close [of ?a "[]" "[]" strerror] by simp
  have 3: "server_step strerror ?b Request stopped_server"
    using server_step.request_write [of ?b "[]" "[]" strerror]
    by (simp add: stopped_server_def notify_def close_pool_def sample_server_def)
  show ?thesis using server_run.step [OF server_run.step [OF server_run.step [OF server_run.start 1] 2] 3] by simp
qed

subsection \<open>Properties\<close>

text \<open>
  C8. The shutdown protocol of the server. In every interleaving of the accepting thread, the
  workers, any number of threads calling \<open>request_shutdown\<close> and signals: a request is carried
  out by exactly one thread; once that thread is through, the queue is closed and the pipe is
  readable, so that the next \<open>poll\<close> cannot miss it; the queue is never found closed without the
  flag being set, so that \<open>serve_one\<close> never throws \<open>worker pool is closed\<close>, and the exceptions
  that leave \<open>serve_forever\<close> are those of \<open>poll\<close> and \<open>accept\<close>.
\<close>

theorem server_shutdown_protocol:
  assumes "new_server env r port b a cfg n cap = (Inr s0, calls)" and "0 < se_pipe_capacity env"
    and "server_run strerror s0 tr s"
  defines "active \<equiv> requesters s @ stopping (main_pc s)" and "shut \<equiv> bq_closed (pool_queue (srv_pool s))"
  shows "length active \<le> 1 \<and>
    (shutdown_requested s \<and> active = [] \<longrightarrow> shut \<and> 0 < pipe_bytes s) \<and>
    (shut \<or> main_pc s = MRefused \<longrightarrow> shutdown_requested s) \<and>
    (\<forall>err. main_pc s = MThrew err \<longrightarrow>
       (\<exists>e. err = syscall_error strerror ''poll'' e \<or> err = syscall_error strerror ''accept'' e))"
proof -
  have "server_inv strerror tr s" using server_run_inv [OF assms(3) new_server_inv [OF assms(1,2)]] by simp
  then have "shutdown_inv s" "throws_ok strerror (main_pc s)" by (auto simp: server_inv_def)
  then show ?thesis by (auto simp: shutdown_inv_def throws_ok_def active_def shut_def Let_def)
qed

theorem server_shutdown_protocol_witness:
  "bq_closed (pool_queue (srv_pool stopped_server)) \<and> 0 < pipe_bytes stopped_server"
proof -
  obtain calls where n: "new_server sample_server_env ''/srv/site'' 8080 128 ''127.0.0.1'' default_config 1 2 =
      (Inr sample_server, calls)" using sample_server_new by blast
  show ?thesis
    using server_shutdown_protocol [OF n sample_capacity sample_server_run [of "\<lambda>e. ''error''"]]
    by (simp add: stopped_server_def sample_server_def)
qed

text \<open>
  C6. \<open>serve_forever\<close> ends. From a state in which the notification pipe is readable, because a
  request was carried out or a signal arrived, the accepting thread, the workers and the
  requesting threads make at most eighteen steps and four for each worker and queued
  connection, besides interrupted polls; and until \<open>serve_forever\<close> has returned or thrown one
  of them can make a step.
\<close>

theorem serve_forever_returns:
  assumes "new_server env r port b a cfg n cap = (Inr s0, calls)" and "0 < se_pipe_capacity env"
    and "server_run strerror s0 tr s" and "0 < pipe_bytes s"
    and "server_run strerror s tr' s'" and "Destroy \<notin> set tr'"
  shows "num work tr' \<le>
      18 + 4 * (unat n + length (bq_queue (pool_queue (srv_pool s)))) + num (\<lambda>l. l = Retry) tr' \<and>
    (finished (main_pc s') \<or> (\<exists>l s''. work l \<and> l \<noteq> Destroy \<and> server_step strerror s' l s''))"
proof -
  have inv: "server_inv strerror tr s" using server_run_inv [OF assms(3) new_server_inv [OF assms(1,2)]] by simp
  have inv': "server_inv strerror (tr @ tr') s'" by (rule server_run_inv [OF assms(5) inv])
  have w: "length (workers (srv_pool s)) = unat n" "0 < unat n" by (rule server_workers [OF assms(1,2,3)])+
  have w': "length (workers (srv_pool s')) = unat n"
    using pool_run_workers server_run_pool [OF assms(5)] w(1) by metis
  have "server_weight s' + num work tr' \<le> server_weight s + num (\<lambda>l. l = Retry) tr' \<and> 0 < pipe_bytes s'"
    by (rule server_run_weight [OF assms(5) inv assms(4,6)])
  then show ?thesis
    using server_weight_bound [of s] inv w w' server_progress [OF inv'] by (auto simp: server_inv_def)
qed

theorem serve_forever_returns_witness:
  "\<exists>l s'. work l \<and> server_step (\<lambda>e. ''error'') stopped_server l s'"
proof -
  obtain calls where n: "new_server sample_server_env ''/srv/site'' 8080 128 ''127.0.0.1'' default_config 1 2 =
      (Inr sample_server, calls)" using sample_server_new by blast
  have "0 < pipe_bytes stopped_server" "\<not> finished (main_pc stopped_server)"
    by (simp_all add: stopped_server_def sample_server_def)
  then show ?thesis
    using serve_forever_returns [OF n sample_capacity sample_server_run [of "\<lambda>e. ''error''"] _ server_run.start] by auto
qed


text \<open>
  C9. The books of the server. At every moment the connections accepted are those dispatched,
  those refused (at most one in the life of a server) and the one the accepting thread holds;
  after \<open>serve_forever\<close> has returned or the destructor has ended, every worker has exited,
  nothing is active or queued, and the connections accepted are the ones completed, failed and
  refused. Counters are modulo the width of \<open>size_t\<close>.
\<close>

theorem server_accounting:
  assumes "new_server env r port b a cfg n cap = (Inr s0, calls)" and "0 < se_pipe_capacity env"
    and "server_run strerror s0 tr s"
  defines "cs \<equiv> stats_workers (server_stats s)"
  shows "stats_accepted (server_stats s) = dispatched_connections cs + of_nat (counting (srv_pool s)) +
      rejected_dispatches cs + of_nat (in_hand (main_pc s)) \<and>
    (rejected_dispatches cs = 0 \<or> rejected_dispatches cs = 1) \<and>
    (main_pc s = MReturned \<or> main_pc s = MDestroyed \<longrightarrow>
       (\<forall>w \<in> set (workers (srv_pool s)). w = WExited) \<and>
       active_connections cs = 0 \<and> queued_connections cs = 0 \<and>
       stats_accepted (server_stats s) = completed_connections cs + worker_errors cs + rejected_dispatches cs)"
  unfolding cs_def by (rule server_books [OF assms(1-3)])

theorem server_accounting_witness:
  "stats_accepted (server_stats stopped_server) =
     dispatched_connections (stats_workers (server_stats stopped_server)) +
     of_nat (counting (srv_pool stopped_server)) +
     rejected_dispatches (stats_workers (server_stats stopped_server)) + of_nat (in_hand (main_pc stopped_server))"
proof -
  obtain calls where n: "new_server sample_server_env ''/srv/site'' 8080 128 ''127.0.0.1'' default_config 1 2 =
      (Inr sample_server, calls)" using sample_server_new by blast
  show ?thesis using server_accounting [OF n sample_capacity sample_server_run [of "\<lambda>e. ''error''"]] by blast
qed

definition opened :: "server_env \<Rightarrow> setup_call list \<Rightarrow> int list" where
  "opened env calls =
     (if Listening CallSocket \<in> set calls then case be_socket (se_bind env) of Inr f \<Rightarrow> [f] | Inl e \<Rightarrow> [] else []) @
     (if Piping CallPipe \<in> set calls then case pe_pipe (se_pipe env) of Inr (r, w) \<Rightarrow> [w, r] | Inl e \<Rightarrow> [] else [])"

definition setup_closes :: "setup_call list \<Rightarrow> int list" where
  "setup_closes calls = concat (map (\<lambda>c. case c of Listening (CallClose f) \<Rightarrow> [f] | Piping (ClosePipe f) \<Rightarrow> [f] | _ \<Rightarrow> []) calls)"

text \<open>
  Construction does not leak. Whichever step of the constructor fails, each descriptor
  opened until then (the listening socket and the two ends of the pipe) is closed exactly
  once; if it succeeds none is closed, the notification end of the pipe has been made
  non-blocking, and the listener and the pipe are the server's.
\<close>

theorem new_server_no_leak:
  assumes "new_server env root_path port backlog address cfg n cap = (result, calls)"
  shows "case result of
      Inl err \<Rightarrow> mset (setup_closes calls) = mset (opened env calls)
    | Inr s \<Rightarrow> setup_closes calls = [] \<and>
        opened env calls = [lst_fd (listener s), shutdown_notification_fd s, fst (shutdown_pipe s)] \<and>
        (\<exists>flags. Piping (CallSetfl (shutdown_notification_fd s) (flags OR O_NONBLOCK)) \<in> set calls)"
  using assms
  by (auto simp: new_server_def bind_ipv4_def make_shutdown_pipe_def setup_closes_def opened_def Let_def
      shutdown_notification_fd_def split: option.splits sum.splits prod.splits)

theorem new_server_no_leak_witness:
  "\<exists>calls. new_server sample_server_env ''/srv/site'' 8080 128 ''127.0.0.1'' default_config 1 2 = (Inr sample_server, calls) \<and>
     setup_closes calls = [] \<and> opened sample_server_env calls = [3, 5, 4]"
proof -
  obtain calls where n: "new_server sample_server_env ''/srv/site'' 8080 128 ''127.0.0.1'' default_config 1 2 =
      (Inr sample_server, calls)" using sample_server_new by blast
  then show ?thesis
    using new_server_no_leak [OF n] by (auto simp: sample_server_def shutdown_notification_fd_def)
qed

end
