(* ===== verification/Metrics.thy ===== *)
theory Metrics
  imports Server
begin

section \<open>The shutdown metrics line\<close>

text \<open>
  Models \<open>include/http/metrics.hpp\<close> and \<open>src/metrics.cpp\<close>: the one-line JSON object printed when
  the server has stopped. A reader for flat JSON objects serves as the specification of what
  the line says.
\<close>

definition format_shutdown_metrics :: "http_server_stats \<Rightarrow> int \<Rightarrow> bytes" where
  "format_shutdown_metrics stats uptime =
     (let workers = stats_workers stats; num = (\<lambda>w :: size_t. show_nat (unat w))
      in ''{\"event\":\"server_shutdown\"'' @
         '',\"uptime_ms\":'' @ show_int uptime @
         '',\"accepted_connections\":'' @ num (stats_accepted stats) @
         '',\"dispatched_connections\":'' @ num (dispatched_connections workers) @
         '',\"rejected_dispatches\":'' @ num (rejected_dispatches workers) @
         '',\"active_connections\":'' @ num (active_connections workers) @
         '',\"queued_connections\":'' @ num (queued_connections workers) @
         '',\"queue_high_water\":'' @ num (queue_high_water workers) @
         '',\"completed_connections\":'' @ num (completed_connections workers) @
         '',\"requests_served\":'' @ num (total_requests_served workers) @
         '',\"bytes_read\":'' @ num (total_bytes_read workers) @
         '',\"bytes_written\":'' @ num (total_bytes_written workers) @
         '',\"peer_closes\":'' @ num (peer_closes workers) @
         '',\"explicit_closes\":'' @ num (explicit_closes workers) @
         '',\"request_limit_closes\":'' @ num (request_limit_closes workers) @
         '',\"parse_errors\":'' @ num (parse_errors workers) @
         '',\"read_timeouts\":'' @ num (read_timeouts workers) @
         '',\"keep_alive_timeouts\":'' @ num (keep_alive_timeouts workers) @
         '',\"write_timeouts\":'' @ num (write_timeouts workers) @
         '',\"read_errors\":'' @ num (read_errors workers) @
         '',\"write_errors\":'' @ num (write_errors workers) @
         '',\"worker_errors\":'' @ num (worker_errors workers) @ ''}'')"

subsection \<open>A reader for flat JSON objects\<close>

datatype json = JString bytes | JNumber int

abbreviation DQ :: char where "DQ \<equiv> CHR 0x22"

fun read_string :: "bytes \<Rightarrow> (bytes \<times> bytes) option" where
  "read_string (c # s) =
     (if c = DQ \<and> DQ \<in> set s then Some (takeWhile ((\<noteq>) DQ) s, tl (dropWhile ((\<noteq>) DQ) s)) else None)"
| "read_string [] = None"

definition read_number :: "bytes \<Rightarrow> (int \<times> bytes) option" where
  "read_number s =
     (let neg = (case s of c # _ \<Rightarrow> c = CHR ''-'' | [] \<Rightarrow> False); t = (if neg then tl s else s);
          ds = takeWhile is_digit t
      in if ds = [] then None
         else Some ((if neg then - int (decimal_val ds) else int (decimal_val ds)), dropWhile is_digit t))"

definition read_value :: "bytes \<Rightarrow> (json \<times> bytes) option" where
  "read_value s =
     (if s \<noteq> [] \<and> hd s = DQ then map_option (\<lambda>(t, r). (JString t, r)) (read_string s)
      else map_option (\<lambda>(n, r). (JNumber n, r)) (read_number s))"

fun read_members :: "nat \<Rightarrow> bytes \<Rightarrow> (bytes \<times> json) list option" where
  "read_members 0 s = None"
| "read_members (Suc n) s =
     (case read_string s of
        Some (key, s1) \<Rightarrow>
          (case (if s1 \<noteq> [] \<and> hd s1 = CHR '':'' then read_value (tl s1) else None) of
             Some (v, s2) \<Rightarrow>
               (if s2 = ''}'' then Some [(key, v)]
                else if s2 \<noteq> [] \<and> hd s2 = CHR '','' then map_option ((#) (key, v)) (read_members n (tl s2))
                else None)
           | None \<Rightarrow> None)
      | None \<Rightarrow> None)"

definition read_object :: "bytes \<Rightarrow> (bytes \<times> json) list option" where
  "read_object s =
     (case s of c # s' \<Rightarrow> if c = CHR ''{'' then read_members (length s) s' else None | [] \<Rightarrow> None)"

subsection \<open>Printing\<close>

fun show_json :: "json \<Rightarrow> bytes" where
  "show_json (JString s) = DQ # s @ [DQ]"
| "show_json (JNumber n) = show_int n"

definition show_member :: "bytes \<times> json \<Rightarrow> bytes" where
  "show_member m = DQ # fst m @ DQ # CHR '':'' # show_json (snd m)"

fun show_members :: "(bytes \<times> json) list \<Rightarrow> bytes" where
  "show_members [] = ''}''"
| "show_members [m] = show_member m @ ''}''"
| "show_members (m # ms) = show_member m @ CHR '','' # show_members ms"

fun unquoted :: "json \<Rightarrow> bool" where
  "unquoted (JString s) = (DQ \<notin> set s)"
| "unquoted (JNumber n) = True"

lemma read_string_show: "DQ \<notin> set k \<Longrightarrow> read_string (DQ # k @ DQ # s) = Some (k, s)"
  by (induction k) auto

lemma digit_not_sign: "is_digit c \<Longrightarrow> c \<noteq> CHR ''-'' \<and> c \<noteq> DQ"
  by (auto simp: is_digit_def)

lemma show_nat_start: "\<exists>c cs. show_nat n = c # cs \<and> is_digit c"
  using show_nat_not_Nil [of n] show_nat_digits by (metis list.exhaust list.set_intros(1))

lemma read_number_show:
  assumes "s \<noteq> []" and "\<not> is_digit (hd s)"
  shows "read_number (show_int n @ s) = Some (n, s)"
proof -
  have sp: "takeWhile is_digit (show_nat k @ s) = show_nat k" "dropWhile is_digit (show_nat k @ s) = s" for k
    using assms show_nat_digits [of _ k] by (cases s; auto simp: takeWhile_append dropWhile_append takeWhile_show)+
  obtain c cs where c: "show_nat (nat n) = c # cs" "is_digit c" using show_nat_start by blast
  have "(case show_nat (nat n) @ s of c # _ \<Rightarrow> c = CHR ''-'' | [] \<Rightarrow> False) = False"
    using c digit_not_sign by simp
  then show ?thesis by (auto simp: read_number_def show_int_def sp decimal_show Let_def)
qed

lemma read_value_show:
  assumes "unquoted v" and "s \<noteq> []" and "\<not> is_digit (hd s)"
  shows "read_value (show_json v @ s) = Some (v, s)"
proof (cases v)
  case (JString t)
  then show ?thesis using assms read_string_show [of t s] by (simp add: read_value_def)
next
  case (JNumber n)
  obtain c cs where "show_int n = c # cs" "c \<noteq> DQ"
    using show_nat_start [of "nat n"] digit_not_sign by (cases "n < 0") (auto simp: show_int_def)
  then show ?thesis using JNumber read_number_show [OF assms(2,3), of n] by (simp add: read_value_def)
qed

lemma read_members_show:
  assumes "ms \<noteq> []" and "list_all (\<lambda>m. DQ \<notin> set (fst m) \<and> unquoted (snd m)) ms" and "length ms \<le> n"
  shows "read_members n (show_members ms) = Some ms"
  using assms
proof (induction ms arbitrary: n rule: show_members.induct)
  case (2 m)
  then obtain k where "n = Suc k" by (cases n) auto
  then show ?case using 2 read_value_show [of "snd m" "''}''"]
    by (simp add: show_member_def read_string_show is_digit_def del: read_string.simps)
next
  case (3 m m' ms)
  then obtain k where k: "n = Suc k" by (cases n) auto
  have "read_value (show_json (snd m) @ CHR '','' # show_members (m' # ms)) =
      Some (snd m, CHR '','' # show_members (m' # ms))"
    using 3(3) by (intro read_value_show) (auto simp: is_digit_def)
  then show ?case using 3 k
    by (simp add: show_member_def read_string_show del: read_string.simps)
qed simp

lemma show_members_length: "length ms \<le> length (show_members ms)"
  by (induction ms rule: show_members.induct) (auto simp: show_member_def)

lemma read_object_show:
  assumes "ms \<noteq> []" and "list_all (\<lambda>m. DQ \<notin> set (fst m) \<and> unquoted (snd m)) ms"
  shows "read_object (CHR ''{'' # show_members ms) = Some ms"
  using read_members_show [OF assms] show_members_length [of ms] by (simp add: read_object_def del: read_members.simps)

definition metrics_fields :: "http_server_stats \<Rightarrow> int \<Rightarrow> (bytes \<times> json) list" where
  "metrics_fields stats uptime =
     (let w = stats_workers stats; num = (\<lambda>x :: size_t. JNumber (uint x))
      in [(''event'', JString ''server_shutdown''), (''uptime_ms'', JNumber uptime),
          (''accepted_connections'', num (stats_accepted stats)),
          (''dispatched_connections'', num (dispatched_connections w)),
          (''rejected_dispatches'', num (rejected_dispatches w)),
          (''active_connections'', num (active_connections w)),
          (''queued_connections'', num (queued_connections w)),
          (''queue_high_water'', num (queue_high_water w)),
          (''completed_connections'', num (completed_connections w)),
          (''requests_served'', num (total_requests_served w)),
          (''bytes_read'', num (total_bytes_read w)), (''bytes_written'', num (total_bytes_written w)),
          (''peer_closes'', num (peer_closes w)), (''explicit_closes'', num (explicit_closes w)),
          (''request_limit_closes'', num (request_limit_closes w)),
          (''parse_errors'', num (parse_errors w)), (''read_timeouts'', num (read_timeouts w)),
          (''keep_alive_timeouts'', num (keep_alive_timeouts w)),
          (''write_timeouts'', num (write_timeouts w)), (''read_errors'', num (read_errors w)),
          (''write_errors'', num (write_errors w)), (''worker_errors'', num (worker_errors w))])"

lemma show_word: "show_int (uint (x :: size_t)) = show_nat (unat x)"
  by (simp add: show_int_def)

lemma format_members: "format_shutdown_metrics stats uptime = CHR ''{'' # show_members (metrics_fields stats uptime)"
  by (simp add: format_shutdown_metrics_def metrics_fields_def show_member_def show_word Let_def)

lemma metrics_read: "read_object (format_shutdown_metrics stats uptime) = Some (metrics_fields stats uptime)"
  unfolding format_members
  by (rule read_object_show) (simp_all add: metrics_fields_def Let_def)

subsection \<open>Properties\<close>

text \<open>
  C25. The metrics line is a flat JSON object from which every counter can be read back: a
  reader finds the event, the uptime and the twenty counters under their names, in order and
  with their full values; so two different sets of statistics never print the same line.
\<close>

theorem metrics_round_trip:
  "read_object (format_shutdown_metrics stats uptime) = Some (metrics_fields stats uptime) \<and>
   distinct (map fst (metrics_fields stats uptime)) \<and>
   (format_shutdown_metrics stats uptime = format_shutdown_metrics stats' uptime' \<longrightarrow>
      stats = stats' \<and> uptime = uptime')"
proof -
  have "stats = stats' \<and> uptime = uptime'"
    if "format_shutdown_metrics stats uptime = format_shutdown_metrics stats' uptime'"
  proof -
    have "metrics_fields stats uptime = metrics_fields stats' uptime'"
      using that metrics_read by (metis option.inject)
    then have eq: "uptime = uptime'" "stats_accepted stats = stats_accepted stats'"
      and w: "stats_workers stats = stats_workers stats'"
      by (simp_all add: metrics_fields_def Let_def word_uint_eq_iff)
    then show ?thesis by simp
  qed
  moreover have "distinct (map fst (metrics_fields stats uptime))" by (simp add: metrics_fields_def Let_def)
  ultimately show ?thesis using metrics_read by blast
qed

theorem metrics_round_trip_witness:
  "read_object (format_shutdown_metrics (server_stats sample_server) 12) =
     Some (metrics_fields (server_stats sample_server) 12)"
  using metrics_round_trip [of "server_stats sample_server" 12 "server_stats sample_server" 12] by blast

end
