(* ===== verification/Main_Program.thy ===== *)
theory Main_Program
  imports Metrics
begin

section \<open>The main program\<close>

text \<open>
  Models \<open>src/main.cpp\<close>: the command line, the signal handler with its global descriptor, and
  \<open>main\<close> over the answers of the operating system. What \<open>serve_forever\<close> does is a parameter
  here (an exception, or the statistics and the uptime at its return); it is modelled in theory
  \<open>Server\<close>.
\<close>

subsection \<open>Command line\<close>

definition parse_port :: "bytes \<Rightarrow> bytes + uint16" where
  "parse_port input =
     (case from_chars input of
        (ec, ptr, port :: 32 word) \<Rightarrow>
          if ec \<noteq> Errc_ok \<or> ptr \<noteq> length input \<or> port = 0 \<or> 65535 < port
          then Inl ''port must be an integer from 1 to 65535''
          else Inr (ucast port))"

definition parse_positive_size :: "bytes \<Rightarrow> bytes \<Rightarrow> bytes + size_t" where
  "parse_positive_size input name =
     (case from_chars input of
        (ec, ptr, value) \<Rightarrow>
          if ec \<noteq> Errc_ok \<or> ptr \<noteq> length input \<or> value = 0
          then Inl (name @ '' must be a positive integer'')
          else Inr value)"

definition print_usage :: "bytes \<Rightarrow> bytes" where
  "print_usage program =
     ''usage: '' @ program @ '' [port] [document-root] [bind-address] [workers] [queue-capacity]'' @ [LF]"

record options =
  opt_port :: uint16
  opt_root :: path
  opt_address :: bytes
  opt_workers :: size_t
  opt_capacity :: size_t

text \<open>The initialisers at the start of \<open>main\<close>; \<open>argv\<close> includes the program's name.\<close>

definition read_options :: "bytes list \<Rightarrow> bytes + options" where
  "read_options argv =
     (let argc = length argv
      in case (if argc \<ge> 2 then parse_port (argv ! 1) else Inr 8080) of
           Inl err \<Rightarrow> Inl err
         | Inr port \<Rightarrow>
           let document_root = (if argc \<ge> 3 then argv ! 2 else ''www'');
               bind_address = (if argc \<ge> 4 then argv ! 3 else ''127.0.0.1'')
           in case (if argc \<ge> 5 then parse_positive_size (argv ! 4) ''worker count'' else Inr 4) of
                Inl err \<Rightarrow> Inl err
              | Inr worker_count \<Rightarrow>
                (case (if argc \<ge> 6 then parse_positive_size (argv ! 5) ''queue capacity'' else Inr 128) of
                   Inl err \<Rightarrow> Inl err
                 | Inr queue_capacity \<Rightarrow>
                   Inr \<lparr>opt_port = port, opt_root = document_root, opt_address = bind_address,
                        opt_workers = worker_count, opt_capacity = queue_capacity\<rparr>))"

subsection \<open>Signals\<close>

text \<open>
  \<open>handle_shutdown_signal\<close> writes one byte to the descriptor in the global variable, unless
  that is negative; the result is the list of descriptors written to. \<open>errno\<close> is restored.
\<close>

definition handle_shutdown_signal :: "int \<Rightarrow> int \<Rightarrow> int list \<times> int" where
  "handle_shutdown_signal notification_fd errno_value =
     (let saved_errno = errno_value
      in (if notification_fd \<ge> 0 then [notification_fd] else [], saved_errno))"

definition install_shutdown_handler :: "bool \<Rightarrow> bool \<Rightarrow> int \<Rightarrow> (bytes + unit) \<times> int" where
  "install_shutdown_handler sigint_ok sigterm_ok notification_fd =
     (if \<not> sigint_ok \<or> \<not> sigterm_ok
      then (Inl ''failed to install shutdown signal handlers'', - 1)
      else (Inr (), notification_fd))"

subsection \<open>The program\<close>

record main_env =
  me_server :: server_env
  me_sigint_ok :: bool
  me_sigterm_ok :: bool
  me_serve :: "http_server \<Rightarrow> bytes + http_server_stats \<times> int"

record main_result =
  exit_code :: int
  std_out :: bytes
  std_err :: bytes
  notification_fd :: int

text \<open>Output of a path: quoted, with a backslash before quotes and backslashes.\<close>

definition quoted_path :: "path \<Rightarrow> bytes" where
  "quoted_path p =
     DQ # concat (map (\<lambda>c. if c = DQ \<or> c = CHR 0x5C then [CHR 0x5C, c] else [c]) p) @ [DQ]"

definition banner :: "options \<Rightarrow> http_server \<Rightarrow> path \<Rightarrow> bytes" where
  "banner opts server root_path =
     ''listening on http://'' @ opt_address opts @ '':'' @ show_nat (unat (server_port server)) @
     '' serving '' @ quoted_path root_path @ '' with '' @ show_nat (unat (opt_workers opts)) @
     '' workers and queue capacity '' @ show_nat (unat (opt_capacity opts)) @ [LF]"

definition failed :: "bytes \<Rightarrow> bytes \<Rightarrow> int \<Rightarrow> main_result" where
  "failed out err nfd = \<lparr>exit_code = 1, std_out = out, std_err = ''http_server: '' @ err @ [LF], notification_fd = nfd\<rparr>"

definition main_program :: "main_env \<Rightarrow> bytes list \<Rightarrow> main_result" where
  "main_program env argv =
     (if length argv > 6
      then \<lparr>exit_code = 2, std_out = [], std_err = print_usage (argv ! 0), notification_fd = - 1\<rparr>
      else case read_options argv of
          Inl err \<Rightarrow> failed [] err (- 1)
        | Inr opts \<Rightarrow>
          (case new_server (me_server env) (opt_root opts) (opt_port opts) 128 (opt_address opts)
                  default_config (opt_workers opts) (opt_capacity opts) of
             (Inl err, calls) \<Rightarrow> failed [] err (- 1)
           | (Inr server, calls) \<Rightarrow>
             (case install_shutdown_handler (me_sigint_ok env) (me_sigterm_ok env)
                     (shutdown_notification_fd server) of
                (Inl err, nfd) \<Rightarrow> failed [] err nfd
              | (Inr _, nfd) \<Rightarrow>
                (case fs_canonical (se_fs (me_server env)) (opt_root opts) of
                   None \<Rightarrow>
                     failed (''listening on http://'' @ opt_address opts @ '':'' @
                         show_nat (unat (server_port server)) @ '' serving '')
                       (se_canonical_error (me_server env)) nfd
                 | Some root_path \<Rightarrow>
                   (case me_serve env server of
                      Inl err \<Rightarrow> failed (banner opts server root_path) err nfd
                    | Inr (stats, uptime) \<Rightarrow>
                      \<lparr>exit_code = 0,
                       std_out = banner opts server root_path @ format_shutdown_metrics stats uptime @ [LF],
                       std_err = [], notification_fd = - 1\<rparr>)))))"


lemma from_chars_iff:
  "from_chars s = (Errc_ok, length s, v :: 'w::len word) \<longleftrightarrow>
     s \<noteq> [] \<and> list_all is_digit s \<and> decimal_val s = unat v"
proof
  assume "from_chars s = (Errc_ok, length s, v)"
  then show "s \<noteq> [] \<and> list_all is_digit s \<and> decimal_val s = unat v" using from_chars_full by force
next
  assume a: "s \<noteq> [] \<and> list_all is_digit s \<and> decimal_val s = unat v"
  then have t: "takeWhile is_digit s = s" by (simp add: takeWhile_eq_all_conv list_all_iff)
  have "unat v < 2 ^ LENGTH('w)" by (rule unsigned_less)
  then show "from_chars s = (Errc_ok, length s, v)"
    using a unfolding from_chars_def t Let_def by (simp add: not_le)
qed

lemma port_width:
  "(\<exists>v :: 32 word. n = unat v \<and> v \<noteq> 0 \<and> v \<le> 65535 \<and> p = (ucast v :: uint16)) \<longleftrightarrow> n = unat p \<and> 0 < n"
proof
  assume "\<exists>v :: 32 word. n = unat v \<and> v \<noteq> 0 \<and> v \<le> 65535 \<and> p = ucast v"
  then obtain v :: "32 word" where v: "n = unat v" "v \<noteq> 0" "v \<le> 65535" "p = ucast v" by blast
  then have "unat v < 2 ^ 16" by (simp add: word_le_nat_alt)
  then show "n = unat p \<and> 0 < n"
    using v by (simp add: unsigned_ucast_eq take_bit_nat_eq_self unat_gt_0)
next
  assume a: "n = unat p \<and> 0 < n"
  have "unat p < 2 ^ 16" using unsigned_less [of p] by simp
  then have n: "unat (ucast p :: 32 word) = n"
    using a by (simp add: unsigned_ucast_eq take_bit_nat_eq_self)
  then have "unat (ucast (ucast p :: 32 word) :: uint16) = unat p"
    using a \<open>unat p < 2 ^ 16\<close> by (simp add: unsigned_ucast_eq [of "ucast p"] take_bit_nat_eq_self)
  then have "ucast (ucast p :: 32 word) = p" by (metis word_unat_eq_iff)
  moreover note n
  moreover have "unat (ucast p :: 32 word) \<le> 65535" using \<open>unat p < 2 ^ 16\<close> a n by simp
  ultimately show "\<exists>v :: 32 word. n = unat v \<and> v \<noteq> 0 \<and> v \<le> 65535 \<and> p = ucast v"
    using a by (intro exI [of _ "ucast p"]) (auto simp: word_le_nat_alt)
qed

subsection \<open>Properties\<close>

text \<open>
  The command line accepts exactly the decimal numbers in range. A port is accepted if and
  only if the argument is a non-empty string of digits (no sign, no space, nothing after them)
  whose value is the port and at least 1, however many digits it has; a size if and only if it
  is a non-empty string of digits whose value is the size and at least 1. Values that do not
  fit the type are refused, never wrapped.
\<close>

theorem numbers_exact:
  "(parse_port s = Inr p \<longleftrightarrow> s \<noteq> [] \<and> list_all is_digit s \<and> decimal_val s = unat p \<and> 0 < decimal_val s) \<and>
   (parse_positive_size s name = Inr n \<longleftrightarrow>
      s \<noteq> [] \<and> list_all is_digit s \<and> decimal_val s = unat n \<and> 0 < decimal_val s)"
proof -
  have "parse_port s = Inr p \<longleftrightarrow>
      (\<exists>v :: 32 word. from_chars s = (Errc_ok, length s, v) \<and> v \<noteq> 0 \<and> v \<le> 65535 \<and> p = ucast v)"
    by (auto simp: parse_port_def not_less split: prod.splits if_splits)
  also have "\<dots> \<longleftrightarrow> s \<noteq> [] \<and> list_all is_digit s \<and>
      (\<exists>v :: 32 word. decimal_val s = unat v \<and> v \<noteq> 0 \<and> v \<le> 65535 \<and> p = ucast v)"
    unfolding from_chars_iff by blast
  finally have "parse_port s = Inr p \<longleftrightarrow>
      s \<noteq> [] \<and> list_all is_digit s \<and> decimal_val s = unat p \<and> 0 < decimal_val s"
    unfolding port_width by blast
  moreover have "parse_positive_size s name = Inr n \<longleftrightarrow> from_chars s = (Errc_ok, length s, n) \<and> n \<noteq> 0"
    by (auto simp: parse_positive_size_def split: prod.splits if_splits)
  ultimately show ?thesis unfolding from_chars_iff unat_gt_0 [symmetric]
    by metis
qed

text \<open>
  Signals after the end of \<open>main\<close>. When \<open>main\<close> returns 0 or 2 the handler no longer writes
  anywhere. When \<open>serve_forever\<close> throws, \<open>main\<close> returns 1 with the global variable still naming
  the write end of the notification pipe, which the server's destructor has closed: a signal
  that arrives then makes the handler write to that descriptor number.
\<close>

theorem main_signal_after_exit:
  "(exit_code (main_program env argv) \<noteq> 1 \<longrightarrow>
      fst (handle_shutdown_signal (notification_fd (main_program env argv)) e) = []) \<and>
   (length argv \<le> 6 \<and> read_options argv = Inr opts \<and>
      new_server (me_server env) (opt_root opts) (opt_port opts) 128 (opt_address opts) default_config
        (opt_workers opts) (opt_capacity opts) = (Inr server, calls) \<and>
      me_sigint_ok env \<and> me_sigterm_ok env \<and>
      fs_canonical (se_fs (me_server env)) (opt_root opts) = Some r \<and> me_serve env server = Inl err \<and>
      0 \<le> shutdown_notification_fd server \<longrightarrow>
      exit_code (main_program env argv) = 1 \<and>
      fst (handle_shutdown_signal (notification_fd (main_program env argv)) e) =
        [shutdown_notification_fd server])"
  by (auto simp: main_program_def failed_def install_shutdown_handler_def handle_shutdown_signal_def
      split: sum.splits prod.splits option.splits)

definition sample_main_env :: main_env where
  "sample_main_env = \<lparr>me_server = sample_server_env, me_sigint_ok = True, me_sigterm_ok = True,
     me_serve = (\<lambda>s. Inl ''accept: Too many open files'')\<rparr>"

definition sample_options :: options where
  "sample_options = \<lparr>opt_port = 8080, opt_root = ''/srv/site'', opt_address = ''127.0.0.1'', opt_workers = 1,
     opt_capacity = 2\<rparr>"

lemma sample_read_options:
  "read_options [''http_server'', ''8080'', ''/srv/site'', ''127.0.0.1'', ''1'', ''2''] = Inr sample_options"
  by (simp add: read_options_def parse_port_def parse_positive_size_def from_chars_def is_digit_def
      decimal_val_def digit_val_def sample_options_def word_less_nat_alt)

theorem main_signal_after_exit_witness:
  "exit_code (main_program sample_main_env
      [''http_server'', ''8080'', ''/srv/site'', ''127.0.0.1'', ''1'', ''2'']) = 1 \<and>
   fst (handle_shutdown_signal (notification_fd (main_program sample_main_env
      [''http_server'', ''8080'', ''/srv/site'', ''127.0.0.1'', ''1'', ''2''])) 0) = [5]"
proof -
  obtain calls where "new_server sample_server_env ''/srv/site'' 8080 128 ''127.0.0.1'' default_config 1 2 =
      (Inr sample_server, calls)" using sample_server_new by blast
  then show ?thesis
    using sample_read_options main_signal_after_exit [of sample_main_env
        "[''http_server'', ''8080'', ''/srv/site'', ''127.0.0.1'', ''1'', ''2'']" 0 sample_options
        sample_server calls "''/srv/site''" "''accept: Too many open files''"]
    by (simp add: sample_main_env_def sample_options_def sample_server_env_def sample_server_def
        shutdown_notification_fd_def)
qed

end
