(* ===== verification/Fd.thy ===== *)
theory Fd
  imports Run_System
begin

section \<open>Owned file descriptors\<close>

text \<open>
  Models \<open>include/http/fd.hpp\<close> and \<open>src/fd.cpp\<close>. The world holds the live \<open>Fd\<close> objects by
  address with their member \<open>fd_\<close>, the descriptors that the kernel has open, and those open
  descriptors that no object owns (just returned by a system call or by \<open>release\<close>). Opening
  and closing are the effects.
\<close>

subsection \<open>Operations\<close>

record fd_world =
  cells :: "nat \<rightharpoonup> int"
  open_fds :: "int set"
  loose :: "int set"

datatype fd_effect = Opened int | ClosedFd int

definition fd_construct :: "nat \<Rightarrow> int \<Rightarrow> fd_world \<Rightarrow> fd_world" where
  "fd_construct a f w = w\<lparr>cells := (cells w)(a \<mapsto> f), loose := loose w - {f}\<rparr>"

definition fd_get :: "nat \<Rightarrow> fd_world \<Rightarrow> int" where
  "fd_get a w = the (cells w a)"

definition fd_valid :: "nat \<Rightarrow> fd_world \<Rightarrow> bool" where
  "fd_valid a w \<longleftrightarrow> fd_get a w \<ge> 0"

definition sys_close :: "int \<Rightarrow> fd_world \<Rightarrow> fd_world" where
  "sys_close f w = w\<lparr>open_fds := open_fds w - {f}\<rparr>"

definition fd_reset :: "nat \<Rightarrow> int \<Rightarrow> fd_world \<Rightarrow> fd_world \<times> fd_effect list" where
  "fd_reset a f w =
     (let old = fd_get a w;
          (w, effs) = (if old \<ge> 0 \<and> old \<noteq> f then (sys_close old w, [ClosedFd old]) else (w, []))
      in (fd_construct a f w, effs))"

definition fd_destroy :: "nat \<Rightarrow> fd_world \<Rightarrow> fd_world \<times> fd_effect list" where
  "fd_destroy a w =
     (case fd_reset a (- 1) w of (w, effs) \<Rightarrow> (w\<lparr>cells := (cells w)(a := None)\<rparr>, effs))"

definition fd_exchange :: "nat \<Rightarrow> fd_world \<Rightarrow> int \<times> fd_world" where
  "fd_exchange a w = (fd_get a w, w\<lparr>cells := (cells w)(a \<mapsto> - 1)\<rparr>)"

definition fd_move_construct :: "nat \<Rightarrow> nat \<Rightarrow> fd_world \<Rightarrow> fd_world" where
  "fd_move_construct a b w = (case fd_exchange b w of (f, w) \<Rightarrow> w\<lparr>cells := (cells w)(a \<mapsto> f)\<rparr>)"

definition fd_move_assign :: "nat \<Rightarrow> nat \<Rightarrow> fd_world \<Rightarrow> fd_world \<times> fd_effect list" where
  "fd_move_assign a b w =
     (if a \<noteq> b then
        case fd_reset a (- 1) w of (w, effs) \<Rightarrow>
        case fd_exchange b w of (f, w) \<Rightarrow> (w\<lparr>cells := (cells w)(a \<mapsto> f)\<rparr>, effs)
      else (w, []))"

definition fd_release :: "nat \<Rightarrow> fd_world \<Rightarrow> int \<times> fd_world" where
  "fd_release a w =
     (case fd_exchange a w of (f, w) \<Rightarrow> (f, w\<lparr>loose := (if f \<ge> 0 then insert f (loose w) else loose w)\<rparr>))"

subsection \<open>Programs\<close>

datatype fd_op = SysOpen int | Construct nat int | Destroy nat | MoveConstruct nat nat
  | MoveAssign nat nat | Release nat | Reset nat int

fun fd_step :: "fd_op \<Rightarrow> fd_world \<Rightarrow> fd_world \<times> fd_effect list" where
  "fd_step (SysOpen f) w = (w\<lparr>open_fds := insert f (open_fds w), loose := insert f (loose w)\<rparr>, [Opened f])"
| "fd_step (Construct a f) w = (fd_construct a f w, [])"
| "fd_step (Destroy a) w = fd_destroy a w"
| "fd_step (MoveConstruct a b) w = (fd_move_construct a b w, [])"
| "fd_step (MoveAssign a b) w = fd_move_assign a b w"
| "fd_step (Release a) w = (snd (fd_release a w), [])"
| "fd_step (Reset a f) w = fd_reset a f w"

text \<open>
  What a program must respect: objects are live when used and new when constructed, the kernel
  hands out descriptors that are not open, and an object is given only a descriptor that
  nobody owns, or an invalid one, or on \<open>reset\<close> its own.
\<close>

fun fd_op_ok :: "fd_op \<Rightarrow> fd_world \<Rightarrow> bool" where
  "fd_op_ok (SysOpen f) w \<longleftrightarrow> f \<ge> 0 \<and> f \<notin> open_fds w"
| "fd_op_ok (Construct a f) w \<longleftrightarrow> cells w a = None \<and> (f < 0 \<or> f \<in> loose w)"
| "fd_op_ok (Destroy a) w \<longleftrightarrow> cells w a \<noteq> None"
| "fd_op_ok (MoveConstruct a b) w \<longleftrightarrow> cells w a = None \<and> cells w b \<noteq> None"
| "fd_op_ok (MoveAssign a b) w \<longleftrightarrow> cells w a \<noteq> None \<and> cells w b \<noteq> None"
| "fd_op_ok (Release a) w \<longleftrightarrow> cells w a \<noteq> None"
| "fd_op_ok (Reset a f) w \<longleftrightarrow> cells w a \<noteq> None \<and> (f < 0 \<or> f \<in> loose w \<or> f = fd_get a w)"

subsection \<open>Single ownership\<close>

definition owner :: "fd_world \<Rightarrow> int \<Rightarrow> nat \<Rightarrow> bool" where
  "owner w f a \<longleftrightarrow> f \<ge> 0 \<and> cells w a = Some f"

definition own_inv :: "fd_world \<Rightarrow> bool" where
  "own_inv w \<longleftrightarrow>
     (\<forall>f a b. owner w f a \<longrightarrow> owner w f b \<longrightarrow> a = b) \<and>
     (\<forall>f. f \<in> open_fds w \<longleftrightarrow> f \<in> loose w \<or> (\<exists>a. owner w f a)) \<and>
     (\<forall>f a. f \<in> loose w \<longrightarrow> \<not> owner w f a) \<and> (\<forall>f \<in> loose w. f \<ge> 0)"

lemma fd_reset_eq:
  "fd_reset a f w =
     (if fd_get a w \<ge> 0 \<and> fd_get a w \<noteq> f
      then (fd_construct a f (sys_close (fd_get a w) w), [ClosedFd (fd_get a w)])
      else (fd_construct a f w, []))"
  by (simp add: fd_reset_def Let_def)

lemmas fd_defs = fd_construct_def sys_close_def fd_reset_eq fd_destroy_def fd_exchange_def
  fd_move_construct_def fd_move_assign_def fd_release_def fd_get_def

text \<open>Ownership is kept by giving a loose descriptor to an object, taking it back, closing it.\<close>

lemma give_inv:
  assumes "own_inv w" and "cells w a = None \<or> (\<exists>v < 0. cells w a = Some v)" and "f < 0 \<or> f \<in> loose w"
  shows "own_inv (fd_construct a f w)"
proof -
  have o: "owner (fd_construct a f w) g b \<longleftrightarrow> (if b = a then g = f \<and> g \<ge> 0 else owner w g b)" for g b
    by (auto simp: owner_def fd_construct_def)
  have na: "\<not> owner w g a" for g using assms(2) by (auto simp: owner_def)
  show ?thesis
    unfolding own_inv_def o
    using assms(1,3) na by (auto simp: own_inv_def fd_construct_def split: if_splits) metis+
qed

definition take_back :: "nat \<Rightarrow> fd_world \<Rightarrow> fd_world" where
  "take_back a w = w\<lparr>cells := (cells w)(a \<mapsto> - 1),
     loose := (if fd_get a w \<ge> 0 then insert (fd_get a w) (loose w) else loose w)\<rparr>"

lemma take_back_inv:
  assumes "own_inv w" and "cells w a = Some v"
  shows "own_inv (take_back a w)"
proof -
  have o: "owner (take_back a w) g b \<longleftrightarrow> b \<noteq> a \<and> owner w g b" for g b
    by (auto simp: owner_def take_back_def)
  have v: "owner w g a \<longleftrightarrow> g = v \<and> g \<ge> 0" for g using assms(2) by (auto simp: owner_def)
  have g: "fd_get a w = v" using assms(2) by (simp add: fd_get_def)
  show ?thesis
    unfolding own_inv_def o
    using assms(1) v by (auto simp: own_inv_def take_back_def g) metis+
qed

definition close_loose :: "int \<Rightarrow> fd_world \<Rightarrow> fd_world" where
  "close_loose f w = w\<lparr>open_fds := open_fds w - {f}, loose := loose w - {f}\<rparr>"

lemma close_loose_inv:
  assumes "own_inv w" and "f \<in> loose w"
  shows "own_inv (close_loose f w)"
proof -
  have "owner (close_loose f w) = owner w" by (simp add: owner_def close_loose_def fun_eq_iff)
  then show ?thesis using assms by (auto simp: own_inv_def close_loose_def)
qed

lemma remove_inv:
  assumes "own_inv w" and "cells w a = Some v" and "v < 0"
  shows "own_inv (w\<lparr>cells := (cells w)(a := None)\<rparr>)"
proof -
  have "owner (w\<lparr>cells := (cells w)(a := None)\<rparr>) = owner w"
    using assms(2,3) by (auto simp: owner_def fun_eq_iff)
  then show ?thesis using assms(1) by (simp add: own_inv_def)
qed

lemma owned_not_loose: "own_inv w \<Longrightarrow> cells w a = Some v \<Longrightarrow> v \<notin> loose w"
  by (auto simp: own_inv_def owner_def)

lemma reset_inv:
  assumes "own_inv w" and "cells w a = Some v" and "f < 0 \<or> f \<in> loose w \<or> f = v"
  shows "own_inv (fst (fd_reset a f w))"
proof -
  have g: "fd_get a w = v" using assms(2) by (simp add: fd_get_def)
  have nl: "v \<notin> loose w" by (rule owned_not_loose [OF assms(1,2)])
  consider "v < 0" | "0 \<le> v" "v = f" | "0 \<le> v" "v \<noteq> f" by linarith
  then show ?thesis
  proof cases
    case 1
    then show ?thesis using give_inv [OF assms(1), of a f] assms(2,3) g by (auto simp: fd_reset_def)
  next
    case 2
    then have "fst (fd_reset a f w) = w"
      using g nl assms(2) by (cases w) (auto simp: fd_reset_def fd_construct_def)
    then show ?thesis using assms(1) by simp
  next
    case 3
    then have "fst (fd_reset a f w) = fd_construct a f (close_loose v (take_back a w))"
      using g nl by (simp add: fd_reset_def fd_construct_def sys_close_def close_loose_def take_back_def)
    moreover have "own_inv (close_loose v (take_back a w))"
      using 3 g by (intro close_loose_inv take_back_inv [OF assms(1,2)]) (simp add: take_back_def)
    moreover have "f < 0 \<or> f \<in> loose (close_loose v (take_back a w))"
      using 3 assms(3) g by (auto simp: close_loose_def take_back_def)
    ultimately show ?thesis
      using give_inv by (simp add: close_loose_def take_back_def)
  qed
qed

lemma exchange_give:
  assumes "own_inv w" and "cells w b = Some v" and "cells w a = None \<or> (\<exists>u < 0. cells w a = Some u)" and "a \<noteq> b"
  shows "own_inv (w\<lparr>cells := (cells w)(b \<mapsto> - 1, a \<mapsto> v)\<rparr>)"
proof -
  have g: "fd_get b w = v" using assms(2) by (simp add: fd_get_def)
  have nl: "v \<notin> loose w" by (rule owned_not_loose [OF assms(1,2)])
  have "w\<lparr>cells := (cells w)(b \<mapsto> - 1, a \<mapsto> v)\<rparr> = fd_construct a v (take_back b w)"
    using g nl by (simp add: fd_construct_def take_back_def)
  then show ?thesis
    using give_inv [OF take_back_inv [OF assms(1,2)], of a v] assms(3,4) g by (auto simp: take_back_def)
qed

lemma fd_step_own:
  assumes "own_inv w" and "fd_op_ok op w"
  shows "own_inv (fst (fd_step op w))"
proof (cases op)
  case (SysOpen f)
  then show ?thesis using assms by (auto simp: own_inv_def owner_def)
next
  case (Construct a f)
  then show ?thesis using assms give_inv by simp
next
  case (Destroy a)
  then obtain v where v: "cells w a = Some v" using assms(2) by auto
  have "own_inv (fst (fd_reset a (- 1) w))" by (rule reset_inv [OF assms(1) v]) simp
  then show ?thesis
    using Destroy remove_inv [of "fst (fd_reset a (- 1) w)" a "- 1"]
    by (auto simp: fd_destroy_def fd_reset_eq fd_construct_def split: if_splits)
next
  case (MoveConstruct a b)
  then obtain v where v: "cells w b = Some v" "cells w a = None" using assms(2) by auto
  then have "a \<noteq> b" by auto
  then show ?thesis
    using MoveConstruct v exchange_give [OF assms(1) v(1), of a]
    by (simp add: fd_move_construct_def fd_exchange_def fd_get_def)
next
  case (MoveAssign a b)
  then obtain u v where uv: "cells w a = Some u" "cells w b = Some v" using assms(2) by auto
  obtain w1 effs where w1: "fd_reset a (- 1) w = (w1, effs)" by (cases "fd_reset a (- 1) w")
  have "own_inv w1" using reset_inv [OF assms(1) uv(1), of "- 1"] w1 by simp
  moreover have "cells w1 a = Some (- 1)" "a \<noteq> b \<Longrightarrow> cells w1 b = Some v"
    using w1 uv(2) by (auto simp: fd_reset_eq fd_construct_def sys_close_def split: if_splits)
  ultimately show ?thesis
    using MoveAssign w1 assms(1) exchange_give [of w1 b v a]
    by (auto simp: fd_move_assign_def fd_exchange_def fd_get_def)
next
  case (Release a)
  then obtain v where "cells w a = Some v" using assms(2) by auto
  moreover have "snd (fd_release a w) = take_back a w"
    by (simp add: fd_release_def fd_exchange_def take_back_def)
  ultimately show ?thesis using Release take_back_inv [OF assms(1)] by simp
next
  case (Reset a f)
  then show ?thesis using assms reset_inv by (auto simp: fd_get_def)
qed

lemma fd_step_effects:
  assumes "own_inv w" and "fd_op_ok op w"
  obtains (same) "snd (fd_step op w) = []" "open_fds (fst (fd_step op w)) = open_fds w"
  | (opened) f where "snd (fd_step op w) = [Opened f]" "f \<notin> open_fds w"
      "open_fds (fst (fd_step op w)) = insert f (open_fds w)"
  | (closed) f where "snd (fd_step op w) = [ClosedFd f]" "f \<in> open_fds w"
      "open_fds (fst (fd_step op w)) = open_fds w - {f}"
proof -
  have o: "v \<in> open_fds w" if "cells w a = Some v" "v \<ge> 0" for a v
    using assms(1) that by (auto simp: own_inv_def owner_def)
  have r: thesis if e: "snd (fd_step op w) = snd (fd_reset a f w)"
      "open_fds (fst (fd_step op w)) = open_fds (fst (fd_reset a f w))" and a: "cells w a \<noteq> None" for a f
  proof (cases "fd_get a w \<ge> 0 \<and> fd_get a w \<noteq> f")
    case True
    then have "fd_get a w \<in> open_fds w" using o a by (auto simp: fd_get_def)
    then show thesis using True e closed by (simp add: fd_reset_eq fd_construct_def sys_close_def)
  next
    case False
    then show thesis using e same by (auto simp: fd_reset_eq fd_construct_def)
  qed
  show thesis
  proof (cases op)
    case (Destroy a)
    then show thesis using assms(2) r [of a "- 1"] by (simp add: fd_destroy_def split: prod.splits)
  next
    case (MoveAssign a b)
    show thesis
    proof (cases "a = b")
      case True
      then show thesis using MoveAssign same by (simp add: fd_move_assign_def)
    next
      case False
      obtain w1 effs where "fd_reset a (- 1) w = (w1, effs)" by (cases "fd_reset a (- 1) w")
      then show thesis
        using MoveAssign False assms(2) r [of a "- 1"] by (simp add: fd_move_assign_def fd_exchange_def)
    qed
  next
    case (Reset a f)
    then show thesis using assms(2) r [of a f] by simp
  qed (use assms(2) same opened in \<open>auto simp: fd_construct_def fd_move_construct_def fd_exchange_def fd_release_def\<close>)
qed

definition fd_inv :: "fd_world \<Rightarrow> fd_effect list \<Rightarrow> bool" where
  "fd_inv w effs \<longleftrightarrow> own_inv w \<and>
     (\<forall>f. count_list effs (Opened f) = count_list effs (ClosedFd f) + of_bool (f \<in> open_fds w))"

lemma fd_step_inv:
  assumes "fd_inv w os" and "fd_op_ok op w" and "fd_step op w = (w', effs)"
  shows "fd_inv w' (os @ effs)"
proof -
  have own: "own_inv w" "own_inv w'"
    using assms fd_step_own [of w op] by (auto simp: fd_inv_def)
  show ?thesis
    by (cases rule: fd_step_effects [OF own(1) assms(2)]) (use assms own in \<open>auto simp: fd_inv_def\<close>)
qed

definition never :: "fd_world \<Rightarrow> bool" where
  "never w \<longleftrightarrow> False"

interpretation fds: traced_system fd_step never fd_op_ok fd_inv
  by unfold_locales (rule fd_step_inv)

definition empty_world :: fd_world where
  "empty_world = \<lparr>cells = Map.empty, open_fds = {}, loose = {}\<rparr>"

subsection \<open>Properties\<close>

text \<open>
  C16. Every descriptor is closed exactly once. In every program over \<open>Fd\<close> objects
  (constructions, moves, self-moves, resets, releases, destructions), at every moment each
  descriptor has been closed as often as it was opened, up to the one time it is still open;
  no two live objects hold the same descriptor; and an open descriptor is held by an object or
  was handed out, so that once all objects are gone and nothing is handed out, all are closed.
\<close>

theorem fd_closed_once:
  assumes "run fd_step never ops empty_world = (w, effs)"
    and "run_ok fd_step never fd_op_ok ops empty_world"
  shows "(\<forall>f. count_list effs (Opened f) = count_list effs (ClosedFd f) + of_bool (f \<in> open_fds w)) \<and>
    (\<forall>a b f. 0 \<le> f \<and> cells w a = Some f \<and> cells w b = Some f \<longrightarrow> a = b) \<and>
    (cells w = Map.empty \<and> loose w = {} \<longrightarrow> open_fds w = {})"
proof -
  have "fd_inv empty_world []" by (auto simp: fd_inv_def own_inv_def empty_world_def owner_def)
  from fds.run_inv [OF assms this] show ?thesis
    by (auto simp: fd_inv_def own_inv_def owner_def)
qed

theorem fd_closed_once_witness:
  "\<exists>w effs. run fd_step never
      [SysOpen 5, Construct 0 5, MoveConstruct 1 0, Destroy 0, MoveAssign 1 1, Destroy 1] empty_world = (w, effs) \<and>
     effs = [Opened 5, ClosedFd 5] \<and> open_fds w = {}"
proof -
  let ?ops = "[SysOpen 5, Construct 0 5, MoveConstruct 1 0, Destroy 0, MoveAssign 1 1, Destroy 1]"
  obtain w effs where r: "run fd_step never ?ops empty_world = (w, effs)"
    by (cases "run fd_step never ?ops empty_world")
  have ok: "run_ok fd_step never fd_op_ok ?ops empty_world"
    by (simp add: never_def empty_world_def fd_defs)
  have "effs = [Opened 5, ClosedFd 5]" "cells w = Map.empty" "loose w = {}"
    using r by (auto simp: never_def empty_world_def fd_defs)
  then show ?thesis using fd_closed_once [OF r ok] r by auto
qed

end
