(* ===== verification/Cgi_Util.thy ===== *)
theory Cgi_Util
  imports Static_File_Handler
begin

section \<open>The string utilities of the legacy CGI programs\<close>

text \<open>
  Models \<open>legacy/http-root-dir/cgi-src/util.c\<close>. An array of \<open>char\<close> is a list of its bytes; reading or
  writing outside it is undefined behaviour in C and the value \<^const>\<open>None\<close> here. A C string is the
  part of an array before its first NUL. \<open>char\<close> is signed, as with the usual compilers. Input
  streams are lists of bytes; \<open>fgetc\<close> at the end returns EOF, which a \<open>char\<close> stores as the byte
  \<open>0xFF\<close>.
\<close>

subsection \<open>Arrays and C strings\<close>

named_theorems mem_simps \<open>array accesses at known positions\<close>

type_synonym cbuf = "char list"

abbreviation NUL :: char where "NUL \<equiv> CHR 0x00"

definition rd :: "cbuf \<Rightarrow> nat \<Rightarrow> char option" where
  "rd a i = (if i < length a then Some (a ! i) else None)"

definition wr :: "cbuf \<Rightarrow> nat \<Rightarrow> char \<Rightarrow> cbuf option" where
  "wr a i c = (if i < length a then Some (a[i := c]) else None)"

definition cstring :: "cbuf \<Rightarrow> bytes" where
  "cstring a = takeWhile ((\<noteq>) NUL) a"

lemma rd_less: "rd a i = Some c \<Longrightarrow> i < length a"
  by (simp add: rd_def split: if_splits)

lemma wr_length: "wr a i c = Some a' \<Longrightarrow> length a' = length a"
  by (auto simp: wr_def split: if_splits)

lemma rd_mid [mem_simps]: "length d = i \<Longrightarrow> rd (d @ c # r) i = Some c"
  by (auto simp: rd_def)

lemma wr_mid [mem_simps]: "length d = i \<Longrightarrow> wr (d @ e # r) i c = Some (d @ c # r)"
  by (auto simp: wr_def)

lemma rd_end [mem_simps]: "length a \<le> i \<Longrightarrow> rd a i = None"
  by (simp add: rd_def)

lemma wr_end [mem_simps]: "length a \<le> i \<Longrightarrow> wr a i c = None"
  by (simp add: wr_def)

lemma cstring_of [simp]: "NUL \<notin> set s \<Longrightarrow> cstring (s @ NUL # r) = s"
  by (induction s) (auto simp: cstring_def)

lemma terminated_split: "NUL \<in> set a \<Longrightarrow> \<exists>r. a = cstring a @ NUL # r \<and> NUL \<notin> set (cstring a)"
proof (induction a)
  case (Cons c a)
  then show ?case by (cases "c = NUL") (auto simp: cstring_def)
qed simp

subsection \<open>Words\<close>

function copy_word :: "cbuf \<Rightarrow> cbuf \<Rightarrow> char \<Rightarrow> nat \<Rightarrow> (cbuf \<times> nat) option" where
  "copy_word word line stop x =
     (case rd line x of
        None \<Rightarrow> None
      | Some c \<Rightarrow>
        if c \<noteq> NUL \<and> c \<noteq> stop
        then (case wr word x c of None \<Rightarrow> None | Some word \<Rightarrow> copy_word word line stop (Suc x))
        else Some (word, x))"
  by pat_completeness auto
termination
  by (relation "measure (\<lambda>(word, line, stop, x). length line - x)") (auto dest: rd_less)

function shift_down :: "cbuf \<Rightarrow> nat \<Rightarrow> nat \<Rightarrow> cbuf option" where
  "shift_down line y x =
     (case rd line x of
        None \<Rightarrow> None
      | Some c \<Rightarrow>
        (case wr line y c of
           None \<Rightarrow> None
         | Some line \<Rightarrow> if c \<noteq> NUL then shift_down line (Suc y) (Suc x) else Some line))"
  by pat_completeness auto
termination
  by (relation "measure (\<lambda>(line, y, x). length line - x)") (auto dest!: rd_less dest: wr_length)

definition getword :: "cbuf \<Rightarrow> cbuf \<Rightarrow> char \<Rightarrow> (cbuf \<times> cbuf) option" where
  "getword word line stop =
     (case copy_word word line stop 0 of
        None \<Rightarrow> None
      | Some (word, x) \<Rightarrow>
        (case (wr word x NUL, rd line x) of
           (Some word, Some c) \<Rightarrow>
             map_option (Pair word) (shift_down line 0 (if c \<noteq> NUL then Suc x else x))
         | _ \<Rightarrow> None))"

definition strlen :: "cbuf \<Rightarrow> nat" where
  "strlen a = length (cstring a)"

text \<open>\<open>strcpy\<close> of a C string onto an array.\<close>

definition strcpy :: "cbuf \<Rightarrow> bytes \<Rightarrow> cbuf option" where
  "strcpy dst s = (if length s < length dst then Some (s @ NUL # drop (Suc (length s)) dst) else None)"

text \<open>\<open>malloc\<close> gives an array of unspecified contents, here of NUL bytes.\<close>

definition makeword :: "cbuf \<Rightarrow> char \<Rightarrow> (cbuf \<times> cbuf) option" where
  "makeword line stop = getword (replicate (strlen line + 1) NUL) line stop"

declare copy_word.simps [simp del] shift_down.simps [simp del]

lemma copy_word_spec:
  fixes stop :: char
  assumes "NUL \<notin> set s" and "length w = length l"
  defines "a \<equiv> takeWhile ((\<noteq>) stop) s"
  shows "copy_word (w @ v) (l @ s @ NUL # r) stop (length l) =
    (if length a \<le> length v then Some (w @ a @ drop (length a) v, length l + length a) else None)"
  using assms(1,2) unfolding a_def
proof (induction s arbitrary: w l v)
  case Nil
  then show ?case by (subst copy_word.simps) (simp add: mem_simps)
next
  case (Cons c s)
  then have c: "c \<noteq> NUL" "NUL \<notin> set s" by auto
  show ?case
  proof (cases "c = stop")
    case True
    then show ?thesis by (subst copy_word.simps) (simp add: mem_simps)
  next
    case False
    show ?thesis
    proof (cases v)
      case Nil
      then show ?thesis using False Cons.prems c by (subst copy_word.simps) (simp add: mem_simps)
    next
      case (Cons e v')
      then show ?thesis
        using False Cons.prems c Cons.IH [of "w @ [c]" "l @ [c]" v']
        by (subst copy_word.simps) (simp add: mem_simps)
    qed
  qed
qed

lemma shift_down_spec:
  assumes "NUL \<notin> set s"
  shows "\<exists>r'. shift_down (d @ g @ s @ NUL # r) (length d) (length d + length g) = Some (d @ s @ NUL # r') \<and>
    length r' = length g + length r"
  using assms
proof (induction s arbitrary: d g)
  case Nil
  have "rd (d @ g @ NUL # r) (length d + length g) = Some NUL"
    using rd_mid [of "d @ g" "length d + length g" NUL r] by simp
  moreover have "\<exists>r'. wr (d @ g @ NUL # r) (length d) NUL = Some (d @ NUL # r') \<and> length r' = length g + length r"
    by (cases g) (auto simp: mem_simps)
  ultimately show ?case by (subst shift_down.simps) auto
next
  case (Cons c s)
  then have "c \<noteq> NUL" by auto
  have "\<exists>g'. wr (d @ g @ c # s @ NUL # r) (length d) c = Some (d @ c # g' @ s @ NUL # r) \<and> length g' = length g"
    by (cases g) (auto simp: mem_simps intro: exI [of _ "tl g @ [c]"])
  then obtain g' where g: "wr (d @ g @ c # s @ NUL # r) (length d) c = Some (d @ c # g' @ s @ NUL # r)"
    "length g' = length g" by blast
  have "rd (d @ g @ c # s @ NUL # r) (length d + length g) = Some c"
    using rd_mid [of "d @ g" "length d + length g" c "s @ NUL # r"] by simp
  then show ?case
    using \<open>c \<noteq> NUL\<close> g Cons.prems Cons.IH [of "d @ [c]" g'] by (subst shift_down.simps) simp
qed

text \<open>
  The word is copied and taken off the line, together with the stop character; the copy
  overruns the array of the word exactly when that is too short for the word and its NUL.
\<close>

lemma getword_spec:
  fixes stop :: char
  assumes "NUL \<notin> set s" and "stop \<noteq> NUL"
  defines "a \<equiv> takeWhile ((\<noteq>) stop) s"
  shows "if length a < length word
    then \<exists>r'. getword word (s @ NUL # r) stop =
        Some (a @ NUL # drop (Suc (length a)) word, drop (Suc (length a)) s @ NUL # r') \<and>
        length (drop (Suc (length a)) s @ NUL # r') = length (s @ NUL # r)
    else getword word (s @ NUL # r) stop = None"
proof (cases "length a < length word")
  case False
  then have "copy_word word (s @ NUL # r) stop 0 = None \<or>
      copy_word word (s @ NUL # r) stop 0 = Some (a, length a) \<and> length word = length a"
    using copy_word_spec [OF assms(1), where w = "[]" and l = "[]" and stop = stop and v = word and r = r] by (auto simp: a_def [symmetric])
  then show ?thesis using False by (auto simp: getword_def mem_simps)
next
  case True
  have cp: "copy_word word (s @ NUL # r) stop 0 = Some (a @ drop (length a) word, length a)"
    using True copy_word_spec [OF assms(1), where w = "[]" and l = "[]" and stop = stop and v = word and r = r] by (simp add: a_def [symmetric])
  obtain e v where "drop (length a) word = e # v" "v = drop (Suc (length a)) word"
    using True by (metis Cons_nth_drop_Suc)
  then have w: "wr (a @ drop (length a) word) (length a) NUL = Some (a @ NUL # drop (Suc (length a)) word)"
    by (simp add: mem_simps)
  have gw: "getword word (s @ NUL # r) stop = map_option (Pair (a @ NUL # drop (Suc (length a)) word))
      (shift_down (s @ NUL # r) 0 (if c \<noteq> NUL then Suc (length a) else length a))"
    if "rd (s @ NUL # r) (length a) = Some c" for c
    unfolding getword_def cp using that by (simp add: w)
  show ?thesis
  proof (cases "a = s")
    case eq: True
    then have "rd (s @ NUL # r) (length a) = Some NUL" by (simp add: mem_simps)
    note gw [OF this]
    moreover obtain r' where r': "shift_down (s @ NUL # r) 0 (length a) = Some (NUL # r')"
        "length r' = length s + length r"
      using shift_down_spec [of "[]" "[]" s r] eq by auto
    moreover have "drop (Suc (length a)) s = []" using eq by simp
    ultimately have "getword word (s @ NUL # r) stop =
        Some (a @ NUL # drop (Suc (length a)) word, drop (Suc (length a)) s @ NUL # r')" by simp
    then show ?thesis using True eq r'(2) by auto
  next
    case False
    have split: "s = a @ dropWhile ((\<noteq>) stop) s" by (simp add: a_def)
    then have "dropWhile ((\<noteq>) stop) s \<noteq> []" using False by (metis append_Nil2)
    then obtain b where "dropWhile ((\<noteq>) stop) s = stop # b"
      using hd_dropWhile [of "(\<noteq>) stop" s] by (cases "dropWhile ((\<noteq>) stop) s") auto
    with split have b: "s = a @ stop # b" by simp
    then have "rd (s @ NUL # r) (length a) = Some stop" by (simp add: mem_simps)
    note gw [OF this]
    moreover obtain r' where "shift_down (s @ NUL # r) 0 (Suc (length a)) = Some (b @ NUL # r')"
        "length r' = Suc (length a) + length r"
      using shift_down_spec [of b "[]" "a @ [stop]" r] assms(1) b by auto
    moreover have "drop (Suc (length a)) s = b" "length s = Suc (length a) + length b" using b by auto
    ultimately show ?thesis using True assms(2) by simp
  qed
qed


lemma makeword_spec:
  fixes stop :: char
  assumes "NUL \<notin> set s" and "stop \<noteq> NUL"
  defines "a \<equiv> takeWhile ((\<noteq>) stop) s"
  shows "\<exists>v r'. makeword (s @ NUL # r) stop = Some (a @ NUL # v, drop (Suc (length a)) s @ NUL # r')"
proof -
  have "length a \<le> length s" by (simp add: a_def length_takeWhile_le)
  then show ?thesis
    using getword_spec [OF assms(1,2), of "replicate (length s + 1) NUL" r] assms(1)
    by (auto simp: makeword_def strlen_def a_def simp del: replicate_Suc split: if_splits)
qed

subsection \<open>Escapes\<close>

definition signed :: "char \<Rightarrow> int" where
  "signed c = (if byte_val c < 128 then int (byte_val c) else int (byte_val c) - 256)"

definition to_char :: "int \<Rightarrow> char" where
  "to_char i = char_of (nat (i mod 256))"

definition x2c_digit :: "char \<Rightarrow> int" where
  "x2c_digit c =
     (if signed c \<ge> 65 then int (and (byte_val c) 0xDF) - 65 + 10 else signed c - 48)"

definition x2c :: "char \<Rightarrow> char \<Rightarrow> char" where
  "x2c h l = to_char (x2c_digit h * 16 + x2c_digit l)"

function unescape_loop :: "cbuf \<Rightarrow> nat \<Rightarrow> nat \<Rightarrow> cbuf option" where
  "unescape_loop url x y =
     (case rd url y of
        None \<Rightarrow> None
      | Some c \<Rightarrow>
        if c = NUL then wr url x NUL
        else (case wr url x c of
            None \<Rightarrow> None
          | Some url \<Rightarrow>
            if c = CHR ''%'' then
              (case (rd url (y + 1), rd url (y + 2)) of
                 (Some h, Some l) \<Rightarrow>
                   (case wr url x (x2c h l) of
                      None \<Rightarrow> None
                    | Some url \<Rightarrow> unescape_loop url (Suc x) (y + 3))
               | _ \<Rightarrow> None)
            else unescape_loop url (Suc x) (Suc y)))"
  by pat_completeness auto
termination
  by (relation "measure (\<lambda>(url, x, y). length url - y)")
     (auto dest!: rd_less dest!: wr_length)

definition unescape_url :: "cbuf \<Rightarrow> cbuf option" where
  "unescape_url url = unescape_loop url 0 0"

function plus_loop :: "cbuf \<Rightarrow> nat \<Rightarrow> cbuf option" where
  "plus_loop str x =
     (case rd str x of
        None \<Rightarrow> None
      | Some c \<Rightarrow>
        if c = NUL then Some str
        else if c = CHR ''+''
        then (case wr str x SP of None \<Rightarrow> None | Some str \<Rightarrow> plus_loop str (Suc x))
        else plus_loop str (Suc x))"
  by pat_completeness auto
termination
  by (relation "measure (\<lambda>(str, x). length str - x)") (auto dest!: rd_less dest: wr_length)

definition plustospace :: "cbuf \<Rightarrow> cbuf option" where
  "plustospace str = plus_loop str 0"

declare unescape_loop.simps [simp del] plus_loop.simps [simp del]

text \<open>What the in-place loops compute.\<close>

fun url_decode :: "bytes \<Rightarrow> bytes option" where
  "url_decode [] = Some []"
| "url_decode (c # s) =
     (if c = CHR ''%''
      then case s of h # l # s' \<Rightarrow> map_option ((#) (x2c h l)) (url_decode s') | _ \<Rightarrow> None
      else map_option ((#) c) (url_decode s))"

definition plus_to_space :: "bytes \<Rightarrow> bytes" where
  "plus_to_space = map (\<lambda>c. if c = CHR ''+'' then SP else c)"

lemma wr_gap: "\<exists>g'. wr (d @ g @ c # r) (length d) e = Some (d @ e # g' @ r) \<and> length g' = length g"
proof (cases g)
  case (Cons e' g1)
  then show ?thesis by (intro exI [of _ "g1 @ [c]"]) (simp add: mem_simps)
qed (simp add: mem_simps)

lemma rd_gap: "rd (d @ g @ c # r) (length d + length g) = Some c"
  using rd_mid [of "d @ g" "length d + length g" c r] by simp

lemma unescape_plain_step:
  assumes "c \<noteq> NUL" and "c \<noteq> CHR ''%''"
  shows "\<exists>g'. length g' = length g \<and>
    unescape_loop (d @ g @ c # r) (length d) (length d + length g) =
      unescape_loop ((d @ [c]) @ g' @ r) (length (d @ [c])) (length (d @ [c]) + length g')"
proof -
  obtain g' where "wr (d @ g @ c # r) (length d) c = Some (d @ c # g' @ r)" "length g' = length g"
    using wr_gap by blast
  then show ?thesis
    using assms by (intro exI [of _ g'], subst unescape_loop.simps) (simp add: rd_gap)
qed

lemma unescape_percent_step:
  shows "\<exists>g'. length g' = length g + 2 \<and>
    unescape_loop (d @ g @ CHR ''%'' # h # l # r) (length d) (length d + length g) =
      unescape_loop ((d @ [x2c h l]) @ g' @ r) (length (d @ [x2c h l])) (length (d @ [x2c h l]) + length g')"
proof -
  obtain g' where g': "wr (d @ g @ CHR ''%'' # h # l # r) (length d) (CHR ''%'') = Some (d @ CHR ''%'' # g' @ h # l # r)"
    "length g' = length g" using wr_gap by blast
  let ?u = "d @ CHR ''%'' # g' @ h # l # r"
  have "rd ?u (Suc (length d + length g)) = Some h" "rd ?u (length d + length g + 2) = Some l"
    using rd_mid [of "d @ CHR ''%'' # g'" "Suc (length d + length g)" h "l # r"]
      rd_mid [of "d @ CHR ''%'' # g' @ [h]" "length d + length g + 2" l r] g'(2) by simp_all
  moreover have "wr ?u (length d) (x2c h l) = Some (d @ x2c h l # g' @ h # l # r)" by (simp add: mem_simps)
  ultimately show ?thesis
    using g' by (intro exI [of _ "g' @ [h, l]"], subst unescape_loop.simps) (simp add: rd_gap numeral_3_eq_3)
qed

lemma unescape_loop_spec:
  assumes "NUL \<notin> set s" and "url_decode s = Some t"
  shows "\<exists>r'. unescape_loop (d @ g @ s @ NUL # r) (length d) (length d + length g) = Some (d @ t @ NUL # r') \<and>
    length (d @ t @ NUL # r') = length (d @ g @ s @ NUL # r)"
  using assms
proof (induction s arbitrary: d g t rule: url_decode.induct)
  case 1
  have "\<exists>g'. wr (d @ g @ NUL # r) (length d) NUL = Some (d @ NUL # g' @ r) \<and> length g' = length g"
    by (rule wr_gap)
  then show ?case using 1 by (subst unescape_loop.simps) (auto simp: rd_gap)
next
  case (2 c s)
  show ?case
  proof (cases "c = CHR ''%''")
    case True
    then obtain h l s' t' where s: "s = h # l # s'" "url_decode s' = Some t'" "t = x2c h l # t'"
      using 2(4) by (auto split: list.splits)
    obtain g' where "length g' = length g + 2" "unescape_loop (d @ g @ CHR ''%'' # h # l # s' @ NUL # r) (length d)
        (length d + length g) = unescape_loop ((d @ [x2c h l]) @ g' @ s' @ NUL # r) (length (d @ [x2c h l]))
        (length (d @ [x2c h l]) + length g')" using unescape_percent_step by blast
    then show ?thesis
      using 2(1) [OF True s(1) refl _ s(2), of "d @ [x2c h l]" g'] 2(3) s True by simp
  next
    case False
    then obtain t' where t: "url_decode s = Some t'" "t = c # t'" using 2(4) by auto
    have "c \<noteq> NUL" using 2(3) by auto
    then obtain g' where "length g' = length g" "unescape_loop (d @ g @ c # s @ NUL # r) (length d)
        (length d + length g) = unescape_loop ((d @ [c]) @ g' @ s @ NUL # r) (length (d @ [c]))
        (length (d @ [c]) + length g')" using unescape_plain_step [OF _ False] by blast
    then show ?thesis
      using 2(2) [OF False _ t(1), of "d @ [c]" g'] 2(3) t by simp
  qed
qed

text \<open>An escape that is cut off by the end of the string makes the loop run past the NUL.\<close>

lemma unescape_loop_overrun:
  assumes "NUL \<notin> set s" and "url_decode s = None"
  shows "unescape_loop (d @ g @ s @ [NUL]) (length d) (length d + length g) = None"
  using assms
proof (induction s arbitrary: d g rule: url_decode.induct)
  case (2 c s)
  show ?case
  proof (cases "c = CHR ''%''")
    case False
    then have n: "url_decode s = None" "c \<noteq> NUL" using 2(3,4) by auto
    then obtain g' where "length g' = length g" "unescape_loop (d @ g @ c # s @ [NUL]) (length d)
        (length d + length g) = unescape_loop ((d @ [c]) @ g' @ s @ [NUL]) (length (d @ [c]))
        (length (d @ [c]) + length g')" using unescape_plain_step [OF _ False] by blast
    then show ?thesis using 2(2) [OF False _ n(1), of "d @ [c]" g'] 2(3) by simp
  next
    case True
    obtain g' where w: "wr (d @ g @ c # s @ [NUL]) (length d) c = Some (d @ c # g' @ s @ [NUL])"
      "length g' = length g" using wr_gap by blast
    consider "s = []" | h where "s = [h]" | h l s' where "s = h # l # s'"
      by (cases s; cases "tl s") auto
    then show ?thesis
    proof cases
      case 1
      then show ?thesis using True w by (subst unescape_loop.simps) (simp add: rd_gap mem_simps split: option.splits)
    next
      case (2 h)
      obtain g'' where "length g'' = length g + 2" "unescape_loop (d @ g @ CHR ''%'' # h # NUL # []) (length d)
          (length d + length g) = unescape_loop ((d @ [x2c h NUL]) @ g'' @ []) (length (d @ [x2c h NUL]))
          (length (d @ [x2c h NUL]) + length g'')" using unescape_percent_step by blast
      moreover have "unescape_loop ((d @ [x2c h NUL]) @ g'' @ []) x (length (d @ [x2c h NUL]) + length g'') = None" for x
        by (subst unescape_loop.simps) (simp add: mem_simps)
      ultimately show ?thesis using 2 True by simp
    next
      case (3 h l s')
      then have n: "url_decode s' = None" using 2(4) True by simp
      obtain g'' where "length g'' = length g + 2" "unescape_loop (d @ g @ CHR ''%'' # h # l # s' @ [NUL]) (length d)
          (length d + length g) = unescape_loop ((d @ [x2c h l]) @ g'' @ s' @ [NUL]) (length (d @ [x2c h l]))
          (length (d @ [x2c h l]) + length g'')" using unescape_percent_step by blast
      then show ?thesis using 2(1) [OF True 3 refl _ n, of "d @ [x2c h l]" g''] 2(3) 3 True by simp
    qed
  qed
qed simp

lemma plus_loop_spec:
  assumes "NUL \<notin> set s"
  shows "plus_loop (d @ s @ NUL # r) (length d) = Some (d @ plus_to_space s @ NUL # r)"
  using assms
proof (induction s arbitrary: d)
  case Nil
  then show ?case by (subst plus_loop.simps) (simp add: mem_simps plus_to_space_def)
next
  case (Cons c s)
  then have c: "c \<noteq> NUL" by auto
  let ?c = "if c = CHR ''+'' then SP else c"
  show ?case
    using c Cons.prems Cons.IH [of "d @ [?c]"]
    by (subst plus_loop.simps) (auto simp: mem_simps plus_to_space_def)
qed

subsection \<open>The two decoders\<close>

lemma lower_hex: "97 \<le> n \<Longrightarrow> n \<le> 102 \<Longrightarrow> and n 0xDF = n - (32 :: nat)"
proof -
  assume "97 \<le> n" "n \<le> 102"
  then have "n = 97 \<or> n = 98 \<or> n = 99 \<or> n = 100 \<or> n = 101 \<or> n = 102" by arith
  then show ?thesis by (elim disjE) simp_all
qed

lemma upper_hex: "65 \<le> n \<Longrightarrow> n \<le> 70 \<Longrightarrow> and n 0xDF = (n :: nat)"
proof -
  assume "65 \<le> n" "n \<le> 70"
  then have "n = 65 \<or> n = 66 \<or> n = 67 \<or> n = 68 \<or> n = 69 \<or> n = 70" by arith
  then show ?thesis by (elim disjE) simp_all
qed

lemma x2c_digit_hex:
  assumes "0 \<le> hex_value c"
  shows "x2c_digit c = hex_value c" and "hex_value c < 16"
  using assms lower_hex [of "byte_val c"] upper_hex [of "byte_val c"]
  by (auto simp: hex_value_def x2c_digit_def signed_def Let_def split: if_splits)

lemma percent_url_decode: "percent_decode s = Some t \<Longrightarrow> url_decode s = Some t"
proof (induction s arbitrary: t rule: url_decode.induct)
  case (2 c s)
  show ?case
  proof (cases "c = CHR ''%''")
    case False
    then show ?thesis using 2 by auto
  next
    case True
    then obtain h l s' where s: "s = h # l # s'" using 2(3) by (auto split: list.splits)
    then obtain t' where t: "0 \<le> hex_value h" "0 \<le> hex_value l" "percent_decode s' = Some t'"
      "t = char_of (nat (or (push_bit 4 (hex_value h)) (hex_value l))) # t'"
      using 2(3) True by (auto simp: Let_def not_less split: if_splits)
    have "0 \<le> hex_value h * 16 + hex_value l" "hex_value h * 16 + hex_value l < 256"
      using x2c_digit_hex [OF t(1)] x2c_digit_hex [OF t(2)] t(1,2) by auto
    then have "x2c h l = char_of (nat (or (push_bit 4 (hex_value h)) (hex_value l)))"
      using x2c_digit_hex [OF t(1)] x2c_digit_hex [OF t(2)] t(1,2)
      by (simp add: x2c_def to_char_def push_or mult.commute)
    then show ?thesis using 2(1) [OF True s refl t(3)] t(4) s True by simp
  qed
qed simp

lemma percent_decode_no_NUL: "percent_decode s = Some t \<Longrightarrow> NUL \<notin> set s \<Longrightarrow> NUL \<notin> set t"
proof (induction s arbitrary: t rule: percent_decode.induct)
  case (2 c s)
  show ?case
  proof (cases "c = CHR ''%''")
    case False
    then show ?thesis using 2 by auto
  next
    case True
    then obtain h l s' where s: "s = h # l # s'" using 2(3) by (auto split: list.splits)
    then show ?thesis using 2(2) [OF _ s refl refl refl _ refl] 2(3,4) True
      by (auto simp: Let_def split: if_splits)
  qed
qed simp

subsection \<open>Searching\<close>

function ind_loop :: "cbuf \<Rightarrow> char \<Rightarrow> nat \<Rightarrow> int option" where
  "ind_loop s c x =
     (case rd s x of
        None \<Rightarrow> None
      | Some d \<Rightarrow> if d = NUL then Some (- 1) else if d = c then Some (int x) else ind_loop s c (Suc x))"
  by pat_completeness auto
termination
  by (relation "measure (\<lambda>(s, c, x). length s - x)") (auto dest!: rd_less)

definition ind :: "cbuf \<Rightarrow> char \<Rightarrow> int option" where
  "ind s c = ind_loop s c 0"

text \<open>\<open>rind\<close> searches backwards from \<open>strlen(s) - 1\<close>; the argument counts the positions left.\<close>

fun rind_loop :: "cbuf \<Rightarrow> char \<Rightarrow> nat \<Rightarrow> int" where
  "rind_loop s c 0 = - 1"
| "rind_loop s c (Suc x) = (if s ! x = c then int x else rind_loop s c x)"

definition rind :: "cbuf \<Rightarrow> char \<Rightarrow> int option" where
  "rind s c = (if NUL \<in> set s then Some (rind_loop s c (strlen s)) else None)"

declare ind_loop.simps [simp del]

lemma ind_loop_spec:
  assumes "NUL \<notin> set s" and "c \<noteq> NUL"
  shows "ind_loop (d @ s @ NUL # r) c (length d) =
    Some (if c \<in> set s then int (length d + length (takeWhile ((\<noteq>) c) s)) else - 1)"
  using assms(1)
proof (induction s arbitrary: d)
  case Nil
  then show ?case by (subst ind_loop.simps) (simp add: mem_simps)
next
  case (Cons e s)
  then have "e \<noteq> NUL" by auto
  then show ?case
    using Cons.prems Cons.IH [of "d @ [e]"] by (subst ind_loop.simps) (auto simp: mem_simps)
qed

lemma ind_spec:
  "NUL \<notin> set s \<Longrightarrow> c \<noteq> NUL \<Longrightarrow> \<exists>i. ind (s @ NUL # r) c = Some i \<and> (i = - 1 \<longleftrightarrow> c \<notin> set s)"
  using ind_loop_spec [of s c "[]" r] by (auto simp: ind_def)

subsection \<open>Quoting for the shell\<close>

definition shell_meta :: bytes where
  "shell_meta = ''&;'' @ [CHR 0x60, CHR 0x27, CHR 0x22] @ ''|*?~<>^()[]{}$'' @ [CHR 0x5C, CHR 0x0A]"

fun shift_up :: "cbuf \<Rightarrow> nat \<Rightarrow> nat \<Rightarrow> cbuf option" where
  "shift_up cmd x 0 = Some cmd"
| "shift_up cmd x (Suc y) =
     (if Suc y > x
      then (case rd cmd y of
          None \<Rightarrow> None
        | Some c \<Rightarrow> (case wr cmd (Suc y) c of None \<Rightarrow> None | Some cmd \<Rightarrow> shift_up cmd x y))
      else Some cmd)"

lemma shift_up_length: "shift_up cmd x y = Some cmd' \<Longrightarrow> length cmd' = length cmd"
  by (induction cmd x y rule: shift_up.induct)
     (auto split: if_splits option.splits dest!: wr_length)

function escape_loop :: "cbuf \<Rightarrow> nat \<Rightarrow> nat \<Rightarrow> cbuf option" where
  "escape_loop cmd x l =
     (case rd cmd x of
        None \<Rightarrow> None
      | Some c \<Rightarrow>
        if c = NUL then Some cmd
        else if ind (shell_meta @ [NUL]) c \<noteq> Some (- 1)
        then (case shift_up cmd x (l + 1) of
            None \<Rightarrow> None
          | Some cmd \<Rightarrow>
            (case wr cmd x (CHR 0x5C) of
               None \<Rightarrow> None
             | Some cmd \<Rightarrow> escape_loop cmd (x + 2) (l + 1)))
        else escape_loop cmd (Suc x) l)"
  by pat_completeness auto
termination
  by (relation "measure (\<lambda>(cmd, x, l). length cmd - x)")
     (auto simp del: shift_up.simps dest!: rd_less wr_length shift_up_length)

definition escape_shell_cmd :: "cbuf \<Rightarrow> cbuf option" where
  "escape_shell_cmd cmd = escape_loop cmd 0 (strlen cmd)"

declare escape_loop.simps [simp del]

definition quote_char :: "char \<Rightarrow> bytes" where
  "quote_char c = (if c \<in> set shell_meta then [CHR 0x5C, c] else [c])"

definition shell_quote :: "bytes \<Rightarrow> bytes" where
  "shell_quote s = concat (map quote_char s)"

lemma meta_ind:
  assumes "c \<noteq> NUL"
  shows "ind (shell_meta @ [NUL]) c \<noteq> Some (- 1) \<longleftrightarrow> c \<in> set shell_meta"
proof -
  have "NUL \<notin> set shell_meta" by (simp add: shell_meta_def)
  then show ?thesis using ind_spec [OF _ assms, of shell_meta "[]"] by auto
qed

lemma shift_up_spec:
  assumes "m \<noteq> []" and "length d = x"
  shows "shift_up (d @ m @ e # r) x (x + length m) = Some (d @ hd m # m @ r)"
  using assms(1)
proof (induction m arbitrary: e r rule: rev_induct)
  case (snoc c m)
  have rw: "rd (d @ m @ c # e # r) (x + length m) = Some c"
    "wr (d @ m @ c # e # r) (Suc (x + length m)) c = Some (d @ m @ c # c # r)"
    using rd_mid [of "d @ m" "x + length m" c "e # r"] wr_mid [of "d @ m @ [c]" "Suc (x + length m)" e r c]
      assms(2) by simp_all
  show ?case
  proof (cases "m = []")
    case True
    then have "shift_up (d @ c # c # r) x x = Some (d @ c # c # r)" by (cases x) simp_all
    then show ?thesis using rw True by simp
  next
    case False
    then show ?thesis using rw snoc.IH [OF False, of c "c # r"] by simp
  qed
qed simp

lemma escape_loop_spec:
  assumes "NUL \<notin> set s"
  shows "escape_loop (d @ s @ NUL # r) (length d) (length d + length s) =
    (if length (shell_quote s) \<le> length s + length r
     then Some (d @ shell_quote s @ NUL # drop (length (shell_quote s) - length s) r) else None)"
  using assms
proof (induction s arbitrary: d r)
  case Nil
  then show ?case by (subst escape_loop.simps) (simp add: mem_simps shell_quote_def)
next
  case (Cons c s)
  then have c: "c \<noteq> NUL" "NUL \<notin> set s" by auto
  have q: "shell_quote (c # s) = quote_char c @ shell_quote s" by (simp add: shell_quote_def)
  have le: "length s \<le> length (shell_quote s)" by (induction s) (auto simp: shell_quote_def quote_char_def)
  show ?case
  proof (cases "c \<in> set shell_meta")
    case False
    then show ?thesis
      using c meta_ind [OF c(1)] Cons.IH [OF c(2), of "d @ [c]" r]
      by (subst escape_loop.simps) (simp add: mem_simps q quote_char_def)
  next
    case True
    show ?thesis
    proof (cases r)
      case Nil
      have "shift_up (d @ c # s @ [NUL]) (length d) (Suc (length d + length (c # s))) = None"
        by (auto simp: mem_simps wr_def rd_def)
      then show ?thesis
        using c True meta_ind [OF c(1)] le Nil by (subst escape_loop.simps) (simp add: mem_simps q quote_char_def)
    next
      case (Cons e r')
      have "shift_up (d @ (c # s @ [NUL]) @ e # r') (length d) (length d + length (c # s @ [NUL])) =
          Some (d @ c # (c # s @ [NUL]) @ r')"
        by (subst shift_up_spec) simp_all
      then show ?thesis
        using Cons c True meta_ind [OF c(1)] le Cons.IH [OF c(2), of "d @ [CHR 0x5C, c]" r']
        by (subst escape_loop.simps) (auto simp: mem_simps q quote_char_def Suc_diff_le)
    qed
  qed
qed

subsection \<open>Input streams\<close>

text \<open>A stream is what is left to read and the end-of-file flag.\<close>

type_synonym c_file = "bytes \<times> bool"

fun fgetc :: "c_file \<Rightarrow> char \<times> c_file" where
  "fgetc (c # s, e) = (c, (s, e))"
| "fgetc ([], e) = (CHR 0xFF, ([], True))"

definition feof :: "c_file \<Rightarrow> bool" where
  "feof f = snd f"

function fmakeword_loop ::
  "cbuf \<Rightarrow> nat \<Rightarrow> nat \<Rightarrow> c_file \<Rightarrow> char \<Rightarrow> int \<Rightarrow> (cbuf \<times> c_file \<times> int) option" where
  "fmakeword_loop word wsize ll f stop cl =
     (case fgetc f of (c, f') \<Rightarrow>
      (case wr word ll c of
         None \<Rightarrow> None
       | Some word \<Rightarrow>
         (case (if ll = wsize
                then map_option (\<lambda>w. (w @ replicate 102400 NUL, wsize + 102400)) (wr word (ll + 1) NUL)
                else Some (word, wsize)) of
            None \<Rightarrow> None
          | Some (word, wsize) \<Rightarrow>
            if c = stop \<or> feof f' \<or> cl - 1 = 0
            then (let ll = (if c \<noteq> stop then ll + 1 else ll)
                  in map_option (\<lambda>word. (take (ll + 1) word, f', cl - 1)) (wr word ll NUL))
            else fmakeword_loop word wsize (ll + 1) f' stop (cl - 1))))"
  by pat_completeness auto
termination
proof (relation "measure (\<lambda>(word, wsize, ll, f, stop, cl). length (fst f))", goal_cases)
  case (2 word wsize ll f stop cl c f')
  then show ?case by (cases f rule: fgetc.cases) (auto simp: feof_def)
qed simp

definition fmakeword :: "c_file \<Rightarrow> char \<Rightarrow> int \<Rightarrow> (cbuf \<times> c_file \<times> int) option" where
  "fmakeword f stop cl = fmakeword_loop (replicate 102401 NUL) 102400 0 f stop cl"

function getline_loop :: "cbuf \<Rightarrow> nat \<Rightarrow> nat \<Rightarrow> c_file \<Rightarrow> (cbuf \<times> bool \<times> c_file) option" where
  "getline_loop s n i f =
     (case fgetc f of (c, f) \<Rightarrow>
      (case wr s i c of
         None \<Rightarrow> None
       | Some s \<Rightarrow>
         (case (if c = CR then fgetc f else (c, f)) of (c, f) \<Rightarrow>
          (case wr s i c of
             None \<Rightarrow> None
           | Some s \<Rightarrow>
             if c = CHR 0x04 \<or> c = LF \<or> i + 1 = n
             then map_option (\<lambda>s. (s, feof f, f)) (wr s i NUL)
             else getline_loop s n (i + 1) f))))"
  by pat_completeness auto
termination
  by (relation "measure (\<lambda>(s, n, i, f). length s - i)")
     (auto simp: wr_def split: if_splits)

definition mygetline :: "cbuf \<Rightarrow> nat \<Rightarrow> c_file \<Rightarrow> (cbuf \<times> bool \<times> c_file) option" where
  "mygetline s n f = getline_loop s n 0 f"

function send_loop :: "c_file \<Rightarrow> bytes \<Rightarrow> bytes \<times> c_file" where
  "send_loop f out =
     (case fgetc f of (c, f') \<Rightarrow> if feof f' then (out, f') else send_loop f' (out @ [c]))"
  by pat_completeness auto
termination
proof (relation "measure (\<lambda>(f, out). length (fst f))", goal_cases)
  case (2 f out c f')
  then show ?case by (cases f rule: fgetc.cases) (auto simp: feof_def)
qed simp

definition send_fd :: "c_file \<Rightarrow> bytes \<times> c_file" where
  "send_fd f = send_loop f []"

declare fmakeword_loop.simps [simp del] getline_loop.simps [simp del] send_loop.simps [simp del]

lemma fmakeword_loop_spec:
  assumes "stop \<notin> set a" and "length w + length a < wsize" and "length w + length v = wsize + 1"
    and "int (length a) < cl"
  shows "fmakeword_loop (w @ v) wsize (length w) (a @ stop # b, False) stop cl =
    Some (w @ a @ [NUL], (b, False), cl - int (length a) - 1)"
  using assms
proof (induction a arbitrary: w v cl)
  case Nil
  then obtain e v' where "v = e # v'" by (cases v) auto
  then show ?case using Nil by (subst fmakeword_loop.simps) (simp add: mem_simps Let_def)
next
  case (Cons c a)
  then obtain e v' where v: "v = e # v'" by (cases v) auto
  then show ?case
    using Cons.prems Cons.IH [of "w @ [c]" v' "cl - 1"]
    by (subst fmakeword_loop.simps) (auto simp: mem_simps feof_def)
qed

lemma fmakeword_loop_last:
  assumes "stop \<notin> set a" and "a \<noteq> []" and "length w + length a < wsize" and "length w + length v = wsize + 1"
    and "int (length a) = cl"
  shows "fmakeword_loop (w @ v) wsize (length w) (a @ b, False) stop cl = Some (w @ a @ [NUL], (b, False), 0)"
  using assms
proof (induction a arbitrary: w v cl)
  case (Cons c a)
  then obtain e v' where v: "v = e # v'" by (cases v) auto
  show ?case
  proof (cases "a = []")
    case True
    then obtain e' v'' where "v' = e' # v''" using Cons.prems v by (cases v') auto
    then show ?thesis
      using Cons.prems True v wr_mid [of "w @ [c]" "Suc (length w)" e' v'' NUL]
      by (subst fmakeword_loop.simps) (auto simp: mem_simps feof_def Let_def)
  next
    case False
    then show ?thesis
      using Cons.prems v Cons.IH [of "w @ [c]" v' "cl - 1"]
      by (subst fmakeword_loop.simps) (auto simp: mem_simps feof_def)
  qed
qed simp

text \<open>A word of 102400 bytes or more overruns the array by one byte before it is enlarged.\<close>

lemma fmakeword_loop_overrun:
  assumes "stop \<notin> set a" and "length w + length a = wsize + 1" and "length w + length v = wsize + 1"
    and "int (length a) \<le> cl" and "length w \<le> wsize"
  shows "fmakeword_loop (w @ v) wsize (length w) (a @ b, False) stop cl = None"
  using assms
proof (induction a arbitrary: w v cl)
  case (Cons c a)
  then obtain e v' where v: "v = e # v'" by (cases v) auto
  show ?case
  proof (cases "length w = wsize")
    case True
    then show ?thesis using Cons.prems v by (subst fmakeword_loop.simps) (simp add: mem_simps)
  next
    case False
    then show ?thesis
      using Cons.prems v Cons.IH [of "w @ [c]" v' "cl - 1"]
      by (subst fmakeword_loop.simps) (auto simp: mem_simps feof_def)
  qed
qed simp

lemma getline_loop_spec:
  assumes "set a \<inter> {CR, LF, CHR 0x04} = {}" and "length d + length a < n" and "length d + length a < length d + length v"
  shows "\<exists>v'. getline_loop (d @ v) n (length d) (a @ LF # b, e) = Some (d @ a @ NUL # v', e, (b, e))"
  using assms
proof (induction a arbitrary: d v)
  case Nil
  then obtain x v' where "v = x # v'" by (cases v) auto
  then show ?case by (subst getline_loop.simps) (simp add: mem_simps feof_def)
next
  case (Cons c a)
  then obtain x v' where "v = x # v'" by (cases v) auto
  then show ?case
    using Cons.prems Cons.IH [of "d @ [c]" v'] by (subst getline_loop.simps) (auto simp: mem_simps)
qed

lemma getline_loop_shrinks:
  "getline_loop s n i f = Some (s', e, f') \<Longrightarrow>
     e = snd f' \<and> (snd f \<longrightarrow> snd f') \<and> (\<not> snd f' \<longrightarrow> length (fst f') < length (fst f)) \<and> length s' = length s"
proof (induction s n i f rule: getline_loop.induct)
  case (1 s n i f)
  obtain c1 f1 where f1: "fgetc f = (c1, f1)" by (cases "fgetc f") auto
  obtain c2 f2 where f2: "(if c1 = CR then fgetc f1 else (c1, f1)) = (c2, f2)"
    by (cases "if c1 = CR then fgetc f1 else (c1, f1)") auto
  have m1: "(snd f \<longrightarrow> snd f1) \<and> (\<not> snd f1 \<longrightarrow> length (fst f1) < length (fst f))"
    using f1 by (cases f rule: fgetc.cases) auto
  have m2: "(snd f1 \<longrightarrow> snd f2) \<and> (\<not> snd f2 \<longrightarrow> length (fst f2) \<le> length (fst f1))"
    using f2 by (cases f1 rule: fgetc.cases) (auto split: if_splits)
  obtain s1 s2 where s: "wr s i c1 = Some s1" "wr s1 i c2 = Some s2"
    using "1.prems" f1 f2 by (subst (asm) getline_loop.simps) (auto split: option.splits)
  have len: "length s2 = length s" using wr_length [OF s(1)] wr_length [OF s(2)] by simp
  show ?case
  proof (cases "c2 = CHR 0x04 \<or> c2 = LF \<or> i + 1 = n")
    case True
    then have "e = snd f2 \<and> f' = f2 \<and> wr s2 i NUL = Some s'"
      using "1.prems" f1 f2 s by (subst (asm) getline_loop.simps) (auto simp: feof_def)
    then show ?thesis using m1 m2 len wr_length [of s2 i NUL s'] by auto
  next
    case False
    then have more: "getline_loop s2 n (i + 1) f2 = Some (s', e, f')"
      using "1.prems" f1 f2 s by (subst (asm) getline_loop.simps) simp
    show ?thesis
      using "1.IH" [OF f1 [symmetric] s(1) f2 [symmetric] s(2) False more] m1 m2 len by auto
  qed
qed

lemma getline_end:
  assumes "length s = n" and "i < n"
  shows "\<exists>s'. getline_loop s n i ([], e) = Some (s', True, ([], True))"
  using assms
proof (induction "n - Suc i" arbitrary: s i e)
  case 0
  then have "i + 1 = n" by simp
  then show ?case using 0 by (subst getline_loop.simps) (simp add: wr_def feof_def)
next
  case (Suc k)
  then have "i + 1 \<noteq> n" "k = n - Suc (i + 1)" by simp_all
  then show ?case
    using Suc.hyps(1) [of "i + 1" "s[i := CHR 0xFF, i := CHR 0xFF]" True] Suc.prems Suc.hyps(2)
    by (subst getline_loop.simps) (simp add: wr_def)
qed

lemma mygetline_end: "length s = n \<Longrightarrow> 0 < n \<Longrightarrow> \<exists>s'. mygetline s n ([], e) = Some (s', True, ([], True))"
  using getline_end [of s n 0 e] by (simp add: mygetline_def)

lemma mygetline_spec:
  assumes "set l \<inter> {CR, LF, CHR 0x04} = {}" and "length l < n" and "length line = n"
  shows "\<exists>r. mygetline line n (l @ LF # rest, False) = Some (l @ NUL # r, False, (rest, False)) \<and> length (l @ NUL # r) = n"
  using getline_loop_spec [of l "[]" n line rest False] getline_loop_shrinks [of line n 0 "(l @ LF # rest, False)"] assms
  by (fastforce simp: mygetline_def)

lemma send_loop_spec: "send_loop (s, False) out = (out @ s, ([], True))"
proof (induction s arbitrary: out)
  case Nil
  then show ?case by (subst send_loop.simps) (simp add: feof_def)
next
  case (Cons c s)
  then show ?case by (subst send_loop.simps) (simp add: feof_def)
qed

text \<open>
  What the legacy decoder makes of any string: every percent sign takes two more characters with it, hexadecimal digits or not. A
  character counts as its distance from \<open>0\<close> or, from \<open>A\<close> on, from the letter that stands for ten,
  in either case; the byte is the sum modulo 256. A string is truncated when it ends inside an escape.
\<close>

definition digit_weight :: "char \<Rightarrow> nat" where
  "digit_weight c =
     (let b = byte_val c
      in if b < 65 \<or> 128 \<le> b then b + 208 else if b < 96 then b - 55 else b - 87)"

definition escape_byte :: "char \<Rightarrow> char \<Rightarrow> char" where
  "escape_byte h l = char_of ((16 * digit_weight h + digit_weight l) mod 256)"

fun truncated_escape :: "bytes \<Rightarrow> bool" where
  "truncated_escape [] = False"
| "truncated_escape (c # s) =
     (if c \<noteq> CHR ''%'' then truncated_escape s
      else case s of h # l # s' \<Rightarrow> truncated_escape s' | _ \<Rightarrow> True)"

fun lenient_decode :: "bytes \<Rightarrow> bytes" where
  "lenient_decode [] = []"
| "lenient_decode (c # s) =
     (if c \<noteq> CHR ''%'' then c # lenient_decode s
      else case s of h # l # s' \<Rightarrow> escape_byte h l # lenient_decode s' | _ \<Rightarrow> [])"

lemma and_DF: "65 \<le> n \<Longrightarrow> n < 128 \<Longrightarrow> and n 0xDF = (if n < 96 then n else n - (32 :: nat))"
proof -
  have "list_all (\<lambda>n :: nat. and n 0xDF = (if n < 96 then n else n - 32)) [65..<128]" by (simp add: upt_rec)
  then have "\<forall>n \<in> set [65..<128 :: nat]. and n 0xDF = (if n < 96 then n else n - 32)" unfolding list_all_iff .
  moreover assume "65 \<le> n" "n < 128"
  then have "n \<in> set [65..<128]" by (simp only: set_upt atLeastLessThan_iff)
  ultimately show ?thesis by blast
qed

lemma x2c_digit_weight: "x2c_digit c mod 256 = int (digit_weight c) mod 256"
proof -
  consider (low) "byte_val c < 65" | (up) "65 \<le> byte_val c" "byte_val c < 96" | (lc) "96 \<le> byte_val c" "byte_val c < 128"
    | (high) "128 \<le> byte_val c" by linarith
  then have "\<exists>k. int (digit_weight c) = x2c_digit c + k * 256"
  proof cases
    case low
    then show ?thesis by (intro exI [of _ 1]) (simp add: x2c_digit_def digit_weight_def signed_def)
  next
    case up
    then show ?thesis by (intro exI [of _ 0]) (simp add: x2c_digit_def digit_weight_def signed_def and_DF)
  next
    case lc
    then show ?thesis by (intro exI [of _ 0]) (simp add: x2c_digit_def digit_weight_def signed_def and_DF)
  next
    case high
    have "\<not> 321 \<le> byte_val c" using byte_val_less [of c] by linarith
    then show ?thesis using high by (intro exI [of _ 2]) (simp add: x2c_digit_def digit_weight_def signed_def)
  qed
  then show ?thesis by auto
qed

lemma x2c_escape: "x2c h l = escape_byte h l"
proof -
  have "(x2c_digit h * 16 + x2c_digit l) mod 256 = (int (digit_weight h) * 16 + int (digit_weight l)) mod 256"
    using x2c_digit_weight [of h] x2c_digit_weight [of l] by (intro mod_add_cong mod_mult_cong) simp_all
  also have "\<dots> = int ((16 * digit_weight h + digit_weight l) mod 256)" by (simp add: zmod_int mult.commute)
  finally show ?thesis by (simp add: x2c_def to_char_def escape_byte_def)
qed

lemma url_decode_lenient: "url_decode s = (if truncated_escape s then None else Some (lenient_decode s))"
  by (induction s rule: url_decode.induct) (auto simp: x2c_escape split: list.splits)

subsection \<open>Properties\<close>

text \<open>
  C33. The legacy decoder on every string, and against the new one. \<open>unescape_url\<close> leaves an array that ends with the
  string exactly when the string ends inside an escape. Otherwise it decodes in place and within the array, whatever lies behind the
  string; an escape that is not hexadecimal is not refused but becomes the byte given by \<open>escape_byte\<close>, and a byte
  zero ends the result. On every string that the percent decoder of the server accepts the two results are the same.
\<close>

theorem unescape_url_agrees:
  assumes "NUL \<notin> set s"
  shows "(unescape_url (s @ [NUL]) = None \<longleftrightarrow> truncated_escape s) \<and>
    (\<not> truncated_escape s \<longrightarrow>
      (\<exists>a. unescape_url (s @ NUL # r) = Some a \<and> length a = length (s @ NUL # r) \<and>
         cstring a = takeWhile ((\<noteq>) NUL) (lenient_decode s))) \<and>
    (percent_decode s = Some t \<longrightarrow>
      (\<exists>a. unescape_url (s @ NUL # r) = Some a \<and> length a = length (s @ NUL # r) \<and> cstring a = t))"
proof -
  have ok: "\<exists>a. unescape_url (s @ NUL # r) = Some a \<and> length a = length (s @ NUL # r) \<and>
      cstring a = takeWhile ((\<noteq>) NUL) u" if u: "url_decode s = Some u" for r u
  proof -
    obtain r' where "unescape_url (s @ NUL # r) = Some (u @ NUL # r')" "length (u @ NUL # r') = length (s @ NUL # r)"
      using unescape_loop_spec [OF assms u, of "[]" "[]" r] by (auto simp: unescape_url_def)
    moreover have "cstring (u @ NUL # r') = takeWhile ((\<noteq>) NUL) u" by (induction u) (auto simp: cstring_def)
    ultimately show ?thesis by metis
  qed
  have bad: "unescape_url (s @ [NUL]) = None" if "truncated_escape s"
    using unescape_loop_overrun [OF assms, of "[]" "[]"] that url_decode_lenient [of s] by (simp add: unescape_url_def)
  have same: "\<exists>a. unescape_url (s @ NUL # r) = Some a \<and> length a = length (s @ NUL # r) \<and> cstring a = t"
    if "percent_decode s = Some t"
    using ok [OF percent_url_decode [OF that], of r] percent_decode_no_NUL [OF that assms]
    by (auto simp: takeWhile_eq_all_conv)
  show ?thesis using ok [of "lenient_decode s" "[]"] ok [of "lenient_decode s" r] bad same url_decode_lenient [of s]
    by (cases "truncated_escape s") auto
qed

theorem unescape_url_agrees_witness:
  "(\<exists>a. unescape_url (''a%20b'' @ [NUL]) = Some a \<and> cstring a = ''a b'') \<and>
   (\<exists>a. unescape_url (''%zz!'' @ [NUL]) = Some a \<and> cstring a = ''S!'') \<and> unescape_url (''100%'' @ [NUL]) = None"
proof -
  have p: "percent_decode ''a%20b'' = Some ''a b''" by (simp add: hex_value_def Let_def char_of_def bit_0)
  have t: "\<not> truncated_escape ''%zz!''" "truncated_escape ''100%''" by simp_all
  have z: "takeWhile ((\<noteq>) NUL) (lenient_decode ''%zz!'') = ''S!''"
    by (simp add: escape_byte_def digit_weight_def Let_def char_of_def bit_0)
  show ?thesis
    using unescape_url_agrees [of "''a%20b''" "[]" "''a b''"] unescape_url_agrees [of "''%zz!''" "[]" "[]"]
      unescape_url_agrees [of "''100%''" "[]" "[]"] p t z by auto
qed

text \<open>
  How a shell reads a text outside of quotes, after the POSIX rules for quoting and token recognition: a backslash quotes the
  next character and is removed with a newline that follows it; a newline ends a command line; a number sign at the start of a word
  begins a comment up to the next newline, in which a backslash means nothing; the other characters of \<open>shell_special\<close> are
  active. The result is the list of command lines with the quotes removed, \<^const>\<open>None\<close> when a special character is active. The
  flag says whether a word may start.
\<close>

definition shell_special :: "char set" where
  "shell_special = set ''|&;<>()$*?[~{}'' \<union> {CHR 0x60, CHR 0x22, CHR 0x27}"

definition on_line :: "bytes \<Rightarrow> bytes list \<Rightarrow> bytes list" where
  "on_line x ls = (x @ hd ls) # tl ls"

function shell_lines :: "bool \<Rightarrow> bytes \<Rightarrow> bytes list option" where
  "shell_lines start [] = Some [[]]"
| "shell_lines start (c # s) =
     (if c = CHR 0x5C
      then case s of
          [] \<Rightarrow> None
        | d # s' \<Rightarrow> if d = LF then shell_lines start s' else map_option (on_line [d]) (shell_lines False s')
      else if c = LF then map_option ((#) []) (shell_lines True s)
      else if start \<and> c = CHR ''#'' then shell_lines True (dropWhile ((\<noteq>) LF) s)
      else if c \<in> shell_special then None
      else map_option (on_line [c]) (shell_lines (c = SP \<or> c = HTAB) s))"
  by pat_completeness auto
termination
  by (relation "measure (\<lambda>(start, s). length s)") (auto simp: length_dropWhile_le le_imp_less_Suc)

fun word_start :: "bool \<Rightarrow> bytes \<Rightarrow> bool" where
  "word_start start [] = start"
| "word_start start (c # s) = word_start (if c = LF then start else c = SP \<or> c = HTAB) s"

lemma on_line_append [simp]: "on_line [] (l # ls) = l # ls" "on_line x (on_line y ls) = on_line (x @ y) ls"
  by (simp_all add: on_line_def)

lemma shell_lines_not_Nil: "shell_lines start s = Some ls \<Longrightarrow> ls \<noteq> []"
  by (induction start s arbitrary: ls rule: shell_lines.induct)
     (auto simp: on_line_def split: if_splits list.splits)

lemma on_line_Nil: "map_option (on_line []) (shell_lines start s) = shell_lines start s"
  using shell_lines_not_Nil [of start s] by (cases "shell_lines start s") (auto simp: on_line_def)

lemma special_meta: "shell_special \<subseteq> set shell_meta" "CHR 0x5C \<in> set shell_meta" "LF \<in> set shell_meta"
    "SP \<notin> set shell_meta" "HTAB \<notin> set shell_meta" "CHR ''#'' \<notin> set shell_meta"
  by (auto simp: shell_special_def shell_meta_def)

text \<open>A quoted text without a number sign is read as the text without its newlines.\<close>

lemma shell_lines_quote:
  assumes "CHR ''#'' \<notin> set s"
  shows "shell_lines start (shell_quote s @ rest) =
    map_option (on_line (filter ((\<noteq>) LF) s)) (shell_lines (word_start start s) rest)"
  using assms
proof (induction s arbitrary: start)
  case Nil
  then show ?case by (simp add: shell_quote_def on_line_Nil)
next
  case (Cons c s)
  then have IH: "shell_lines b (shell_quote s @ rest) =
      map_option (on_line (filter ((\<noteq>) LF) s)) (shell_lines (word_start b s) rest)" for b by simp
  have q: "shell_quote (c # s) @ rest = quote_char c @ shell_quote s @ rest" by (simp add: shell_quote_def)
  have c: "c \<noteq> CHR ''#''" using Cons.prems by auto
  consider (lf) "c = LF" | (meta) "c \<noteq> LF" "c \<in> set shell_meta" | (plain) "c \<notin> set shell_meta" by blast
  then show ?case
  proof cases
    case lf
    then show ?thesis unfolding q using special_meta by (simp add: quote_char_def IH)
  next
    case meta
    then have "\<not> (c = SP \<or> c = HTAB)" using special_meta by auto
    then show ?thesis
      unfolding q using meta by (cases "shell_lines (word_start False s) rest") (simp_all add: quote_char_def IH)
  next
    case plain
    then have "c \<noteq> CHR 0x5C" "c \<noteq> LF" "c \<notin> shell_special" using special_meta by auto
    then show ?thesis
      unfolding q using plain c
      by (cases "shell_lines (word_start (c = SP \<or> c = HTAB) s) rest") (simp_all add: quote_char_def IH)
  qed
qed

lemma shell_lines_quoted:
  "CHR ''#'' \<notin> set s \<Longrightarrow> shell_lines start (shell_quote s) = Some [filter ((\<noteq>) LF) s]"
  using shell_lines_quote [of s start "[]"] by (simp add: on_line_def)

text \<open>A number sign in front of a newline, both unquoted by the comment they make, puts what follows on a command line of its own.\<close>

lemma shell_lines_comment:
  assumes "CHR ''#'' \<notin> set a" and "word_start start a" and "CHR ''#'' \<notin> set b"
  shows "shell_lines start (shell_quote (a @ CHR ''#'' # LF # b)) = Some [filter ((\<noteq>) LF) a, filter ((\<noteq>) LF) b]"
proof -
  have "shell_quote (a @ CHR ''#'' # LF # b) = shell_quote a @ CHR ''#'' # CHR 0x5C # LF # shell_quote b"
    using special_meta by (simp add: shell_quote_def quote_char_def)
  then show ?thesis
    using shell_lines_quote [OF assms(1), of start] assms(2) shell_lines_quoted [OF assms(3), of True]
    by (simp add: on_line_def)
qed

lemma shell_quote_append: "shell_quote (a @ b) = shell_quote a @ shell_quote b"
  by (simp add: shell_quote_def)

lemma shell_quote_hash: "CHR ''#'' \<in> set (shell_quote s) \<longleftrightarrow> CHR ''#'' \<in> set s"
  using special_meta(6) by (auto simp: shell_quote_def quote_char_def split: if_splits)

text \<open>
  Quoting for the shell. When the array has room for one more byte per special character,
  \<open>escape_shell_cmd\<close> stays within it and leaves a text which a shell reads, unless it contains a number
  sign, as one command line with nothing active: the original text, without newlines. When it has
  not, the function writes past its end.
\<close>

theorem escape_shell_cmd_quotes:
  assumes "NUL \<notin> set s"
  shows "(length (filter (\<lambda>c. c \<in> set shell_meta) s) \<le> length r \<longrightarrow>
      (\<exists>a. escape_shell_cmd (s @ NUL # r) = Some a \<and> length a = length (s @ NUL # r) \<and>
         (CHR ''#'' \<notin> set s \<longrightarrow> shell_lines start (cstring a) = Some [filter ((\<noteq>) LF) s]))) \<and>
    (length r < length (filter (\<lambda>c. c \<in> set shell_meta) s) \<longrightarrow> escape_shell_cmd (s @ NUL # r) = None)"
proof -
  have len: "length (shell_quote s) = length s + length (filter (\<lambda>c. c \<in> set shell_meta) s)"
    by (induction s) (auto simp: shell_quote_def quote_char_def)
  have "NUL \<notin> set (shell_quote s)" using assms by (auto simp: shell_quote_def quote_char_def split: if_splits)
  then show ?thesis
    using escape_loop_spec [OF assms, of "[]" r] assms
    by (auto simp: escape_shell_cmd_def strlen_def len shell_lines_quoted simp del: shell_lines.simps)
qed

theorem escape_shell_cmd_quotes_witness:
  "(\<exists>a. escape_shell_cmd (''a;b'' @ NUL # ''xx'') = Some a \<and> shell_lines True (cstring a) = Some [''a;b'']) \<and>
   escape_shell_cmd (''a;b'' @ [NUL]) = None"
  using escape_shell_cmd_quotes [of "''a;b''" "''xx''" True] escape_shell_cmd_quotes [of "''a;b''" "[]" True]
  by (auto simp: shell_meta_def simp del: shell_lines.simps)

end
