(* ===== verification/Cgi_Query.thy ===== *)
theory Cgi_Query
  imports Cgi_Util
begin

section \<open>The form echo programs\<close>

text \<open>
  Models \<open>legacy/http-root-dir/cgi-src/query.c\<close> and \<open>post-query.c\<close>, which print the name and value pairs of
  a submitted form. The result is the output and the status given to \<open>exit\<close>, if it is called;
  \<^const>\<open>None\<close> is undefined behaviour. The initial contents \<open>mem\<close> of the uninitialised arrays are a
  parameter.
\<close>

type_synonym c_env = "bytes \<Rightarrow> bytes option"
type_synonym entry = "cbuf \<times> cbuf"

definition content_type :: bytes where
  "content_type = ''Content-type: text/html'' @ [LF, LF]"

definition forms_overview :: bytes where
  "forms_overview = [LF] @ ''If you don'' @ [CHR 0x27] @ ''t understand this, see this <A HREF=\"'' @
     ''http://www.ncsa.uiuc.edu/SDG/Software/Mosaic/Docs/fill-out-forms/overview.html'' @
     ''\">forms overview</A>.'' @ [LF]"

definition result_list :: "(bytes \<times> bytes) list \<Rightarrow> bytes" where
  "result_list ps =
     ''<H1>Query Results</H1>You submitted the following name/value pairs:<p>'' @ [LF] @ ''<ul>'' @ [LF] @
     concat (map (\<lambda>(n, v). ''<li> <code>'' @ n @ '' = '' @ v @ ''</code>'' @ [LF]) ps) @ ''</ul>'' @ [LF]"

subsection \<open>GET\<close>

definition query_entry :: "entry \<Rightarrow> cbuf \<Rightarrow> (entry \<times> cbuf) option" where
  "query_entry e cl =
     (case getword (snd e) cl (CHR ''&'') of
        None \<Rightarrow> None
      | Some (val, cl) \<Rightarrow>
        (case plustospace val of
           None \<Rightarrow> None
         | Some val \<Rightarrow>
           (case unescape_url val of
              None \<Rightarrow> None
            | Some val \<Rightarrow> map_option (\<lambda>e. (e, cl)) (getword (fst e) val (CHR ''='')))))"

function query_loop :: "(nat \<Rightarrow> entry) \<Rightarrow> entry list \<Rightarrow> cbuf \<Rightarrow> entry list option" where
  "query_loop mem entries cl =
     (case rd cl 0 of
        None \<Rightarrow> None
      | Some c \<Rightarrow>
        if c = NUL then Some entries
        else if length entries \<ge> 10000 then None
        else (case query_entry (mem (length entries)) cl of
            None \<Rightarrow> None
          | Some (e, cl) \<Rightarrow> query_loop mem (entries @ [e]) cl))"
  by pat_completeness auto
termination
  by (relation "measure (\<lambda>(mem, entries, cl). 10000 - length entries)") auto

declare query_loop.simps [simp del]

text \<open>
  The output loop runs from 0 to the last index \<open>m\<close>, which is 0 if no entry was read; then it
  prints an array that was never written.
\<close>

definition print_entries :: "entry list \<Rightarrow> bytes option" where
  "print_entries entries =
     (if entries = [] then None else Some (result_list (map (\<lambda>(n, v). (cstring n, cstring v)) entries)))"

definition query_main :: "(nat \<Rightarrow> entry) \<Rightarrow> c_env \<Rightarrow> (bytes \<times> int option) option" where
  "query_main mem env =
     (case env ''REQUEST_METHOD'' of
        None \<Rightarrow> None
      | Some m \<Rightarrow>
        if m \<noteq> ''GET''
        then Some (content_type @ ''This script should be referenced with a METHOD of GET.'' @ forms_overview, Some 1)
        else (case env ''QUERY_STRING'' of
            None \<Rightarrow> Some (content_type @ ''No query information to decode.'' @ [LF], Some 1)
          | Some cl \<Rightarrow>
            (case query_loop mem [] (cl @ [NUL]) of
               None \<Rightarrow> None
             | Some entries \<Rightarrow>
               map_option (\<lambda>out. (content_type @ out, None)) (print_entries entries))))"

subsection \<open>POST\<close>

definition is_space :: "char \<Rightarrow> bool" where
  "is_space c \<longleftrightarrow> byte_val c = 32 \<or> 9 \<le> byte_val c \<and> byte_val c \<le> 13"

text \<open>\<open>atoi\<close>; a value outside \<open>int\<close> is undefined behaviour.\<close>

definition atoi :: "bytes \<Rightarrow> int option" where
  "atoi s =
     (let s = dropWhile is_space s;
          neg = (s \<noteq> [] \<and> hd s = CHR ''-'');
          s = (if s \<noteq> [] \<and> (hd s = CHR ''-'' \<or> hd s = CHR ''+'') then tl s else s);
          n = int (decimal_val (takeWhile is_digit s));
          v = (if neg then - n else n)
      in if - (2 ^ 31) \<le> v \<and> v < 2 ^ 31 then Some v else None)"

definition post_entry :: "c_file \<Rightarrow> int \<Rightarrow> (entry \<times> c_file \<times> int) option" where
  "post_entry f cl =
     (case fmakeword f (CHR ''&'') cl of
        None \<Rightarrow> None
      | Some (val, f, cl) \<Rightarrow>
        (case plustospace val of
           None \<Rightarrow> None
         | Some val \<Rightarrow>
           (case unescape_url val of
              None \<Rightarrow> None
            | Some val \<Rightarrow> map_option (\<lambda>e. (e, f, cl)) (makeword val (CHR ''='')))))"

function post_loop :: "entry list \<Rightarrow> c_file \<Rightarrow> int \<Rightarrow> entry list option" where
  "post_loop entries f cl =
     (if cl \<noteq> 0 \<and> \<not> feof f
      then if length entries \<ge> 10000 then None
        else (case post_entry f cl of
            None \<Rightarrow> None
          | Some (e, f, cl) \<Rightarrow> post_loop (entries @ [e]) f cl)
      else Some entries)"
  by pat_completeness auto
termination
  by (relation "measure (\<lambda>(entries, f, cl). 10000 - length entries)") auto

declare post_loop.simps [simp del]

definition post_query_main :: "c_env \<Rightarrow> bytes \<Rightarrow> (bytes \<times> int option) option" where
  "post_query_main env input =
     (case env ''REQUEST_METHOD'' of
        None \<Rightarrow> None
      | Some m \<Rightarrow>
        if m \<noteq> ''POST''
        then Some (content_type @ ''This script should be referenced with a METHOD of POST.'' @ forms_overview, Some 1)
        else (case env ''CONTENT_TYPE'' of
            None \<Rightarrow> None
          | Some t \<Rightarrow>
            if t \<noteq> ''application/x-www-form-urlencoded''
            then Some (content_type @ ''This script can only be used to decode form results. '' @ [LF], Some 1)
            else (case env ''CONTENT_LENGTH'' of
                None \<Rightarrow> None
              | Some l \<Rightarrow>
                (case atoi l of
                   None \<Rightarrow> None
                 | Some cl \<Rightarrow>
                   (case post_loop [] (input, False) cl of
                      None \<Rightarrow> None
                    | Some entries \<Rightarrow>
                      map_option (\<lambda>out. (content_type @ out, None)) (print_entries entries))))))"

subsection \<open>Encoded forms\<close>

definition encode_pair :: "bytes \<times> bytes \<Rightarrow> bytes" where
  "encode_pair p = percent_encode (fst p) @ CHR ''='' # percent_encode (snd p)"

fun encode_form :: "(bytes \<times> bytes) list \<Rightarrow> bytes" where
  "encode_form [] = []"
| "encode_form [p] = encode_pair p"
| "encode_form (p # ps) = encode_pair p @ CHR ''&'' # encode_form ps"

definition plain_pair :: "bytes \<times> bytes \<Rightarrow> bool" where
  "plain_pair p \<longleftrightarrow> NUL \<notin> set (fst p) \<and> NUL \<notin> set (snd p) \<and> CHR ''='' \<notin> set (fst p)"

definition safe_char :: "char \<Rightarrow> bool" where
  "safe_char c \<longleftrightarrow> c \<noteq> NUL \<and> c \<noteq> CHR ''&'' \<and> c \<noteq> CHR ''='' \<and> c \<noteq> CHR ''+''"

lemma hex_char_alnum: "d < 16 \<Longrightarrow> isalnum (hex_char d)"
  by (auto simp: hex_char_def isalnum_def is_digit_def)

lemma alnum_safe: "isalnum c \<Longrightarrow> safe_char c"
  by (auto simp: safe_char_def isalnum_def is_digit_def)

lemma percent_encode_safe: "c \<in> set (percent_encode s) \<Longrightarrow> safe_char c"
proof -
  have "safe_char c" if "unreserved c" for c
    using that alnum_safe by (auto simp: unreserved_def safe_char_def)
  moreover have "byte_val c div 16 < 16" for c
    by (rule less_mult_imp_div_less) (use byte_val_less [of c] in linarith)
  moreover have "safe_char (CHR ''%'')" by (simp add: safe_char_def)
  ultimately show "c \<in> set (percent_encode s) \<Longrightarrow> safe_char c"
    by (auto simp: percent_encode_def alnum_safe hex_char_alnum split: if_splits)
qed

lemma encode_pair_chars:
  "NUL \<notin> set (encode_pair p)" "CHR ''&'' \<notin> set (encode_pair p)" "plus_to_space (encode_pair p) = encode_pair p"
  "encode_pair p \<noteq> []"
proof -
  have s: "c \<in> set (encode_pair p) \<Longrightarrow> c \<noteq> NUL \<and> c \<noteq> CHR ''&'' \<and> c \<noteq> CHR ''+''" for c
    using percent_encode_safe by (auto simp: encode_pair_def safe_char_def)
  then show "NUL \<notin> set (encode_pair p)" "CHR ''&'' \<notin> set (encode_pair p)"
    "plus_to_space (encode_pair p) = encode_pair p"
    by (auto simp: plus_to_space_def intro!: map_idI)
  show "encode_pair p \<noteq> []" by (simp add: encode_pair_def)
qed

lemma percent_encode_no_NUL: "NUL \<notin> set (percent_encode s)"
  using percent_encode_safe by (auto simp: safe_char_def)

lemma unescape_encoded:
  assumes "NUL \<notin> set x"
  shows "\<exists>r'. unescape_url (percent_encode x @ NUL # r) = Some (x @ NUL # r') \<and>
    length (x @ NUL # r') = length (percent_encode x @ NUL # r)"
  using unescape_loop_spec [OF percent_encode_no_NUL percent_url_decode, of x x "[]" "[]" r]
    percent_decode_encode_aux [of x "[]"] assms by (auto simp: unescape_url_def)

lemma decode_pair:
  assumes "plain_pair p"
  shows "url_decode (encode_pair p) = Some (fst p @ CHR ''='' # snd p)"
proof -
  have "percent_decode (encode_pair p) = Some (fst p @ CHR ''='' # snd p)"
    using percent_decode_encode_aux [of "fst p" "CHR ''='' # percent_encode (snd p)"]
      percent_decode_encode_aux [of "snd p" "[]"] assms
    by (simp add: plain_pair_def encode_pair_def)
  then show ?thesis by (rule percent_url_decode)
qed

lemma takeWhile_stop: "c \<notin> set a \<Longrightarrow> takeWhile ((\<noteq>) c) (a @ c # b) = a"
  by (induction a) auto

lemma takeWhile_none: "c \<notin> set a \<Longrightarrow> takeWhile ((\<noteq>) c) a = a"
  by (induction a) auto

definition strings_of :: "entry \<Rightarrow> bytes \<times> bytes" where
  "strings_of e = (cstring (fst e), cstring (snd e))"

text \<open>A decoded pair in an array is split into name and value.\<close>

lemma decode_array:
  assumes "plain_pair p"
  shows "\<exists>val r'. plustospace (encode_pair p @ NUL # r) = Some (encode_pair p @ NUL # r) \<and>
    unescape_url (encode_pair p @ NUL # r) = Some val \<and> val = (fst p @ CHR ''='' # snd p) @ NUL # r'"
  using plus_loop_spec [OF encode_pair_chars(1), of "[]" p r]
    unescape_loop_spec [OF encode_pair_chars(1) decode_pair [OF assms], of "[]" "[]" r]
  by (auto simp: plustospace_def unescape_url_def encode_pair_chars(3))

lemma split_array:
  assumes "plain_pair p" and "length (fst p) < length name"
  shows "\<exists>e. getword name ((fst p @ CHR ''='' # snd p) @ NUL # r) (CHR ''='') = Some e \<and> strings_of e = p"
proof -
  have "NUL \<notin> set (fst p @ CHR ''='' # snd p)" "takeWhile ((\<noteq>) (CHR ''='')) (fst p @ CHR ''='' # snd p) = fst p"
    using assms(1) takeWhile_stop by (auto simp: plain_pair_def)
  then show ?thesis
    using getword_spec [of "fst p @ CHR ''='' # snd p" "CHR ''=''" name r] assms
    by (auto simp: strings_of_def plain_pair_def)
qed

lemma encode_pair_length: "plain_pair p \<Longrightarrow> length (fst p) < length (encode_pair p)"
proof -
  have "length s \<le> length (percent_encode s)" for s
    by (induction s) (auto simp: percent_encode_def)
  then show ?thesis by (simp add: encode_pair_def le_imp_less_Suc trans_le_add1)
qed

lemma query_entry_spec:
  assumes "plain_pair p" and "NUL \<notin> set s" and "takeWhile ((\<noteq>) (CHR ''&'')) s = encode_pair p"
    and "length (encode_pair p) < 128" and "length (fst e) = 128" and "length (snd e) = 128"
  shows "\<exists>e' r'. query_entry e (s @ NUL # r) = Some (e', drop (Suc (length (encode_pair p))) s @ NUL # r') \<and>
    strings_of e' = p"
proof -
  obtain r' where g: "getword (snd e) (s @ NUL # r) (CHR ''&'') =
      Some (encode_pair p @ NUL # drop (Suc (length (encode_pair p))) (snd e),
        drop (Suc (length (encode_pair p))) s @ NUL # r')"
    using getword_spec [OF assms(2), of "CHR ''&''" "snd e" r] assms(3,4,6) by (auto split: if_splits)
  obtain v where "plustospace (encode_pair p @ NUL # drop (Suc (length (encode_pair p))) (snd e)) =
      Some (encode_pair p @ NUL # drop (Suc (length (encode_pair p))) (snd e))"
    "unescape_url (encode_pair p @ NUL # drop (Suc (length (encode_pair p))) (snd e)) =
      Some ((fst p @ CHR ''='' # snd p) @ NUL # v)"
    using decode_array [OF assms(1)] by blast
  moreover obtain e' where "getword (fst e) ((fst p @ CHR ''='' # snd p) @ NUL # v) (CHR ''='') = Some e'" "strings_of e' = p"
    using split_array [OF assms(1), of "fst e" v] encode_pair_length [OF assms(1)] assms(4,5) by auto
  ultimately show ?thesis using g by (auto simp: query_entry_def)
qed

lemma encode_form_head:
  "takeWhile ((\<noteq>) (CHR ''&'')) (encode_form (p # ps)) = encode_pair p"
  "drop (Suc (length (encode_pair p))) (encode_form (p # ps)) = encode_form ps"
  "encode_form (p # ps) \<noteq> []"
  using encode_pair_chars [of p] by (cases ps; simp add: takeWhile_none takeWhile_stop)+

lemma encode_form_no_NUL: "NUL \<notin> set (encode_form ps)"
  by (induction ps rule: encode_form.induct) (auto simp: encode_pair_chars)

lemma query_loop_spec:
  assumes "list_all plain_pair ps" and "list_all (\<lambda>p. length (encode_pair p) < 128) ps"
    and "length entries + length ps \<le> 10000" and "\<And>i. length (fst (mem i)) = 128 \<and> length (snd (mem i)) = 128"
  shows "\<exists>es. query_loop mem entries (encode_form ps @ NUL # r) = Some (entries @ es) \<and> map strings_of es = ps"
  using assms(1-3)
proof (induction ps arbitrary: entries r)
  case Nil
  then show ?case by (subst query_loop.simps) (simp add: rd_def)
next
  case (Cons p ps)
  obtain e r' where e: "query_entry (mem (length entries)) (encode_form (p # ps) @ NUL # r) =
      Some (e, encode_form ps @ NUL # r')" "strings_of e = p"
    using query_entry_spec [of p "encode_form (p # ps)" "mem (length entries)" r] Cons.prems assms(4)
      encode_form_no_NUL encode_form_head [of p ps] by auto
  obtain c cs where c: "encode_form (p # ps) = c # cs" "c \<noteq> NUL"
    using encode_form_head(3) encode_form_no_NUL by (metis list.exhaust list.set_intros(1))
  have "rd (encode_form (p # ps) @ NUL # r) 0 = Some c" using c by (simp add: rd_def)
  then show ?case
    using Cons.prems e c(2) Cons.IH [of "entries @ [e]" r'] by (subst query_loop.simps) auto
qed

lemma fmakeword_form:
  assumes "length (encode_pair p) < 102400"
  shows "fmakeword (encode_form (p # ps), False) (CHR ''&'') (int (length (encode_form (p # ps)))) =
    Some (encode_pair p @ [NUL], (encode_form ps, False), int (length (encode_form ps)))"
proof (cases ps)
  case Nil
  then show ?thesis
    using fmakeword_loop_last [of "CHR ''&''" "encode_pair p" "[]" 102400 "replicate 102401 NUL" _ "[]"]
      encode_pair_chars [of p] assms by (simp add: fmakeword_def)
next
  case (Cons q qs)
  then show ?thesis
    using fmakeword_loop_spec [of "CHR ''&''" "encode_pair p" "[]" 102400 "replicate 102401 NUL"
        "int (length (encode_form (p # ps)))" "encode_form ps"]
      encode_pair_chars [of p] assms by (simp add: fmakeword_def)
qed

lemma post_entry_spec:
  assumes "plain_pair p" and "length (encode_pair p) < 102400"
  shows "\<exists>e. strings_of e = p \<and> post_entry (encode_form (p # ps), False) (int (length (encode_form (p # ps)))) =
    Some (e, (encode_form ps, False), int (length (encode_form ps)))"
proof -
  obtain v where "plustospace (encode_pair p @ [NUL]) = Some (encode_pair p @ [NUL])"
    "unescape_url (encode_pair p @ [NUL]) = Some ((fst p @ CHR ''='' # snd p) @ NUL # v)"
    using decode_array [OF assms(1)] by blast
  moreover have "length (fst p) < strlen ((fst p @ CHR ''='' # snd p) @ NUL # v) + 1"
    using assms(1) by (subst strlen_def, subst cstring_of) (auto simp: plain_pair_def)
  then obtain e where "makeword ((fst p @ CHR ''='' # snd p) @ NUL # v) (CHR ''='') = Some e" "strings_of e = p"
    using split_array [OF assms(1)] unfolding makeword_def by (metis length_replicate)
  ultimately show ?thesis using fmakeword_form [OF assms(2)] by (cases e) (auto simp: post_entry_def)
qed

lemma post_loop_spec:
  assumes "list_all plain_pair ps" and "list_all (\<lambda>p. length (encode_pair p) < 102400) ps"
    and "length entries + length ps \<le> 10000"
  shows "\<exists>es. post_loop entries (encode_form ps, False) (int (length (encode_form ps))) = Some (entries @ es) \<and>
    map strings_of es = ps"
  using assms
proof (induction ps arbitrary: entries)
  case Nil
  then show ?case by (subst post_loop.simps) simp
next
  case (Cons p ps)
  obtain e where e: "strings_of e = p" "post_entry (encode_form (p # ps), False)
      (int (length (encode_form (p # ps)))) = Some (e, (encode_form ps, False), int (length (encode_form ps)))"
    using post_entry_spec [of p ps] Cons.prems by auto
  have "int (length (encode_form (p # ps))) \<noteq> 0" using encode_form_head(3) by simp
  then show ?case
    using Cons.prems e Cons.IH [of "entries @ [e]"] by (subst post_loop.simps) (auto simp: feof_def)
qed

lemma print_entries_spec: "entries \<noteq> [] \<Longrightarrow> print_entries entries = Some (result_list (map strings_of entries))"
  by (auto simp: print_entries_def strings_of_def case_prod_beta intro!: arg_cong [where f = result_list])

lemma atoi_show: "n < 2 ^ 31 \<Longrightarrow> atoi (show_nat n) = Some (int n)"
proof -
  obtain c cs where c: "show_nat n = c # cs" "is_digit c"
    using show_nat_not_Nil [of n] show_nat_digits by (metis list.exhaust list.set_intros(1))
  then have "\<not> is_space c" "c \<noteq> CHR ''-''" "c \<noteq> CHR ''+''" by (auto simp: is_digit_def is_space_def)
  moreover assume "n < 2 ^ 31"
  moreover have "decimal_val (takeWhile is_digit (c # cs)) = n"
    using takeWhile_show [of n] decimal_show [of n] c(1) by simp
  ultimately show ?thesis using c(2) unfolding c(1) by (simp add: atoi_def Let_def)
qed

lemma query_main_echo:
  assumes "list_all plain_pair ps" and "ps \<noteq> []" and "length ps \<le> 10000"
    and "\<And>i. length (fst (mem i)) = 128 \<and> length (snd (mem i)) = 128"
    and "env ''REQUEST_METHOD'' = Some ''GET''" and "env ''QUERY_STRING'' = Some (encode_form ps)"
    and "list_all (\<lambda>p. length (encode_pair p) < 128) ps"
  shows "query_main mem env = Some (content_type @ result_list ps, None)"
proof -
  obtain es where "query_loop mem [] (encode_form ps @ [NUL]) = Some es" "map strings_of es = ps"
    using query_loop_spec [OF assms(1) assms(7), of "[]" mem "[]"] assms(3,4) by auto
  then show ?thesis using assms(2,5,6) print_entries_spec [of es] by (auto simp: query_main_def)
qed

lemma post_query_main_echo:
  assumes "list_all plain_pair ps" and "ps \<noteq> []" and "length ps \<le> 10000"
    and "env ''REQUEST_METHOD'' = Some ''POST''"
    and "env ''CONTENT_TYPE'' = Some ''application/x-www-form-urlencoded''"
    and "env ''CONTENT_LENGTH'' = Some (show_nat (length (encode_form ps)))" and "length (encode_form ps) < 2 ^ 31"
    and "list_all (\<lambda>p. length (encode_pair p) < 102400) ps"
  shows "post_query_main env (encode_form ps) = Some (content_type @ result_list ps, None)"
proof -
  obtain es where "post_loop [] (encode_form ps, False) (int (length (encode_form ps))) = Some es"
    "map strings_of es = ps" using post_loop_spec [OF assms(1) assms(8), of "[]"] assms(3) by auto
  then show ?thesis
    using assms(2,4-6) print_entries_spec [of es] atoi_show [OF assms(7)] by (auto simp: post_query_main_def)
qed

subsection \<open>Properties\<close>

text \<open>
  Both programs print the form that was sent. For a form of one to ten thousand pairs whose
  names have no equals sign (and no NUL bytes anywhere), sent in the usual encoding with every
  encoded pair short enough (127 bytes for \<open>query\<close>, whose arrays have 128; 102399 for
  \<open>post-query\<close>), the output is the list of exactly those names and values.
\<close>

theorem form_echo:
  assumes "list_all plain_pair ps" and "ps \<noteq> []" and "length ps \<le> 10000"
    and "\<And>i. length (fst (mem i)) = 128 \<and> length (snd (mem i)) = 128"
  shows "(env ''REQUEST_METHOD'' = Some ''GET'' \<and> env ''QUERY_STRING'' = Some (encode_form ps) \<and>
      list_all (\<lambda>p. length (encode_pair p) < 128) ps \<longrightarrow>
      query_main mem env = Some (content_type @ result_list ps, None)) \<and>
    (env ''REQUEST_METHOD'' = Some ''POST'' \<and> env ''CONTENT_TYPE'' = Some ''application/x-www-form-urlencoded'' \<and>
      env ''CONTENT_LENGTH'' = Some (show_nat (length (encode_form ps))) \<and> length (encode_form ps) < 2 ^ 31 \<and>
      list_all (\<lambda>p. length (encode_pair p) < 102400) ps \<longrightarrow>
      post_query_main env (encode_form ps) = Some (content_type @ result_list ps, None))"
  using query_main_echo [OF assms(1-3), of mem env, OF assms(4)] post_query_main_echo [OF assms(1-3), of env]
  by blast

definition blank_mem :: "nat \<Rightarrow> entry" where
  "blank_mem i = (replicate 128 NUL, replicate 128 NUL)"

theorem form_echo_witness:
  "query_main blank_mem [''REQUEST_METHOD'' \<mapsto> ''GET'', ''QUERY_STRING'' \<mapsto> encode_form [(''a'', ''x y'')]] =
     Some (content_type @ result_list [(''a'', ''x y'')], None)"
proof -
  have "list_all plain_pair [(''a'', ''x y'')]" by (simp add: plain_pair_def)
  moreover have "length (encode_pair (''a'', ''x y'')) < 128" by (simp add: encode_pair_def percent_encode_def)
  ultimately show ?thesis
    using form_echo [of "[(''a'', ''x y'')]" blank_mem] by (simp add: blank_mem_def)
qed

lemma query_empty:
  assumes "env ''REQUEST_METHOD'' = Some ''GET''" and "env ''QUERY_STRING'' = Some []"
  shows "query_main mem env = None"
  using assms by (simp add: query_main_def query_loop.simps rd_def print_entries_def)

lemma query_overrun:
  assumes "env ''REQUEST_METHOD'' = Some ''GET''" and "env ''QUERY_STRING'' = Some q" and "NUL \<notin> set q"
    and "length (snd (mem 0)) = 128" and "128 \<le> length (takeWhile ((\<noteq>) (CHR ''&'')) q)"
  shows "query_main mem env = None"
proof -
  have "query_entry (mem 0) (q @ [NUL]) = None"
    using getword_spec [OF assms(3), of "CHR ''&''" "snd (mem 0)" "[]"] assms(4,5)
    by (auto simp: query_entry_def split: if_splits)
  moreover have "q \<noteq> []" using assms(5) by auto
  then have "rd (q @ [NUL]) 0 = Some (hd q)" "hd q \<noteq> NUL" using assms(3) by (cases q; auto simp: rd_def)+
  ultimately have "query_loop mem [] (q @ [NUL]) = None" by (subst query_loop.simps) simp
  then show ?thesis using assms(1,2) by (simp add: query_main_def)
qed

lemma query_split_name:
  assumes "env ''REQUEST_METHOD'' = Some ''GET''" and "env ''QUERY_STRING'' = Some ''a%3Db=c''"
    and "length (snd (mem 0)) = 128" and "length (fst (mem 0)) = 128"
  shows "query_main mem env = Some (content_type @ result_list [(''a'', ''b=c'')], None)"
proof -
  let ?q = "''a%3Db=c''" and ?m = "drop (Suc (length ''a%3Db=c'')) (snd (mem 0))"
    and ?n = "drop (Suc (length ''a'')) (fst (mem 0))"
  have n: "NUL \<notin> set ?q" by simp
  obtain r' where 1: "getword (snd (mem 0)) (?q @ [NUL]) (CHR ''&'') = Some (?q @ NUL # ?m, NUL # r')"
    using getword_spec [OF n, of "CHR ''&''" "snd (mem 0)" "[]"] assms(3) by auto
  have 2: "plustospace (?q @ NUL # ?m) = Some (?q @ NUL # ?m)"
    using plus_loop_spec [OF n, of "[]"] by (simp add: plustospace_def plus_to_space_def)
  have "url_decode ?q = Some ''a=b=c''"
    by (simp add: x2c_def x2c_digit_def signed_def to_char_def char_of_def bit_0)
  then obtain v where 3: "unescape_url (?q @ NUL # ?m) = Some (''a=b=c'' @ NUL # v)"
    using unescape_loop_spec [OF n, of "''a=b=c''" "[]" "[]"] by (auto simp: unescape_url_def)
  obtain r'' where 4: "getword (fst (mem 0)) (''a=b=c'' @ NUL # v) (CHR ''='') =
      Some (''a'' @ NUL # ?n, ''b=c'' @ NUL # r'')"
    using getword_spec [of "''a=b=c''" "CHR ''=''" "fst (mem 0)" v] assms(4) by auto
  have "query_entry (mem 0) (?q @ [NUL]) = Some ((''a'' @ NUL # ?n, ''b=c'' @ NUL # r''), NUL # r')"
    unfolding query_entry_def 1 using 2 3 4 by simp
  then have "query_loop mem [] (?q @ [NUL]) = Some [(''a'' @ NUL # ?n, ''b=c'' @ NUL # r'')]"
    by (simp add: query_loop.simps rd_def)
  then show ?thesis
    using assms(1,2) print_entries_spec [of "[(''a'' @ NUL # ?n, ''b=c'' @ NUL # r'')]"]
      cstring_of [of "''a''"] cstring_of [of "''b=c''"]
    by (simp add: query_main_def strings_of_def)
qed

text \<open>
  Where \<open>query\<close> leaves its arrays or the form. An empty query string makes it print an entry
  that was never written; a pair of 128 bytes or more before the first ampersand overruns
  the array of the value; and since escapes are decoded before the pair is split, a name that
  contains an encoded equals sign is split there.
\<close>

theorem query_undefined:
  assumes "env ''REQUEST_METHOD'' = Some ''GET''" and "env ''QUERY_STRING'' = Some q" and "NUL \<notin> set q"
    and "length (fst (mem 0)) = 128" and "length (snd (mem 0)) = 128"
  shows "(q = [] \<longrightarrow> query_main mem env = None) \<and>
    (128 \<le> length (takeWhile ((\<noteq>) (CHR ''&'')) q) \<longrightarrow> query_main mem env = None) \<and>
    (q = ''a%3Db=c'' \<longrightarrow> query_main mem env = Some (content_type @ result_list [(''a'', ''b=c'')], None))"
  using query_empty query_overrun [of env q mem] query_split_name [of env mem] assms by blast

theorem query_undefined_witness:
  "query_main blank_mem [''REQUEST_METHOD'' \<mapsto> ''GET'', ''QUERY_STRING'' \<mapsto> replicate 200 (CHR ''a'')] = None"
proof -
  have "takeWhile ((\<noteq>) (CHR ''&'')) (replicate 200 (CHR ''a'')) = replicate 200 (CHR ''a'')"
    by (rule takeWhile_none) simp
  then show ?thesis
    using query_undefined [of "[''REQUEST_METHOD'' \<mapsto> ''GET'', ''QUERY_STRING'' \<mapsto> replicate 200 (CHR ''a'')]"
        "replicate 200 (CHR ''a'')" blank_mem] by (simp add: blank_mem_def)
qed

end
