(* ===== verification/Cgi_Phf.thy ===== *)
theory Cgi_Phf
  imports Cgi_Query
begin

section \<open>The phone book gateway\<close>

text \<open>
  Models \<open>legacy/http-root-dir/cgi-src/phf.c\<close>: the query form, and \<open>main\<close>, which turns a submitted form into a
  command for the shell. The result is the output, the command given to \<open>popen\<close> if there is one,
  and the status given to \<open>exit\<close>; \<^const>\<open>None\<close> is undefined behaviour. Arrays that are not
  initialised have their initial contents as parameters.
\<close>

subsection \<open>String functions of the library\<close>

text \<open>\<open>strcat\<close> of a C string onto an array.\<close>

definition strcat :: "cbuf \<Rightarrow> bytes \<Rightarrow> cbuf option" where
  "strcat dst s =
     (if NUL \<in> set dst \<and> strlen dst + length s < length dst
      then Some (cstring dst @ s @ NUL # drop (Suc (strlen dst + length s)) dst) else None)"

text \<open>
  \<open>sscanf(s, "%d", &which)\<close>: the value returned and the value read. An input of spaces only
  is a failure before the first conversion, reported as EOF, which is not zero.
\<close>

definition sscanf_d :: "bytes \<Rightarrow> int \<Rightarrow> (int \<times> int) option" where
  "sscanf_d s which =
     (let t = dropWhile is_space s; u = (if t \<noteq> [] \<and> (hd t = CHR ''-'' \<or> hd t = CHR ''+'') then tl t else t)
      in if t = [] then Some (- 1, which)
         else if takeWhile is_digit u = [] then Some (0, which)
         else map_option (Pair 1) (atoi s))"

subsection \<open>The form\<close>

definition idxfields :: "(bytes \<times> nat \<times> bytes) list" where
  "idxfields = [(''Qalias'', 32, ''Alias''), (''Qname'', 256, ''Name''), (''Qemail'', 128, ''E-mail Address''),
     (''Qnickname'', 120, ''Nickname''), (''Qoffice_phone'', 60, ''Office Phone Number''),
     (''Qcallsign'', 16, ''HAM Callsign''), (''Qproxy'', 64, ''Proxy''), (''Qhigh_school'', 30, ''High School''),
     (''Qslip'', 256, ''SLIP Address'')]"

definition othersearchfields :: "(bytes \<times> nat \<times> bytes) list" where
  "othersearchfields = [(''Qcurriculum'', 64, ''Curriculum''), (''Qphone'', 64, ''Phone Number''),
     (''Qaddress'', 128, ''Address''), (''Qoffice_address'', 128, ''Office Address''),
     (''Qhome_address'', 128, ''Home Address''), (''Qpermanent_address'', 128, ''Permanent Address''),
     (''Qpermanent_phone'', 60, ''Permanent Phone''), (''Qdepartment'', 64, ''Department''),
     (''Qtitle'', 64, ''Title''), (''Qproject'', 256, ''Project''), (''Qother'', 256, ''Other''),
     (''Qbirthday'', 24, ''Birthday''), (''Qcolleges'', 120, ''Colleges Attended''),
     (''Qleft_uiuc'', 24, ''Date/Month Person left UIUC'')]"

definition input_line :: "bytes \<times> nat \<times> bytes \<Rightarrow> bytes" where
  "input_line f = (case f of (field, len, label) \<Rightarrow>
     ''<LI><INPUT TYPE=\"text\" NAME=\"'' @ field @ ''\" MAXLENGTH=\"'' @ show_nat len @ ''\">'' @ label @ [LF])"

definition checkbox_line :: "bytes \<times> nat \<times> bytes \<Rightarrow> bytes" where
  "checkbox_line f = (case f of (field, len, label) \<Rightarrow>
     ''<LI><INPUT TYPE=\"checkbox\" NAME=\"return\" VALUE=\"'' @ tl field @ ''\">'' @ label @ [LF])"

abbreviation html_break :: bytes where "html_break \<equiv> ''<P>'' @ [LF]"

definition send_doc :: "c_env \<Rightarrow> 32 word \<Rightarrow> bytes option" where
  "send_doc env which =
     (case (env ''SERVER_NAME'', env ''SERVER_PORT'', env ''SCRIPT_NAME'') of
        (Some server, Some port, Some script) \<Rightarrow> Some (
          ''<TITLE>Form for CSO PH query</TITLE>'' @ [LF] @ ''<H1>Form for CSO PH query</H1>'' @ [LF] @
          ''This form will send a PH query to the specified ph server.'' @ [LF] @ html_break @ ''<HR>'' @ [LF] @
          ''<FORM ACTION=\"http://'' @ server @ '':'' @ port @ script @ ''\">'' @ [LF] @
          ''PH Server:<INPUT TYPE=\"text\" NAME=\"Jserver\" VALUE=\"ns.uiuc.edu\" MAXLENGTH=\"256\">'' @ [LF] @
          html_break @
          ''<H3>At least one of these fields must be specified:</H3><UL>'' @ [LF] @
          concat (map input_line idxfields) @ ''</UL>'' @ [LF] @
          (if and which 0x10 = 0
           then ''<A HREF=\"'' @ script @ ''?Jform='' @ show_int (sint (or which 0x10)) @
             ''\"><H3>Show additional fields to narrow query</H3></A>'' @ [LF]
           else ''<H3>Additional fields to narrow query:</H3><UL>'' @ [LF] @
             concat (map input_line othersearchfields) @ ''</UL>'' @ [LF] @
             ''<A HREF=\"'' @ script @ ''?Jform='' @ show_int (sint (and which 0x01)) @
             ''\">Show fewer query fields</A>'' @ [LF]) @
          html_break @
          (if and which 0x01 = 0
           then ''<A HREF=\"'' @ script @ ''?Jform='' @ show_int (sint (or which 0x01)) @
             ''\"><H3>Return more than default fields</H3></A>'' @ [LF]
           else ''<H3>Fields to return:</H3><UL>'' @ [LF] @
             concat (map checkbox_line idxfields) @ concat (map checkbox_line othersearchfields) @ ''</UL>'' @ [LF] @
             ''<A HREF=\"'' @ script @ ''?Jform='' @ show_int (sint (and which 0x10)) @
             ''\">Return default fields</A>'' @ [LF]) @
          html_break @ ''<INPUT TYPE=\"submit\">'' @ [LF] @ ''</FORM>'' @ [LF] @
          ''<HR>'' @ [LF] @ ''<ADDRESS>'' @
          ''Questions, comments to: <a href=\"http://www.ncsa.uiuc.edu/SDG/People/jbrowne/jbrowne.html\">Jim Browne</a>'' @
          [LF] @ ''</ADDRESS>'' @ [LF])
      | _ \<Rightarrow> None)"

subsection \<open>The command\<close>

text \<open>
  The bytes of \<open>returnstr\<close>, \<open>typestr\<close> and \<open>commandstr\<close> behind their first NUL are never read; they
  start as NUL here. \<open>serverstr\<close> has no initial value in the program.
\<close>

record phf_state =
  returnstr :: cbuf
  typestr :: cbuf
  serverstr :: cbuf
  atleastonereturn :: bool
  atleastonequery :: bool

record phf_result =
  phf_out :: bytes
  phf_command :: "bytes option"
  phf_exit :: "int option"

text \<open>The loop that reads at most 64 entries.\<close>

function phf_entries :: "(nat \<Rightarrow> entry) \<Rightarrow> entry list \<Rightarrow> cbuf \<Rightarrow> entry list option" where
  "phf_entries mem entries cl =
     (case rd cl 0 of
        None \<Rightarrow> None
      | Some c \<Rightarrow>
        if c = NUL then Some entries
        else if length entries \<ge> 64 then None
        else (case query_entry (mem (length entries)) cl of
            None \<Rightarrow> None
          | Some (e, cl) \<Rightarrow> phf_entries mem (entries @ [e]) cl))"
  by pat_completeness auto
termination
  by (relation "measure (\<lambda>(mem, entries, cl). 64 - length entries)") auto

declare phf_entries.simps [simp del]

definition append_all :: "cbuf \<Rightarrow> bytes list \<Rightarrow> cbuf option" where
  "append_all dst ss = foldl (\<lambda>a s. case a of None \<Rightarrow> None | Some a \<Rightarrow> strcat a s) (Some dst) ss"

text \<open>
  One pass of the loop over the entries, and the loop; \<open>Inl\<close> is an early exit after the given
  text.
\<close>

definition phf_entry :: "c_env \<Rightarrow> entry \<Rightarrow> phf_state \<Rightarrow> (bytes + phf_state) option" where
  "phf_entry env e st =
     (let name = cstring (fst e); val = cstring (snd e)
      in if name = ''return''
         then map_option (\<lambda>a. Inr (st\<lparr>returnstr := a, atleastonereturn := True\<rparr>))
                (append_all (returnstr st) [val, '' ''])
         else if name \<noteq> [] \<and> hd name = CHR ''Q'' \<and> val \<noteq> []
         then map_option (\<lambda>a. Inr (st\<lparr>typestr := a, atleastonequery := True\<rparr>))
                (append_all (typestr st) [tl name, ''='', val, '' ''])
         else if name = ''Jserver''
         then map_option (\<lambda>a. Inr (st\<lparr>serverstr := a\<rparr>)) (strcpy (serverstr st) val)
         else if name = ''Jform''
         then (case sscanf_d val 0 of
             None \<Rightarrow> None
           | Some (r, which) \<Rightarrow>
             if r \<noteq> 0 then map_option Inl (send_doc env (word_of_int which)) else Some (Inl []))
         else Some (Inr st))"

fun phf_scan :: "c_env \<Rightarrow> entry list \<Rightarrow> phf_state \<Rightarrow> (bytes + phf_state) option" where
  "phf_scan env [] st = Some (Inr st)"
| "phf_scan env (e # es) st =
     (case phf_entry env e st of
        None \<Rightarrow> None
      | Some (Inl out) \<Rightarrow> Some (Inl out)
      | Some (Inr st) \<Rightarrow> phf_scan env es st)"

definition phf_build :: "cbuf \<Rightarrow> phf_state \<Rightarrow> cbuf option" where
  "phf_build commandstr st =
     (case strcpy commandstr ''/usr/local/bin/ph -m '' of
        None \<Rightarrow> None
      | Some cmd \<Rightarrow>
        (case (if NUL \<notin> set (serverstr st) then None
               else if strlen (serverstr st) \<noteq> 0 then
                 (case escape_shell_cmd (serverstr st) of
                    None \<Rightarrow> None
                  | Some server \<Rightarrow> append_all cmd ['' -s '', cstring server, '' ''])
               else Some cmd) of
           None \<Rightarrow> None
         | Some cmd \<Rightarrow>
           (case escape_shell_cmd (typestr st) of
              None \<Rightarrow> None
            | Some ty \<Rightarrow>
              (case strcat cmd (cstring ty) of
                 None \<Rightarrow> None
               | Some cmd \<Rightarrow>
                 if atleastonereturn st then
                   (case escape_shell_cmd (returnstr st) of
                      None \<Rightarrow> None
                    | Some ret \<Rightarrow> strcat cmd (cstring ret))
                 else Some cmd))))"

definition phf_start :: "cbuf \<Rightarrow> phf_state" where
  "phf_start server0 =
     \<lparr>returnstr = ''return '' @ replicate (1024 - 7) NUL, typestr = '' '' @ replicate (4098 - 1) NUL,
      serverstr = server0, atleastonereturn = False, atleastonequery = False\<rparr>"

definition commandstr0 :: cbuf where
  "commandstr0 = replicate 8192 NUL"

definition phf_results :: "(bytes \<Rightarrow> bytes) \<Rightarrow> phf_state \<Rightarrow> phf_result option" where
  "phf_results run_ph st =
     (let out = content_type @ ''<H1>Query Results</H1>'' @ [LF] @ html_break
      in if \<not> atleastonequery st
         then Some \<lparr>phf_out = out @ ''<B>You did not enter a query!</B>'' @ [LF], phf_command = None,
                phf_exit = None\<rparr>
         else map_option (\<lambda>cmd.
             \<lparr>phf_out = out @ cstring cmd @ [LF] @ ''<PRE>'' @ [LF] @
                fst (send_fd (run_ph (cstring cmd), False)) @ ''</PRE>'' @ [LF],
              phf_command = Some (cstring cmd), phf_exit = None\<rparr>) (phf_build commandstr0 st))"

definition phf_form :: "c_env \<Rightarrow> phf_result option" where
  "phf_form env =
     map_option (\<lambda>d. \<lparr>phf_out = content_type @ d, phf_command = None, phf_exit = Some 1\<rparr>) (send_doc env 0)"

definition phf_main ::
  "(nat \<Rightarrow> entry) \<Rightarrow> cbuf \<Rightarrow> c_env \<Rightarrow> (bytes \<Rightarrow> bytes) \<Rightarrow> phf_result option" where
  "phf_main mem server0 env run_ph =
     (case env ''QUERY_STRING'' of
        None \<Rightarrow> phf_form env
      | Some q \<Rightarrow>
        if q = [] then phf_form env
        else (case phf_entries mem [] (q @ [NUL]) of
            None \<Rightarrow> None
          | Some entries \<Rightarrow>
            (case phf_scan env entries (phf_start server0) of
               None \<Rightarrow> None
             | Some (Inl out) \<Rightarrow> Some \<lparr>phf_out = content_type @ out, phf_command = None, phf_exit = Some 1\<rparr>
             | Some (Inr st) \<Rightarrow> phf_results run_ph st)))"

subsection \<open>What reaches the shell\<close>

definition terminated :: "cbuf \<Rightarrow> bool" where
  "terminated a \<longleftrightarrow> NUL \<in> set a"

lemma cstring_no_NUL [simp]: "NUL \<notin> set (cstring a)"
  by (auto simp: cstring_def dest: set_takeWhileD)

lemma strcat_string:
  "strcat dst s = Some dst' \<Longrightarrow> NUL \<notin> set s \<Longrightarrow> cstring dst' = cstring dst @ s \<and> terminated dst'"
  using cstring_of [of "cstring dst @ s"] by (auto simp: strcat_def terminated_def split: if_splits)

lemma strcpy_string: "strcpy dst s = Some dst' \<Longrightarrow> NUL \<notin> set s \<Longrightarrow> cstring dst' = s \<and> terminated dst'"
  by (auto simp: strcpy_def terminated_def split: if_splits)

lemma append_all_none: "foldl (\<lambda>a s. case a of None \<Rightarrow> None | Some a \<Rightarrow> strcat a s) None ss = None"
  by (induction ss) auto

lemma append_all_string:
  "append_all dst ss = Some dst' \<Longrightarrow> ss \<noteq> [] \<Longrightarrow> NUL \<notin> set (concat ss) \<Longrightarrow>
     cstring dst' = cstring dst @ concat ss \<and> terminated dst'"
proof (induction ss arbitrary: dst)
  case (Cons s ss)
  then obtain a where a: "strcat dst s = Some a" "append_all a ss = Some dst'"
    using append_all_none by (cases "strcat dst s") (auto simp: append_all_def)
  then show ?case
    using Cons strcat_string [OF a(1)] by (cases "ss = []") (auto simp: append_all_def)
qed simp

lemma shell_quote_no_NUL [simp]: "NUL \<notin> set (shell_quote (cstring a))"
  using cstring_no_NUL [of a] by (auto simp: shell_quote_def quote_char_def simp del: cstring_no_NUL split: if_splits)

lemma in_set_tlD: "x \<in> set (tl xs) \<Longrightarrow> x \<in> set xs"
  by (cases xs) auto

lemma escape_string:
  assumes "terminated a" and "escape_shell_cmd a = Some a'"
  shows "cstring a' = shell_quote (cstring a)"
proof -
  obtain r where r: "a = cstring a @ NUL # r" using terminated_split assms(1) by (auto simp: terminated_def)
  have "escape_loop (cstring a @ NUL # r) 0 (length (cstring a)) = Some a'"
    using assms(2) r by (simp add: escape_shell_cmd_def strlen_def)
  then show ?thesis
    using escape_loop_spec [OF cstring_no_NUL, of "[]" a r] by (auto split: if_splits)
qed

lemma phf_entry_terminated:
  assumes "phf_entry env e st = Some (Inr st')" and "terminated (typestr st)" and "terminated (returnstr st)"
  shows "terminated (typestr st') \<and> terminated (returnstr st')"
proof -
  have "terminated a" if "append_all b [cstring (snd e), '' ''] = Some a" for a b
    using append_all_string [OF that] cstring_no_NUL [of "snd e"] by auto
  moreover have "terminated a" if "append_all b [tl (cstring (fst e)), ''='', cstring (snd e), '' ''] = Some a" for a b
    using append_all_string [OF that] cstring_no_NUL [of "snd e"] in_set_tlD [of NUL "cstring (fst e)"] by auto
  ultimately show ?thesis
    using assms unfolding phf_entry_def Let_def
    by (auto split: if_split_asm option.split_asm prod.split_asm)
qed

lemma phf_scan_terminated:
  "phf_scan env es st = Some (Inr st') \<Longrightarrow> terminated (typestr st) \<Longrightarrow> terminated (returnstr st) \<Longrightarrow>
     terminated (typestr st') \<and> terminated (returnstr st')"
proof (induction es arbitrary: st)
  case (Cons e es)
  then obtain st1 where "phf_entry env e st = Some (Inr st1)" "phf_scan env es st1 = Some (Inr st')"
    by (auto split: option.split_asm sum.split_asm)
  then show ?case using Cons phf_entry_terminated [of env e st st1] by blast
qed simp

lemma phf_start_terminated: "terminated (typestr (phf_start server0))" "terminated (returnstr (phf_start server0))"
  by (auto simp: phf_start_def terminated_def in_set_replicate)

lemma phf_build_shape:
  assumes "phf_build commandstr st = Some cmd" and "terminated (typestr st)" and "terminated (returnstr st)"
  shows "\<exists>server ret. cstring cmd = ''/usr/local/bin/ph -m '' @ server @ shell_quote (cstring (typestr st)) @ ret \<and>
    (server = [] \<or> server = '' -s '' @ shell_quote (cstring (serverstr st)) @ '' '') \<and>
    (ret = [] \<or> ret = shell_quote (cstring (returnstr st)))"
proof -
  obtain c1 where c1: "strcpy commandstr ''/usr/local/bin/ph -m '' = Some c1"
    using assms(1) by (auto simp: phf_build_def split: option.splits)
  then have s1: "cstring c1 = ''/usr/local/bin/ph -m ''" using strcpy_string by simp
  obtain c2 where c2: "(if NUL \<notin> set (serverstr st) then None
      else if strlen (serverstr st) \<noteq> 0 then
        (case escape_shell_cmd (serverstr st) of None \<Rightarrow> None
         | Some server \<Rightarrow> append_all c1 ['' -s '', cstring server, '' ''])
      else Some c1) = Some c2"
    using assms(1) c1 by (auto simp: phf_build_def split: option.splits)
  have s2: "cstring c2 = cstring c1 \<or> cstring c2 = cstring c1 @ '' -s '' @ shell_quote (cstring (serverstr st)) @ '' ''"
    using c2 append_all_string [of c1 "['' -s '', x, '' '']" c2 for x]
      escape_string [of "serverstr st"]
    by (auto simp: terminated_def split: if_splits option.splits)
  obtain ty c3 where c3: "escape_shell_cmd (typestr st) = Some ty" "strcat c2 (cstring ty) = Some c3"
    using assms(1) c1 c2 by (auto simp: phf_build_def split: option.splits)
  then have s3: "cstring c3 = cstring c2 @ shell_quote (cstring (typestr st))"
    using strcat_string [OF c3(2)] escape_string [OF assms(2) c3(1)] by simp
  have "cstring cmd = cstring c3 \<or> cstring cmd = cstring c3 @ shell_quote (cstring (returnstr st))"
    using assms(1,3) c1 c2 c3 strcat_string [of c3 _ cmd] escape_string [of "returnstr st"]
    by (auto simp: phf_build_def split: if_splits option.splits)
  then obtain ret where "cstring cmd = cstring c3 @ ret" "ret = [] \<or> ret = shell_quote (cstring (returnstr st))"
    by auto
  moreover obtain server where "cstring c2 = cstring c1 @ server"
    "server = [] \<or> server = '' -s '' @ shell_quote (cstring (serverstr st)) @ '' ''"
    using s2 by auto
  ultimately show ?thesis unfolding s1 s3 by (intro exI [of _ server] exI [of _ ret]) simp
qed

lemma phf_main_command:
  assumes "phf_main mem server0 env run_ph = Some result" and "phf_command result = Some cmd"
  shows "\<exists>entries st buf. phf_scan env entries (phf_start server0) = Some (Inr st) \<and>
    phf_build commandstr0 st = Some buf \<and> cmd = cstring buf"
proof -
  have form: "phf_form env \<noteq> Some result" using assms(2) by (auto simp: phf_form_def)
  then obtain entries st where "phf_scan env entries (phf_start server0) = Some (Inr st)"
    "phf_results run_ph st = Some result"
    using assms unfolding phf_main_def by (auto split: option.splits if_splits sum.splits)
  moreover from this assms(2) obtain buf where "phf_build commandstr0 st = Some buf" "cmd = cstring buf"
    by (auto simp: phf_results_def Let_def split: if_splits)
  ultimately show ?thesis by blast
qed

lemma phf_command_text:
  assumes "phf_main mem server0 env run_ph = Some result" and "phf_command result = Some cmd"
  shows "\<exists>text. cmd = shell_quote (''/usr/local/bin/ph -m '' @ text)"
proof -
  obtain entries st buf where scan: "phf_scan env entries (phf_start server0) = Some (Inr st)"
    and build: "phf_build commandstr0 st = Some buf" "cmd = cstring buf"
    using phf_main_command [OF assms] by blast
  have "terminated (typestr st) \<and> terminated (returnstr st)"
    using phf_scan_terminated [OF scan] phf_start_terminated by blast
  then obtain server ret where shape:
    "cmd = ''/usr/local/bin/ph -m '' @ server @ shell_quote (cstring (typestr st)) @ ret"
    "server = [] \<or> server = '' -s '' @ shell_quote (cstring (serverstr st)) @ '' ''"
    "ret = [] \<or> ret = shell_quote (cstring (returnstr st))"
    using phf_build_shape [OF build(1)] build(2) by blast
  have p: "shell_quote ''/usr/local/bin/ph -m '' = ''/usr/local/bin/ph -m ''" "shell_quote '' -s '' = '' -s ''" "shell_quote '' '' = '' ''"
    "shell_quote [] = []"
    by (simp_all add: shell_quote_def quote_char_def shell_meta_def)
  have "'' -s '' @ shell_quote (cstring (serverstr st)) @ '' '' = shell_quote ('' -s '' @ cstring (serverstr st) @ '' '')"
    by (simp only: shell_quote_append p)
  then obtain s where s: "server = shell_quote s"
    using shape(2) p(4) [symmetric] trans [of server] by (elim disjE) blast+
  obtain r where r: "ret = shell_quote r" using shape(3) p(4) [symmetric] trans [of ret] by (elim disjE) blast+
  have "cmd = shell_quote (''/usr/local/bin/ph -m '' @ s @ cstring (typestr st) @ r)"
    by (simp only: shape(1) s r shell_quote_append p(1))
  then show ?thesis by blast
qed

lemma strcat_ok:
  assumes "terminated dst" and "strlen dst + length s < length dst" and "NUL \<notin> set s"
  shows "\<exists>dst'. strcat dst s = Some dst' \<and> length dst' = length dst \<and> cstring dst' = cstring dst @ s \<and> terminated dst'"
proof -
  obtain dst' where "strcat dst s = Some dst'" "length dst' = length dst"
    using assms(1,2) by (simp add: strcat_def terminated_def strlen_def)
  then show ?thesis using strcat_string [OF _ assms(3)] by blast
qed

lemma append_all_ok:
  "terminated dst \<Longrightarrow> strlen dst + length (concat ss) < length dst \<Longrightarrow> NUL \<notin> set (concat ss) \<Longrightarrow>
     \<exists>dst'. append_all dst ss = Some dst' \<and> length dst' = length dst \<and> cstring dst' = cstring dst @ concat ss \<and>
       terminated dst'"
proof (induction ss arbitrary: dst)
  case (Cons s ss)
  then obtain a where a: "strcat dst s = Some a" "length a = length dst" "cstring a = cstring dst @ s" "terminated a"
    using strcat_ok [of dst s] by auto
  then show ?case using Cons.prems Cons.IH [of a] by (auto simp: append_all_def strlen_def)
qed (simp add: append_all_def)

lemma escape_ok:
  assumes "terminated a" and "2 * strlen a < length a"
  shows "\<exists>a'. escape_shell_cmd a = Some a' \<and> cstring a' = shell_quote (cstring a)"
proof -
  obtain r where r: "a = cstring a @ NUL # r" using terminated_split assms(1) by (auto simp: terminated_def)
  then have "length a = strlen a + 1 + length r" by (metis length_append length_Cons strlen_def add.assoc plus_1_eq_Suc)
  moreover have "length (shell_quote s) \<le> 2 * length s" for s
    by (induction s) (auto simp: shell_quote_def quote_char_def)
  from this [of "cstring a"] have "length (shell_quote (cstring a)) \<le> length (cstring a) + length r"
    using calculation assms(2) by (simp add: strlen_def)
  then have "escape_shell_cmd a \<noteq> None"
    using escape_loop_spec [OF cstring_no_NUL, of "[]" a r] r by (simp add: escape_shell_cmd_def strlen_def)
  then show ?thesis using escape_string [OF assms(1)] by auto
qed

text \<open>A run with one field.\<close>

lemma phf_one_field:
  assumes "strings_of e = (''Qname'', v)" and "NUL \<notin> set v" and "length v < 128" and "terminated server0"
    and "cstring server0 = []" and "v \<noteq> []"
  shows "\<exists>st buf. phf_scan env [e] (phf_start server0) = Some (Inr st) \<and> atleastonequery st \<and>
    phf_build commandstr0 st = Some buf \<and>
    cstring buf = ''/usr/local/bin/ph -m '' @ shell_quote ('' name='' @ v @ '' '')"
proof -
  have len: "strlen (typestr (phf_start server0)) = 1" "length (typestr (phf_start server0)) = 4098"
    "cstring (typestr (phf_start server0)) = '' ''"
    by (simp_all add: phf_start_def strlen_def cstring_def takeWhile_replicate del: replicate_Suc)
  obtain ty where ty: "append_all (typestr (phf_start server0)) [''name'', ''='', v, '' ''] = Some ty"
    "length ty = 4098" "cstring ty = '' name='' @ v @ '' ''" "terminated ty"
    using append_all_ok [OF phf_start_terminated(1), of server0 "[''name'', ''='', v, '' '']"] len assms(2,3) by auto
  let ?st = "(phf_start server0)\<lparr>typestr := ty, atleastonequery := True\<rparr>"
  have "cstring (fst e) = ''Qname''" "cstring (snd e) = v" using assms(1) by (simp_all add: strings_of_def)
  then have scan: "phf_scan env [e] (phf_start server0) = Some (Inr ?st)"
    using assms(6) ty(1) by (simp add: phf_entry_def)
  obtain ty' where ty': "escape_shell_cmd ty = Some ty'" "cstring ty' = shell_quote ('' name='' @ v @ '' '')"
    using escape_ok [OF ty(4)] ty(2,3) assms(3) by (auto simp: strlen_def)
  have q: "length (shell_quote s) \<le> 2 * length s" for s
    by (induction s) (auto simp: shell_quote_def quote_char_def)
  obtain c1 where c1: "strcpy commandstr0 ''/usr/local/bin/ph -m '' = Some c1" "length c1 = 8192"
    by (simp add: strcpy_def commandstr0_def del: replicate_Suc)
  then have s1: "cstring c1 = ''/usr/local/bin/ph -m ''" "terminated c1" using strcpy_string by simp_all
  have "strlen c1 + length (cstring ty') < length c1"
    using c1(2) q [of "'' name='' @ v @ '' ''"] assms(3) s1(1) ty'(2) by (simp add: strlen_def)
  then obtain buf where buf: "strcat c1 (cstring ty') = Some buf" "cstring buf = cstring c1 @ cstring ty'"
    using strcat_ok [OF s1(2) _ cstring_no_NUL] by blast
  have st: "serverstr ?st = server0" "atleastonereturn ?st = False" "typestr ?st = ty"
    by (simp_all add: phf_start_def)
  have "phf_build commandstr0 ?st = Some buf"
    unfolding phf_build_def c1(1) st using ty'(1) buf(1) assms(4,5) by (simp add: terminated_def strlen_def)
  moreover have "atleastonequery ?st" by simp
  ultimately show ?thesis using scan buf(2) [unfolded s1(1) ty'(2)] by blast
qed

definition phf_env :: "bytes \<Rightarrow> c_env" where
  "phf_env q = [''QUERY_STRING'' \<mapsto> q]"

lemma phf_entries_one:
  assumes "plain_pair p" and "length (encode_pair p) < 128"
  shows "\<exists>e. phf_entries blank_mem [] (encode_pair p @ [NUL]) = Some [e] \<and> strings_of e = p"
proof -
  obtain e r' where e: "query_entry (blank_mem 0) (encode_pair p @ [NUL]) = Some (e, NUL # r')" "strings_of e = p"
    using query_entry_spec [OF assms(1) encode_pair_chars(1) takeWhile_none [OF encode_pair_chars(2)] assms(2),
        of "blank_mem 0" "[]"] by (auto simp: blank_mem_def)
  obtain c cs where c: "encode_pair p = c # cs" "c \<noteq> NUL"
    using encode_pair_chars(1,4) [of p] by (cases "encode_pair p") auto
  have "phf_entries blank_mem [e] (NUL # r') = Some [e]" by (subst phf_entries.simps) (simp add: rd_def)
  moreover have "rd (encode_pair p @ [NUL]) 0 = Some c" using c by (simp add: rd_def)
  ultimately have "phf_entries blank_mem [] (encode_pair p @ [NUL]) = Some [e]"
    using e(1) c(2) by (subst phf_entries.simps) simp
  then show ?thesis using e(2) by blast
qed

lemma phf_one_command:
  assumes "NUL \<notin> set v" and "v \<noteq> []" and "length (encode_pair (''Qname'', v)) < 128"
  shows "\<exists>result. phf_main blank_mem [NUL] (phf_env (encode_pair (''Qname'', v))) run_ph = Some result \<and>
    phf_command result = Some (shell_quote (''/usr/local/bin/ph -m  name='' @ v @ '' ''))"
proof -
  let ?p = "(''Qname'', v)"
  have "length v \<le> length (percent_encode v)" for v
    by (induction v) (auto simp: percent_encode_def)
  from this [of v] have p: "plain_pair ?p" "encode_pair ?p \<noteq> []" "length v < 128"
    using assms by (auto simp: plain_pair_def encode_pair_def)
  obtain e where e: "phf_entries blank_mem [] (encode_pair ?p @ [NUL]) = Some [e]" "strings_of e = ?p"
    using phf_entries_one [OF p(1) assms(3)] by blast
  have z: "terminated [NUL]" "cstring [NUL] = []" by (simp_all add: terminated_def cstring_def)
  obtain st buf where st: "phf_scan (phf_env (encode_pair ?p)) [e] (phf_start [NUL]) = Some (Inr st)" "atleastonequery st"
    "phf_build commandstr0 st = Some buf" "cstring buf = ''/usr/local/bin/ph -m '' @ shell_quote ('' name='' @ v @ '' '')"
    using phf_one_field [OF e(2) assms(1) p(3) z assms(2)] by blast
  obtain result where r: "phf_results run_ph st = Some result" "phf_command result = Some (cstring buf)"
    using st(2,3) by (simp add: phf_results_def)
  have m: "phf_main blank_mem [NUL] (phf_env (encode_pair ?p)) run_ph = Some result"
    unfolding phf_main_def using e(1) st(1) p(2) r(1) by (simp add: phf_env_def del: phf_scan.simps)
  have f: "shell_quote ''/usr/local/bin/ph -m '' = ''/usr/local/bin/ph -m ''"
    by (simp add: shell_quote_def quote_char_def shell_meta_def)
  have "''/usr/local/bin/ph -m  name='' @ v @ '' '' = ''/usr/local/bin/ph -m '' @ ('' name='' @ v @ '' '')" by simp
  then have "shell_quote (''/usr/local/bin/ph -m  name='' @ v @ '' '') = cstring buf"
    unfolding st(4) using shell_quote_append [of "''/usr/local/bin/ph -m ''" "'' name='' @ v @ '' ''"] f by (elim ssubst) (rule refl)
  from r(2) [folded this] show ?thesis using m by (intro exI [of _ result] conjI)
qed

subsection \<open>Properties\<close>

text \<open>
  C32. What a submitted form can make the shell do. Whatever the query string, the server array and the previous contents of
  memory, a command without a number sign is read by a shell as one line that runs the fixed program with nothing else active. A
  number sign breaks this: the quoting leaves it out, and behind the comment it begins a quoted newline is a newline. Every text
  that fits the field, of any shell words, is run as a command line of its own when it is sent behind such a pair in one
  field.
\<close>

theorem phf_command_quoted:
  assumes "NUL \<notin> set tail" and "LF \<notin> set tail" and "CHR ''#'' \<notin> set tail"
    and "length (encode_pair (''Qname'', ''x #'' @ LF # tail)) < 128"
  shows "(\<forall>mem server0 env result cmd.
      phf_main mem server0 env run_ph = Some result \<longrightarrow> phf_command result = Some cmd \<longrightarrow> CHR ''#'' \<notin> set cmd \<longrightarrow>
      (\<exists>args. shell_lines True cmd = Some [''/usr/local/bin/ph -m '' @ args])) \<and>
    (\<exists>result cmd. phf_main blank_mem [NUL] (phf_env (encode_pair (''Qname'', ''x #'' @ LF # tail))) run_ph = Some result \<and>
      phf_command result = Some cmd \<and>
      shell_lines True cmd = Some [''/usr/local/bin/ph -m  name=x '', tail @ '' ''])"
proof (intro conjI allI impI)
  fix mem server0 env result cmd
  assume "phf_main mem server0 env run_ph = Some result" "phf_command result = Some cmd" and hash: "CHR ''#'' \<notin> set cmd"
  then obtain s where s: "cmd = shell_quote (''/usr/local/bin/ph -m '' @ s)" using phf_command_text by blast
  then show "\<exists>args. shell_lines True cmd = Some [''/usr/local/bin/ph -m '' @ args]"
    using hash shell_lines_quoted [of "''/usr/local/bin/ph -m '' @ s" True] shell_quote_hash by simp
next
  let ?v = "''x #'' @ LF # tail"
  have "''/usr/local/bin/ph -m  name='' @ ?v @ '' '' = ''/usr/local/bin/ph -m  name=x '' @ CHR ''#'' # LF # (tail @ '' '')" by simp
  moreover have "filter ((\<noteq>) LF) tail = tail" using assms(2) by (auto simp: filter_id_conv)
  then have "shell_lines True (shell_quote (''/usr/local/bin/ph -m  name=x '' @ CHR ''#'' # LF # (tail @ '' ''))) =
      Some [''/usr/local/bin/ph -m  name=x '', tail @ '' '']"
    using shell_lines_comment [of "''/usr/local/bin/ph -m  name=x ''" True "tail @ '' ''"] assms(3) by simp
  moreover obtain result where "phf_main blank_mem [NUL] (phf_env (encode_pair (''Qname'', ?v))) run_ph = Some result"
    "phf_command result = Some (shell_quote (''/usr/local/bin/ph -m  name='' @ ?v @ '' ''))"
    using phf_one_command [of ?v run_ph] assms(1,4) by auto
  ultimately show "\<exists>result cmd. phf_main blank_mem [NUL] (phf_env (encode_pair (''Qname'', ?v))) run_ph = Some result \<and>
      phf_command result = Some cmd \<and> shell_lines True cmd = Some [''/usr/local/bin/ph -m  name=x '', tail @ '' '']"
    by metis
qed

theorem phf_command_quoted_witness:
  "(\<exists>result cmd args. phf_main blank_mem [NUL] (phf_env (encode_pair (''Qname'', ''x;rm''))) (\<lambda>c. []) = Some result \<and>
     phf_command result = Some cmd \<and> cmd = shell_quote ''/usr/local/bin/ph -m  name=x;rm '' \<and>
     shell_lines True cmd = Some [''/usr/local/bin/ph -m '' @ args]) \<and>
   (\<exists>result cmd. phf_main blank_mem [NUL] (phf_env (encode_pair (''Qname'', ''x #'' @ LF # ''id''))) (\<lambda>c. []) = Some result \<and>
     phf_command result = Some cmd \<and> shell_lines True cmd = Some [''/usr/local/bin/ph -m  name=x '', ''id ''])"
proof -
  have v: "NUL \<notin> set ''id''" "LF \<notin> set ''id''" "CHR ''#'' \<notin> set ''id''"
    "length (encode_pair (''Qname'', ''x #'' @ LF # ''id'')) < 128" "length (encode_pair (''Qname'', ''x;rm'')) < 128"
    by (simp_all add: encode_pair_def percent_encode_def)
  obtain result where r: "phf_main blank_mem [NUL] (phf_env (encode_pair (''Qname'', ''x;rm''))) (\<lambda>c. []) = Some result"
    "phf_command result = Some (shell_quote (''/usr/local/bin/ph -m  name='' @ ''x;rm'' @ '' ''))"
    using phf_one_command [OF _ _ v(5), of "\<lambda>c. []"] by auto
  have "CHR ''#'' \<notin> set (shell_quote (''/usr/local/bin/ph -m  name='' @ ''x;rm'' @ '' ''))"
    unfolding shell_quote_hash by simp
  then obtain args where "shell_lines True (shell_quote (''/usr/local/bin/ph -m  name='' @ ''x;rm'' @ '' '')) =
      Some [''/usr/local/bin/ph -m '' @ args]"
    using conjunct1 [OF phf_command_quoted [OF v(1-4), of "\<lambda>c. []"]] r by blast
  moreover have "''/usr/local/bin/ph -m  name='' @ ''x;rm'' @ '' '' = ''/usr/local/bin/ph -m  name=x;rm ''"
    "''id'' @ '' '' = ''id ''" by simp_all
  ultimately show ?thesis
    using conjunct2 [OF phf_command_quoted [OF v(1-4), of "\<lambda>c. []"]] r by (metis (no_types))
qed

end
