(* ===== verification/Cgi_Passwd.thy ===== *)
theory Cgi_Passwd
  imports Cgi_Query
begin

section \<open>The password form\<close>

text \<open>
  Models \<open>legacy/http-root-dir/cgi-src/change-passwd.c\<close>, which sets the password of a user in the password
  file. The random number, \<open>crypt\<close>, the password file and the answers of the system are a
  record. \<^const>\<open>None\<close> is undefined behaviour.
\<close>

record passwd_sys =
  ps_rand :: int
  ps_crypt :: "bytes \<Rightarrow> bytes \<Rightarrow> bytes"
  ps_tmp_opens :: bool
  ps_file :: "bytes option"
  ps_cp_ok :: bool

record passwd_form =
  pf_user :: "cbuf option"
  pf_p1 :: "cbuf option"
  pf_p2 :: "cbuf option"

record passwd_result =
  pr_out :: bytes
  pr_err :: bytes
  pr_exit :: int
  pr_file :: "bytes option"

definition WIZARD :: bytes where
  "WIZARD = ''webmaster''"

definition itoa64 :: bytes where
  "itoa64 = ''./0123456789ABCDEFGHIJKLMNOPQRSTUVWXYZabcdefghijklmnopqrstuvwxyz''"

fun to64 :: "int \<Rightarrow> nat \<Rightarrow> bytes" where
  "to64 v 0 = []"
| "to64 v (Suc n) = itoa64 ! nat (v mod 64) # to64 (v div 64) n"

text \<open>The line \<open>change_password\<close> writes.\<close>

definition change_password :: "passwd_sys \<Rightarrow> bytes \<Rightarrow> bytes \<Rightarrow> bytes" where
  "change_password sys user pw = user @ '':'' @ ps_crypt sys pw (to64 (ps_rand sys) 2) @ [LF]"

definition putline :: "cbuf \<Rightarrow> bytes option" where
  "putline l = (if NUL \<in> set l then Some (cstring l @ [LF]) else None)"

subsection \<open>The form\<close>

definition wrong_form :: bytes where
  "wrong_form = ''This script was accessed from the wrong form.'' @ [LF]"

text \<open>The next field of the form: the value \<open>t1\<close> and the name \<open>t2\<close>.\<close>

definition passwd_field :: "c_file \<Rightarrow> int \<Rightarrow> (cbuf \<times> cbuf \<times> c_file \<times> int) option" where
  "passwd_field f cl =
     (case fmakeword f (CHR ''&'') cl of
        None \<Rightarrow> None
      | Some (t1, f, cl) \<Rightarrow>
        (case makeword t1 (CHR ''='') of
           None \<Rightarrow> None
         | Some (t2, t1) \<Rightarrow>
           (case (unescape_url t1, unescape_url t2) of
              (Some t1, Some t2) \<Rightarrow> Some (t1, t2, f, cl)
            | _ \<Rightarrow> None)))"

definition passwd_store :: "cbuf \<Rightarrow> cbuf \<Rightarrow> passwd_form \<Rightarrow> bytes + passwd_form" where
  "passwd_store t1 t2 form =
     (if cstring t2 = ''user'' then
        if pf_user form = None then Inr (form\<lparr>pf_user := Some t1\<rparr>) else Inl wrong_form
      else if cstring t2 = ''newpasswd1'' then
        if pf_p1 form = None then Inr (form\<lparr>pf_p1 := Some t1\<rparr>) else Inl wrong_form
      else if cstring t2 = ''newpasswd2'' then
        if pf_p2 form = None then Inr (form\<lparr>pf_p2 := Some t1\<rparr>) else Inl wrong_form
      else Inl (wrong_form @ ''Unrecognized directive '' @ cstring t2 @ ''.'' @ [LF]))"

definition free_fields :: "passwd_form \<Rightarrow> nat" where
  "free_fields form = (if pf_user form = None then 1 else 0) + (if pf_p1 form = None then 1 else 0) +
     (if pf_p2 form = None then 1 else 0)"

lemma passwd_store_fills: "passwd_store t1 t2 form = Inr form' \<Longrightarrow> free_fields form' < free_fields form"
  by (auto simp: passwd_store_def free_fields_def split: if_splits)

function passwd_read :: "c_file \<Rightarrow> int \<Rightarrow> passwd_form \<Rightarrow> (bytes + passwd_form) option" where
  "passwd_read f cl form =
     (if cl \<noteq> 0 \<and> \<not> feof f then
        (case passwd_field f cl of
           None \<Rightarrow> None
         | Some (t1, t2, f, cl) \<Rightarrow>
           (case passwd_store t1 t2 form of Inl msg \<Rightarrow> Some (Inl msg) | Inr form \<Rightarrow> passwd_read f cl form))
      else Some (Inr form))"
  by pat_completeness auto
termination
  by (relation "measure (\<lambda>(f, cl, form). free_fields form)") (auto simp: passwd_store_fills)

declare passwd_read.simps [simp del]

subsection \<open>The password file\<close>

text \<open>One line of the loop over the password file: the text written and whether the user has been found.\<close>

definition passwd_line :: "passwd_sys \<Rightarrow> bytes \<Rightarrow> bytes \<Rightarrow> cbuf \<times> cbuf \<Rightarrow> bool \<Rightarrow> cbuf \<Rightarrow> (bytes \<times> bool \<times> cbuf \<times> cbuf) option" where
  "passwd_line sys user p1 = (\<lambda>(l, w) found line.
     (case rd line 0 of
        None \<Rightarrow> None
      | Some c \<Rightarrow>
        if found \<or> c = CHR ''#'' \<or> c = NUL then map_option (\<lambda>out. (out, found, l, w)) (putline line)
        else if NUL \<notin> set line then None
        else (case strcpy l (cstring line) of
            None \<Rightarrow> None
          | Some l \<Rightarrow>
            (case getword w l (CHR '':'') of
               None \<Rightarrow> None
             | Some (w, l) \<Rightarrow>
               if user \<noteq> cstring w then map_option (\<lambda>out. (out, found, l, w)) (putline line)
               else Some (change_password sys user p1, True, l, w)))))"

function passwd_copy ::
  "passwd_sys \<Rightarrow> bytes \<Rightarrow> bytes \<Rightarrow> cbuf \<Rightarrow> cbuf \<times> cbuf \<Rightarrow> bool \<Rightarrow> c_file \<Rightarrow> (bytes \<times> bool) option" where
  "passwd_copy sys user p1 line bufs found f =
     (case mygetline line 256 f of
        None \<Rightarrow> None
      | Some (line, e, f) \<Rightarrow>
        if e then Some ([], found)
        else (case passwd_line sys user p1 bufs found line of
            None \<Rightarrow> None
          | Some (out, found, bufs) \<Rightarrow>
            map_option (\<lambda>(rest, found). (out @ rest, found)) (passwd_copy sys user p1 line bufs found f)))"
  by pat_completeness auto
termination
  by (relation "measure (\<lambda>(sys, user, p1, line, bufs, found, f). length (fst f))")
    (auto simp: mygetline_def dest!: getline_loop_shrinks)

declare passwd_copy.simps [simp del]

subsection \<open>The program\<close>

definition failure :: "bytes \<Rightarrow> bytes \<Rightarrow> passwd_result" where
  "failure out err = \<lparr>pr_out = content_type @ out, pr_err = err, pr_exit = 1, pr_file = None\<rparr>"

definition user_mismatch :: bytes where
  "user_mismatch = ''<TITLE>User Mismatch</TITLE>'' @ ''<H1>User Mismatch</H1>'' @
     ''The username you gave does not correspond with the '' @ ''user you authenticated as.'' @ [LF]"

definition password_mismatch :: bytes where
  "password_mismatch = ''<TITLE>Password Mismatch</TITLE>'' @ ''<H1>Password Mismatch</H1>'' @
     ''The two copies of your password do not match. Please'' @ '' try again.''"

definition passwd_success :: "bool \<Rightarrow> bytes" where
  "passwd_success added =
     (if added then ''<TITLE>Successful Addition</TITLE>'' @ ''<H1>Successful Addition</H1>'' @
        ''Your new user/password combination has been successfully added.<P>''
      else ''<TITLE>Successful Change</TITLE>'' @ ''<H1>Successful Change</H1>'' @
        ''Your password has been successfully changed.<P>'')"

text \<open>
  From the check of the user on. A null pointer given to \<open>strcmp\<close> or printed is undefined.
\<close>

definition passwd_update :: "passwd_sys \<Rightarrow> cbuf \<Rightarrow> cbuf \<times> cbuf \<Rightarrow> bytes \<Rightarrow> passwd_form \<Rightarrow> passwd_result option" where
  "passwd_update sys line bufs u form =
     (if u \<noteq> WIZARD \<and> pf_user form = None then None
      else if u \<noteq> WIZARD \<and> cstring (the (pf_user form)) \<noteq> u then Some (failure user_mismatch [])
      else (case (pf_p1 form, pf_p2 form) of
          (Some p1, Some p2) \<Rightarrow>
            if cstring p1 \<noteq> cstring p2 then Some (failure password_mismatch [])
            else if \<not> ps_tmp_opens sys then Some (failure [] (''Could not open temp file.'' @ [LF]))
            else (case ps_file sys of
                None \<Rightarrow> Some (failure [] (''Could not open passwd file for reading.'' @ [LF]))
              | Some old \<Rightarrow>
                (case pf_user form of
                   None \<Rightarrow> None
                 | Some user \<Rightarrow>
                   (case passwd_copy sys (cstring user) (cstring p1) line bufs False (old, False) of
                      None \<Rightarrow> None
                    | Some (out, found) \<Rightarrow>
                      let tmp = (if found then out else out @ change_password sys (cstring user) (cstring p1))
                      in if \<not> ps_cp_ok sys then Some (failure [] (''Could not overwrite passwd file.'' @ [LF]))
                         else Some \<lparr>pr_out = content_type @ passwd_success (\<not> found), pr_err = [], pr_exit = 0,
                           pr_file = Some tmp\<rparr>)))
        | _ \<Rightarrow> None))"

definition passwd_main :: "passwd_sys \<Rightarrow> cbuf \<Rightarrow> cbuf \<times> cbuf \<Rightarrow> c_env \<Rightarrow> bytes \<Rightarrow> passwd_result option" where
  "passwd_main sys line bufs env input =
     (case env ''REQUEST_METHOD'' of
        None \<Rightarrow> None
      | Some m \<Rightarrow>
        if m \<noteq> ''POST''
        then Some (failure (''This script should be referenced with a METHOD of POST.'' @ forms_overview) [])
        else (case env ''CONTENT_TYPE'' of
            None \<Rightarrow> None
          | Some t \<Rightarrow>
            if t \<noteq> ''application/x-www-form-urlencoded''
            then Some (failure (''This script can only be used to decode form results. '' @ [LF]) [])
            else (case env ''CONTENT_LENGTH'' of
                None \<Rightarrow> None
              | Some n \<Rightarrow>
                (case atoi n of
                   None \<Rightarrow> None
                 | Some cl \<Rightarrow>
                   (case passwd_read (input, False) cl \<lparr>pf_user = None, pf_p1 = None, pf_p2 = None\<rparr> of
                      None \<Rightarrow> None
                    | Some (Inl msg) \<Rightarrow> Some (failure msg [])
                    | Some (Inr form) \<Rightarrow>
                      (case env ''REMOTE_USER'' of
                         None \<Rightarrow> None
                       | Some u \<Rightarrow> passwd_update sys line bufs u form))))))"

section \<open>Correctness of the password form\<close>

subsection \<open>The loop over the file\<close>

text \<open>What the program is to do to the lines of the password file.\<close>

definition entry_of :: "bytes \<Rightarrow> bytes \<Rightarrow> bool" where
  "entry_of user l \<longleftrightarrow> l \<noteq> [] \<and> hd l \<noteq> CHR ''#'' \<and> takeWhile ((\<noteq>) (CHR '':'')) l = user"

fun set_password :: "bytes \<Rightarrow> bytes \<Rightarrow> bytes list \<Rightarrow> bytes list" where
  "set_password user new [] = [new]"
| "set_password user new (l # ls) = (if entry_of user l then new # ls else l # set_password user new ls)"

definition lines_text :: "bytes list \<Rightarrow> bytes" where
  "lines_text ls = concat (map (\<lambda>l. l @ [LF]) ls)"

definition good_line :: "bytes \<Rightarrow> bool" where
  "good_line l \<longleftrightarrow> set l \<inter> {CR, LF, CHR 0x04, NUL} = {} \<and> length l < 256"

lemma passwd_line_spec:
  assumes "good_line l" and "length b = 256" and "length w = 256"
  shows "\<exists>b' w'. passwd_line sys user p1 (b, w) found (l @ NUL # r) =
      Some (if \<not> found \<and> entry_of user l then change_password sys user p1 else l @ [LF],
        found \<or> entry_of user l, b', w') \<and> length b' = 256 \<and> length w' = 256"
proof (cases "found \<or> l = [] \<or> hd l = CHR ''#''")
  case True
  have "rd (l @ NUL # r) 0 = Some (if l = [] then NUL else hd l)" by (cases l) (auto simp: rd_def)
  then show ?thesis
    using assms True by (auto simp: passwd_line_def putline_def entry_of_def good_line_def)
next
  case False
  then obtain c cs where c: "l = c # cs" "c \<noteq> CHR ''#''" "\<not> found" by (cases l) auto
  then have rd: "rd (l @ NUL # r) 0 = Some c" "c \<noteq> NUL" using assms(1) by (auto simp: rd_def good_line_def)
  let ?a = "takeWhile ((\<noteq>) (CHR '':'')) l"
  have n: "NUL \<notin> set l" "NUL \<notin> set ?a" using assms(1) by (auto simp: good_line_def dest: set_takeWhileD)
  have cp: "strcpy b l = Some (l @ NUL # drop (Suc (length l)) b)"
    using assms(1,2) by (simp add: strcpy_def good_line_def)
  have "length ?a < length w" using assms(1,3) length_takeWhile_le [of "(\<noteq>) (CHR '':'')" l] by (simp add: good_line_def)
  then obtain r' where g: "getword w (l @ NUL # drop (Suc (length l)) b) (CHR '':'') =
      Some (?a @ NUL # drop (Suc (length ?a)) w, drop (Suc (length ?a)) l @ NUL # r')"
    "length (drop (Suc (length ?a)) l @ NUL # r') = length (l @ NUL # drop (Suc (length l)) b)"
    using getword_spec [OF n(1), of "CHR '':''" w "drop (Suc (length l)) b"] by auto
  have "entry_of user l \<longleftrightarrow> ?a = user" using c by (simp add: entry_of_def)
  moreover have "length (l @ NUL # drop (Suc (length l)) b) = 256" "length (?a @ NUL # drop (Suc (length ?a)) w) = 256"
    using assms \<open>length ?a < length w\<close> by (simp_all add: good_line_def)
  ultimately show ?thesis
    using rd c(2,3) cp g n unfolding passwd_line_def by (auto simp: putline_def)
qed

lemma mygetline_line:
  assumes "good_line l" and "length line = 256"
  shows "\<exists>r. mygetline line 256 (l @ LF # rest, False) = Some (l @ NUL # r, False, (rest, False)) \<and> length (l @ NUL # r) = 256"
  by (rule mygetline_spec) (use assms in \<open>auto simp: good_line_def\<close>)

lemma passwd_copy_step:
  assumes "good_line l" and "length line = 256" and "length b = 256" and "length w = 256"
  obtains line' b' w' where "length line' = 256" and "length b' = 256" and "length w' = 256"
    and "passwd_copy sys user p1 line (b, w) found (lines_text (l # ls), False) =
      map_option (\<lambda>(rest, fnd). ((if \<not> found \<and> entry_of user l then change_password sys user p1 else l @ [LF]) @ rest, fnd))
        (passwd_copy sys user p1 line' (b', w') (found \<or> entry_of user l) (lines_text ls, False))"
proof -
  obtain r where r: "mygetline line 256 (l @ LF # lines_text ls, False) = Some (l @ NUL # r, False, (lines_text ls, False))"
    "length (l @ NUL # r) = 256" using mygetline_line [OF assms(1,2)] by blast
  obtain b' w' where b': "passwd_line sys user p1 (b, w) found (l @ NUL # r) =
      Some (if \<not> found \<and> entry_of user l then change_password sys user p1 else l @ [LF],
        found \<or> entry_of user l, b', w')" "length b' = 256" "length w' = 256"
    using passwd_line_spec [OF assms(1,3,4)] by blast
  have "lines_text (l # ls) = l @ LF # lines_text ls" by (simp add: lines_text_def)
  then have "passwd_copy sys user p1 line (b, w) found (lines_text (l # ls), False) =
      map_option (\<lambda>(rest, fnd). ((if \<not> found \<and> entry_of user l then change_password sys user p1 else l @ [LF]) @ rest, fnd))
        (passwd_copy sys user p1 (l @ NUL # r) (b', w') (found \<or> entry_of user l) (lines_text ls, False))"
    using r(1) b'(1) by (subst passwd_copy.simps) simp
  then show ?thesis by (rule that [OF r(2) b'(2,3)])
qed

lemma passwd_copy_end:
  "length line = 256 \<Longrightarrow> passwd_copy sys user p1 line bufs found ([], False) = Some ([], found)"
  using mygetline_end [of line 256 False] by (subst passwd_copy.simps) auto

lemma passwd_copy_found:
  assumes "list_all good_line ls" and "length line = 256" and "length b = 256" and "length w = 256"
  shows "passwd_copy sys user p1 line (b, w) True (lines_text ls, False) = Some (lines_text ls, True)"
  using assms
proof (induction ls arbitrary: line b w)
  case (Cons l ls)
  then have l: "good_line l" by simp
  obtain line' b' w' where "length line' = 256" "length b' = 256" "length w' = 256"
    "passwd_copy sys user p1 line (b, w) True (lines_text (l # ls), False) =
      map_option (\<lambda>(rest, fnd). (l @ LF # rest, fnd)) (passwd_copy sys user p1 line' (b', w') True (lines_text ls, False))"
    using passwd_copy_step [OF l Cons.prems(2-4), of sys user p1 True ls] by auto
  then show ?case using Cons.IH Cons.prems(1) by (simp add: lines_text_def)
qed (simp add: passwd_copy_end lines_text_def)

lemma passwd_copy_spec:
  assumes "list_all good_line ls" and "length line = 256" and "length b = 256" and "length w = 256"
    and "change_password sys user p1 = new @ [LF]"
  shows "\<exists>out. passwd_copy sys user p1 line (b, w) False (lines_text ls, False) = Some (out, list_ex (entry_of user) ls) \<and>
    (if list_ex (entry_of user) ls then out else out @ new @ [LF]) = lines_text (set_password user new ls)"
  using assms(1-4)
proof (induction ls arbitrary: line b w)
  case Nil
  then show ?case
    by (simp add: passwd_copy_end lines_text_def)
next
  case (Cons l ls)
  then have l: "good_line l" by simp
  obtain line' b' w' where step: "length line' = 256" "length b' = 256" "length w' = 256"
    "passwd_copy sys user p1 line (b, w) False (lines_text (l # ls), False) =
      map_option (\<lambda>(rest, fnd). ((if entry_of user l then new @ [LF] else l @ [LF]) @ rest, fnd))
        (passwd_copy sys user p1 line' (b', w') (entry_of user l) (lines_text ls, False))"
    using passwd_copy_step [OF l Cons.prems(2-4), of sys user p1 False ls, unfolded assms(5)] by auto
  show ?case
  proof (cases "entry_of user l")
    case True
    then show ?thesis using step passwd_copy_found [OF _ step(1-3)] Cons.prems(1) by (simp add: lines_text_def)
  next
    case False
    then show ?thesis using step Cons.IH [OF _ step(1-3)] Cons.prems(1) by (auto simp: lines_text_def split: if_splits)
  qed
qed

subsection \<open>The form\<close>

lemma passwd_field_spec:
  assumes "plain_pair p" and "length (encode_pair p) < 102400"
  shows "\<exists>t1 t2. passwd_field (encode_form (p # ps), False) (int (length (encode_form (p # ps)))) =
      Some (t1, t2, (encode_form ps, False), int (length (encode_form ps))) \<and> cstring t1 = snd p \<and> cstring t2 = fst p"
proof -
  have "CHR ''='' \<notin> set (percent_encode (fst p))" using percent_encode_safe by (auto simp: safe_char_def)
  then have "takeWhile ((\<noteq>) (CHR ''='')) (encode_pair p) = percent_encode (fst p)"
    by (simp add: encode_pair_def takeWhile_stop)
  then obtain v r' where mw: "makeword (encode_pair p @ [NUL]) (CHR ''='') =
      Some (percent_encode (fst p) @ NUL # v, percent_encode (snd p) @ NUL # r')"
    using makeword_spec [OF encode_pair_chars(1), of "CHR ''=''" p "[]"] by (auto simp: encode_pair_def)
  obtain v' r'' where "unescape_url (percent_encode (fst p) @ NUL # v) = Some (fst p @ NUL # v')"
    "unescape_url (percent_encode (snd p) @ NUL # r') = Some (snd p @ NUL # r'')"
    using unescape_encoded [of "fst p" v] unescape_encoded [of "snd p" r'] assms(1) by (auto simp: plain_pair_def)
  then show ?thesis
    using fmakeword_form [OF assms(2), of ps] mw assms(1) by (simp add: passwd_field_def plain_pair_def)
qed

lemma passwd_read_step:
  assumes "plain_pair p" and "length (encode_pair p) < 102400"
  obtains t1 t2 where "cstring t1 = snd p" and "cstring t2 = fst p"
    and "passwd_read (encode_form (p # ps), False) (int (length (encode_form (p # ps)))) form =
      (case passwd_store t1 t2 form of Inl msg \<Rightarrow> Some (Inl msg)
       | Inr form \<Rightarrow> passwd_read (encode_form ps, False) (int (length (encode_form ps))) form)"
proof -
  obtain t1 t2 where t: "passwd_field (encode_form (p # ps), False) (int (length (encode_form (p # ps)))) =
      Some (t1, t2, (encode_form ps, False), int (length (encode_form ps)))" "cstring t1 = snd p" "cstring t2 = fst p"
    using passwd_field_spec [OF assms] by blast
  have "int (length (encode_form (p # ps))) \<noteq> 0" using encode_form_head(3) by simp
  then show ?thesis using t by (intro that [OF t(2,3)], subst passwd_read.simps) (simp add: feof_def)
qed

definition passwd_pairs :: "bytes \<Rightarrow> bytes \<Rightarrow> bytes \<Rightarrow> (bytes \<times> bytes) list" where
  "passwd_pairs user p1 p2 = [(''user'', user), (''newpasswd1'', p1), (''newpasswd2'', p2)]"

lemma passwd_read_spec:
  assumes "list_all plain_pair (passwd_pairs user p1 p2)"
    and "list_all (\<lambda>p. length (encode_pair p) < 102400) (passwd_pairs user p1 p2)"
  shows "\<exists>u q1 q2. passwd_read (encode_form (passwd_pairs user p1 p2), False)
      (int (length (encode_form (passwd_pairs user p1 p2)))) \<lparr>pf_user = None, pf_p1 = None, pf_p2 = None\<rparr> =
      Some (Inr \<lparr>pf_user = Some u, pf_p1 = Some q1, pf_p2 = Some q2\<rparr>) \<and>
    cstring u = user \<and> cstring q1 = p1 \<and> cstring q2 = p2"
proof -
  let ?f0 = "\<lparr>pf_user = None, pf_p1 = None, pf_p2 = None\<rparr>"
  note fits = assms [unfolded passwd_pairs_def list.pred_inject]
  obtain u n0 where 0: "cstring u = user" "cstring n0 = ''user''"
    "passwd_read (encode_form (passwd_pairs user p1 p2), False)
      (int (length (encode_form (passwd_pairs user p1 p2)))) ?f0 =
      (case passwd_store u n0 ?f0 of Inl msg \<Rightarrow> Some (Inl msg)
       | Inr form \<Rightarrow> passwd_read (encode_form [(''newpasswd1'', p1), (''newpasswd2'', p2)], False)
           (int (length (encode_form [(''newpasswd1'', p1), (''newpasswd2'', p2)]))) form)"
    using passwd_read_step [of "(''user'', user)" "[(''newpasswd1'', p1), (''newpasswd2'', p2)]" ?f0] fits
    unfolding passwd_pairs_def by (metis fst_conv snd_conv)
  let ?f1 = "?f0\<lparr>pf_user := Some u\<rparr>"
  obtain q1 n1 where 1: "cstring q1 = p1" "cstring n1 = ''newpasswd1''"
    "passwd_read (encode_form [(''newpasswd1'', p1), (''newpasswd2'', p2)], False)
      (int (length (encode_form [(''newpasswd1'', p1), (''newpasswd2'', p2)]))) ?f1 =
      (case passwd_store q1 n1 ?f1 of Inl msg \<Rightarrow> Some (Inl msg)
       | Inr form \<Rightarrow> passwd_read (encode_form [(''newpasswd2'', p2)], False)
           (int (length (encode_form [(''newpasswd2'', p2)]))) form)"
    using passwd_read_step [of "(''newpasswd1'', p1)" "[(''newpasswd2'', p2)]" ?f1] fits by (metis fst_conv snd_conv)
  let ?f2 = "?f1\<lparr>pf_p1 := Some q1\<rparr>"
  obtain q2 n2 where 2: "cstring q2 = p2" "cstring n2 = ''newpasswd2''"
    "passwd_read (encode_form [(''newpasswd2'', p2)], False) (int (length (encode_form [(''newpasswd2'', p2)]))) ?f2 =
      (case passwd_store q2 n2 ?f2 of Inl msg \<Rightarrow> Some (Inl msg)
       | Inr form \<Rightarrow> passwd_read (encode_form [], False) (int (length (encode_form []))) form)"
    using passwd_read_step [of "(''newpasswd2'', p2)" "[]" ?f2] fits by (metis fst_conv snd_conv)
  have "passwd_store u n0 ?f0 = Inr ?f1" "passwd_store q1 n1 ?f1 = Inr ?f2"
    "passwd_store q2 n2 ?f2 = Inr (?f2\<lparr>pf_p2 := Some q2\<rparr>)"
    using 0 1 2 by (simp_all add: passwd_store_def)
  moreover have "passwd_read (encode_form [], False) (int (length (encode_form []))) form = Some (Inr form)" for form
    by (subst passwd_read.simps) simp
  ultimately show ?thesis unfolding 0(3) using 0(1) 1(1,3) 2(1,3) by simp
qed

subsection \<open>Properties\<close>

text \<open>
  C31. The password form changes exactly what the user may change. On a password file of complete lines of at most 255
  characters, for an encoded form with a user and two passwords: someone who is neither the webmaster nor
  that user, or whose passwords differ, changes nothing. Otherwise the new file is the old one with the first
  entry of the user replaced, every other line and comment kept in its place, and a new entry at the end when the user has none.
\<close>

theorem passwd_change:
  assumes "list_all plain_pair (passwd_pairs user p1 p2)"
    and "list_all (\<lambda>p. length (encode_pair p) < 102400) (passwd_pairs user p1 p2)"
    and "length (encode_form (passwd_pairs user p1 p2)) < 2 ^ 31"
    and "list_all good_line ls" and "length line = 256" and "length b = 256" and "length w = 256"
    and "ps_tmp_opens sys" and "ps_cp_ok sys" and "ps_file sys = Some (lines_text ls)"
    and "env ''REQUEST_METHOD'' = Some ''POST''" and "env ''REMOTE_USER'' = Some u"
    and "env ''CONTENT_TYPE'' = Some ''application/x-www-form-urlencoded''"
    and "env ''CONTENT_LENGTH'' = Some (show_nat (length (encode_form (passwd_pairs user p1 p2))))"
  shows "passwd_main sys line (b, w) env (encode_form (passwd_pairs user p1 p2)) = Some
    (if u \<noteq> WIZARD \<and> user \<noteq> u then failure user_mismatch []
     else if p1 \<noteq> p2 then failure password_mismatch []
     else \<lparr>pr_out = content_type @ passwd_success (\<not> list_ex (entry_of user) ls), pr_err = [], pr_exit = 0,
       pr_file = Some (lines_text (set_password user (user @ '':'' @ ps_crypt sys p1 (to64 (ps_rand sys) 2)) ls))\<rparr>)"
proof -
  obtain v q1 q2 where read: "passwd_read (encode_form (passwd_pairs user p1 p2), False)
      (int (length (encode_form (passwd_pairs user p1 p2)))) \<lparr>pf_user = None, pf_p1 = None, pf_p2 = None\<rparr> =
      Some (Inr \<lparr>pf_user = Some v, pf_p1 = Some q1, pf_p2 = Some q2\<rparr>)"
    "cstring v = user" "cstring q1 = p1" "cstring q2 = p2" using passwd_read_spec [OF assms(1,2)] by blast
  define new where "new = user @ '':'' @ ps_crypt sys p1 (to64 (ps_rand sys) 2)"
  have pw: "change_password sys user p1 = new @ [LF]" by (simp add: change_password_def new_def)
  let ?fnd = "list_ex (entry_of user) ls"
  obtain out where copy: "passwd_copy sys user p1 line (b, w) False (lines_text ls, False) = Some (out, ?fnd)"
    "(if ?fnd then out else out @ new @ [LF]) = lines_text (set_password user new ls)"
    using passwd_copy_spec [OF assms(4-7) pw] by blast
  have "passwd_main sys line (b, w) env (encode_form (passwd_pairs user p1 p2)) =
      passwd_update sys line (b, w) u \<lparr>pf_user = Some v, pf_p1 = Some q1, pf_p2 = Some q2\<rparr>"
    using assms(11-14) read(1) atoi_show [OF assms(3)] by (simp add: passwd_main_def)
  also have "\<dots> = Some (if u \<noteq> WIZARD \<and> user \<noteq> u then failure user_mismatch []
     else if p1 \<noteq> p2 then failure password_mismatch []
     else \<lparr>pr_out = content_type @ passwd_success (\<not> list_ex (entry_of user) ls), pr_err = [], pr_exit = 0,
       pr_file = Some (lines_text (set_password user new ls))\<rparr>)"
    using assms(8-10) read(2-4) copy pw by (auto simp: passwd_update_def Let_def)
  finally show ?thesis unfolding new_def .
qed

definition sample_sys :: passwd_sys where
  "sample_sys = \<lparr>ps_rand = 130, ps_crypt = (\<lambda>pw salt. salt @ rev pw), ps_tmp_opens = True,
     ps_file = Some (lines_text [''# users'', ''bob:x'', ''eve:y'']), ps_cp_ok = True\<rparr>"

definition sample_passwd_env :: c_env where
  "sample_passwd_env = [''REQUEST_METHOD'' \<mapsto> ''POST'', ''REMOTE_USER'' \<mapsto> ''bob'',
     ''CONTENT_TYPE'' \<mapsto> ''application/x-www-form-urlencoded'',
     ''CONTENT_LENGTH'' \<mapsto> show_nat (length (encode_form (passwd_pairs ''bob'' ''pw'' ''pw'')))]"

theorem passwd_change_witness:
  "\<exists>out. passwd_main sample_sys (replicate 256 NUL) (replicate 256 NUL, replicate 256 NUL) sample_passwd_env
      (encode_form (passwd_pairs ''bob'' ''pw'' ''pw'')) =
    Some \<lparr>pr_out = out, pr_err = [], pr_exit = 0, pr_file = Some (lines_text [''# users'', ''bob:00wp'', ''eve:y''])\<rparr>"
proof -
  have pairs: "list_all plain_pair (passwd_pairs ''bob'' ''pw'' ''pw'')" by (simp add: passwd_pairs_def plain_pair_def)
  have fits: "list_all (\<lambda>p. length (encode_pair p) < 102400) (passwd_pairs ''bob'' ''pw'' ''pw'')"
    "length (encode_form (passwd_pairs ''bob'' ''pw'' ''pw'')) < 2 ^ 31"
    by (simp_all add: passwd_pairs_def encode_pair_def percent_encode_def unreserved_def isalnum_def)
  have good: "list_all good_line [''# users'', ''bob:x'', ''eve:y'']" by (simp add: good_line_def)
  have sys: "ps_tmp_opens sample_sys" "ps_cp_ok sample_sys"
    "ps_file sample_sys = Some (lines_text [''# users'', ''bob:x'', ''eve:y''])" by (simp_all add: sample_sys_def)
  have env: "sample_passwd_env ''REQUEST_METHOD'' = Some ''POST''" "sample_passwd_env ''REMOTE_USER'' = Some ''bob''"
    "sample_passwd_env ''CONTENT_TYPE'' = Some ''application/x-www-form-urlencoded''"
    "sample_passwd_env ''CONTENT_LENGTH'' = Some (show_nat (length (encode_form (passwd_pairs ''bob'' ''pw'' ''pw''))))"
    by (simp_all add: sample_passwd_env_def)
  have new: "set_password ''bob'' (''bob'' @ '':'' @ ps_crypt sample_sys ''pw'' (to64 (ps_rand sample_sys) 2))
      [''# users'', ''bob:x'', ''eve:y''] = [''# users'', ''bob:00wp'', ''eve:y'']"
    by (simp add: sample_sys_def entry_of_def itoa64_def numeral_2_eq_2)
  show ?thesis
    using passwd_change [OF pairs fits good length_replicate length_replicate length_replicate sys env, of NUL NUL NUL]
    unfolding new by (simp only: simp_thms if_False) blast
qed

end
