(* ===== verification/Cgi_Order.thy ===== *)
theory Cgi_Order
  imports Cgi_Query
begin

section \<open>The order form\<close>

text \<open>
  Models \<open>legacy/http-root-dir/cgi-src/jj.c\<close>, which mails an order made with a form, or shows it when the password is
  wrong. The result is the page, the mail if one is sent, and the status given to \<open>exit\<close>; \<^const>\<open>None\<close>
  is undefined behaviour. The initial contents of the arrays and whether the temporary file and the pipe can be
  opened are parameters.
\<close>

definition JJ_FAX :: bytes where
  "JJ_FAX = ''JIMMY_JOHNS_5555680@fax.uiuc.edu''"

definition PASSWORD :: bytes where
  "PASSWORD = ''HTTPdRocKs''"

definition sublist_names :: "bytes list" where
  "sublist_names =
     [''The Pepe Gourmet Sub'', ''Big John Gourmet Sub'', ''Sorry Charlie Gourmet Sub'',
      ''Turkey Tom Gourmet Sub'', ''Vito Gourmet Sub'', ''Vegetarian Gourmet Sub'',
      ''Gourmet Smoked Ham Club'', ''Billy Club'', ''Italian Night Club'', ''Hunter'' @ [CHR 0x27] @ ''s Club'', ''Country Club'', ''The Beach Club'']"

definition slimlist :: "bytes list" where
  "slimlist = [''Ham and Cheese'', ''Rare Roast Beef'', ''California Tuna'', ''Sliced Turkey'', ''Salami and Capacola'', ''Double Provolone'']"

definition sidelist :: "bytes list" where
  "sidelist = [''Lay'' @ [CHR 0x27] @ ''s Potato Chips'', ''Jumbo Kosher Dill'']"

definition poplist :: "bytes list" where
  "poplist = [''Pepsi'', ''Mountain Dew'', ''Diet Pepsi'', ''Iced Tea'']"

definition text_of :: "bytes list \<Rightarrow> bytes" where
  "text_of ls = concat (map (\<lambda>l. l @ [LF]) ls)"

definition dump_form :: bytes where
  "dump_form = text_of
     [''<TITLE>Form for Submarine Order</TITLE>'',
      (''<H1>Jimmy John'' @ [CHR 0x27] @ ''s Submarine Order Form</H1>''),
      (''This form will send a faxed order to Jimmy John'' @ [CHR 0x27] @ ''s in Champaign. Proper password is requred''),
      ''for order to be submitted, otherwise a copy of the order that would have been submitted will'',
      ''will be displayed.<P>'',
      ''<HR>'',
      ''<FORM ACTION=\"jj\">'',
      ''Password: <INPUT TYPE=\"text\" NAME=\"pwd\" MAXLENGTH=\"20\"><P>'',
      ''<H3>Sub Type</H3>'',
      ''Select which you would like of the following:<P>'',
      (''<INPUT TYPE=\"checkbox\" NAME=\"sub\" VALUE=\"0\">'' @ sublist_names ! 0 @ '':''),
      ''Smoked virginia ham and provolone cheese topped with lettuce, tomato, and mayo.<P>'',
      (''<INPUT TYPE=\"checkbox\" NAME=\"sub\" VALUE=\"1\">'' @ sublist_names ! 1 @ '':''),
      ''Medium rare shaved roast beef topped with mayo, lettuce, and tomato.<P>'',
      (''<INPUT TYPE=\"checkbox\" NAME=\"sub\" VALUE=\"2\">'' @ sublist_names ! 2 @ '':''),
      ''Tuna, mixed with celery, onions, and sauce, topped with lettuce,'',
      ''tomato, and alfalfa sprouts.<P>'',
      (''<INPUT TYPE=\"checkbox\" NAME=\"sub\" VALUE=\"3\">'' @ sublist_names ! 3 @ '':''),
      ''Turkey breast topped with lettuce, mayo, alfalfa sprouts, and mayo.<P>'',
      (''<INPUT TYPE=\"checkbox\" NAME=\"sub\" VALUE=\"4\">'' @ sublist_names ! 4 @ '':''),
      ''Genoa salami and provolone cheese topped with capacola, onion, lettuce, tomato, and Italian sauce.<P>'',
      (''<INPUT TYPE=\"checkbox\" NAME=\"sub\" VALUE=\"5\">'' @ sublist_names ! 5 @ '':''),
      ''Layers of provolone cheese, separated by avocado, sprouts, lettuce, tomato, and mayo.<P>'',
      (''<INPUT TYPE=\"checkbox\" NAME=\"sub\" VALUE=\"6\">'' @ sublist_names ! 6 @ '':''),
      ''1/4 pound of smoked ham, provolone cheese, topped with lettuce,'',
      ''tomato, and mayo.<P>'',
      (''<INPUT TYPE=\"checkbox\" NAME=\"sub\" VALUE=\"7\">'' @ sublist_names ! 7 @ '':''),
      ''Shaved roast beef, provolone cheese, french dijon mustard, topped with shaved ham, lettuce,'',
      ''tomato, and mayo.<P>'',
      (''<INPUT TYPE=\"checkbox\" NAME=\"sub\" VALUE=\"8\">'' @ sublist_names ! 8 @ '':''),
      ''Genoa salami, Italian capacola, smoked ham, and provolone cheese topped with lettuce,'',
      ''tomato, onions, mayo, and Italian sauce.<P>'',
      (''<INPUT TYPE=\"checkbox\" NAME=\"sub\" VALUE=\"9\">'' @ sublist_names ! 9 @ '':''),
      ''1/4 pound of sliced roast beef, provolone cheese, topped with lettuce, tomato, and mayo.<P>'',
      (''<INPUT TYPE=\"checkbox\" NAME=\"sub\" VALUE=\"10\">'' @ sublist_names ! 10 @ '':''),
      ''Turkey breast, smoked ham, and provolonecheese topped with lettuce, tomato, and mayo.<P>'',
      (''<INPUT TYPE=\"checkbox\" NAME=\"sub\" VALUE=\"11\">'' @ sublist_names ! 11 @ '':''),
      ''Turkey breast, avocado, and cheese topped with lettuce, mayo, alfalfa, and tomato.<P>'',
      ''<H3>Slim Jim Subs</H3>'',
      ''Subs without veggies or sauce.<P>'',
      (''<INPUT TYPE=\"checkbox\" NAME=\"slj\" VALUE=\"0\">'' @ slimlist ! 0 @ ''<P>''),
      (''<INPUT TYPE=\"checkbox\" NAME=\"slj\" VALUE=\"1\">'' @ slimlist ! 1 @ ''<P>''),
      (''<INPUT TYPE=\"checkbox\" NAME=\"slj\" VALUE=\"2\">'' @ slimlist ! 2 @ ''<P>''),
      (''<INPUT TYPE=\"checkbox\" NAME=\"slj\" VALUE=\"3\">'' @ slimlist ! 3 @ ''<P>''),
      (''<INPUT TYPE=\"checkbox\" NAME=\"slj\" VALUE=\"4\">'' @ slimlist ! 4 @ ''<P>''),
      (''<INPUT TYPE=\"checkbox\" NAME=\"slj\" VALUE=\"5\">'' @ slimlist ! 5 @ ''<P>''),
      ''<H3>Side orders</H3>'',
      (''<INPUT TYPE=\"checkbox\" NAME=\"sde\" VALUE=\"0\">'' @ sidelist ! 0 @ ''<P>''),
      (''<INPUT TYPE=\"checkbox\" NAME=\"sde\" VALUE=\"1\">'' @ sidelist ! 1 @ ''<P>''),
      ''<H3>Drinks</H3>'',
      (''<INPUT TYPE=\"checkbox\" NAME=\"pop\" VALUE=\"0\">'' @ poplist ! 0 @ ''<P>''),
      (''<INPUT TYPE=\"checkbox\" NAME=\"pop\" VALUE=\"1\">'' @ poplist ! 1 @ ''<P>''),
      (''<INPUT TYPE=\"checkbox\" NAME=\"pop\" VALUE=\"2\">'' @ poplist ! 2 @ ''<P>''),
      (''<INPUT TYPE=\"checkbox\" NAME=\"pop\" VALUE=\"3\">'' @ poplist ! 3 @ ''<P>''),
      ''<H3>Your Address, Phone Number, and Name</H3>'',
      ''<INPUT TYPE=\"text\" NAME=\"name\" MAXLENGTH=\"32\">Name<P>'',
      ''<INPUT TYPE=\"text\" NAME=\"adr\" MAXLENGTH=\"64\">Address<P>'',
      ''<INPUT TYPE=\"text\" NAME=\"phone\" MAXLENGTH=\"10\">Phone Number<P>'',
      ''<INPUT type=\"submit\">'',
      ''</FORM>'']"

definition print_error :: "bytes \<Rightarrow> bytes" where
  "print_error why = text_of
     [''<TITLE>Order Not Submitted</TITLE>'', ''<H1>Order Not Submitted</H1>'',
      ''Your order has not been submitted, because '' @ why @ ''.<P>'']"

subsection \<open>Reading the form\<close>

record jj_state =
  jj_w :: cbuf
  jj_cl :: cbuf
  jj_subs :: "32 word"
  jj_slims :: "32 word"
  jj_sides :: "32 word"
  jj_drinks :: "32 word"
  jj_allow :: bool
  jj_name :: cbuf
  jj_phone :: cbuf
  jj_address :: cbuf

text \<open>\<open>getword\<close>, \<open>plustospace\<close> and \<open>unescape_url\<close>, as the program calls them for every word.\<close>

definition jj_word :: "char \<Rightarrow> jj_state \<Rightarrow> jj_state option" where
  "jj_word stop st =
     (case getword (jj_w st) (jj_cl st) stop of
        None \<Rightarrow> None
      | Some (w, cl) \<Rightarrow>
        (case plustospace w of
           None \<Rightarrow> None
         | Some w \<Rightarrow> map_option (\<lambda>w. st\<lparr>jj_w := w, jj_cl := cl\<rparr>) (unescape_url w)))"

text \<open>\<open>1 << atoi(w)\<close>, undefined for a negative count and when the bit does not fit an \<open>int\<close>.\<close>

definition jj_bit :: "cbuf \<Rightarrow> 32 word option" where
  "jj_bit w =
     (case atoi (cstring w) of
        None \<Rightarrow> None
      | Some n \<Rightarrow> if 0 \<le> n \<and> n < 31 then Some (push_bit (nat n) 1) else None)"

definition jj_field :: "jj_state \<Rightarrow> jj_state option" where
  "jj_field st =
     (let key = cstring (jj_w st); value = jj_word (CHR ''&'') st
      in if key = ''sub'' then
           (case value of None \<Rightarrow> None
            | Some st \<Rightarrow> map_option (\<lambda>b. st\<lparr>jj_subs := or (jj_subs st) b\<rparr>) (jj_bit (jj_w st)))
         else if key = ''slj'' then
           (case value of None \<Rightarrow> None
            | Some st \<Rightarrow> map_option (\<lambda>b. st\<lparr>jj_slims := or (jj_slims st) b\<rparr>) (jj_bit (jj_w st)))
         else if key = ''sde'' then
           (case value of None \<Rightarrow> None
            | Some st \<Rightarrow> map_option (\<lambda>b. st\<lparr>jj_sides := or (jj_sides st) b\<rparr>) (jj_bit (jj_w st)))
         else if key = ''pop'' then
           (case value of None \<Rightarrow> None
            | Some st \<Rightarrow> map_option (\<lambda>b. st\<lparr>jj_drinks := or (jj_drinks st) b\<rparr>) (jj_bit (jj_w st)))
         else if key = ''name'' then
           (case value of None \<Rightarrow> None
            | Some st \<Rightarrow> map_option (\<lambda>a. st\<lparr>jj_name := a\<rparr>) (strcpy (jj_name st) (cstring (jj_w st))))
         else if key = ''phone'' then
           (case value of None \<Rightarrow> None
            | Some st \<Rightarrow> map_option (\<lambda>a. st\<lparr>jj_phone := a\<rparr>) (strcpy (jj_phone st) (cstring (jj_w st))))
         else if key = ''adr'' then
           (case value of None \<Rightarrow> None
            | Some st \<Rightarrow> map_option (\<lambda>a. st\<lparr>jj_address := a\<rparr>) (strcpy (jj_address st) (cstring (jj_w st))))
         else Some st)"

text \<open>
  One turn of the loop. The test for the password is not followed by \<open>else\<close>: its value is compared
  with the names of the other fields.
\<close>

definition jj_step :: "jj_state \<Rightarrow> jj_state option" where
  "jj_step st =
     (case jj_word (CHR ''='') st of
        None \<Rightarrow> None
      | Some st \<Rightarrow>
        (case (if cstring (jj_w st) = ''pwd''
               then map_option (\<lambda>st. st\<lparr>jj_allow := (cstring (jj_w st) = PASSWORD)\<rparr>) (jj_word (CHR ''&'') st)
               else Some st) of
           None \<Rightarrow> None
         | Some st \<Rightarrow> jj_field st))"

lemma shift_down_terminated: "shift_down line y x = Some line' \<Longrightarrow> y \<le> x \<Longrightarrow> NUL \<in> set line"
proof (induction line y x rule: shift_down.induct)
  case (1 line y x)
  obtain c line1 where c: "rd line x = Some c" "wr line y c = Some line1"
    using "1.prems"(1) by (subst (asm) shift_down.simps) (auto split: option.splits)
  show ?case
  proof (cases "c = NUL")
    case True
    then show ?thesis using c(1) by (auto simp: rd_def in_set_conv_nth split: if_splits)
  next
    case False
    then have "shift_down line1 (Suc y) (Suc x) = Some line'"
      using "1.prems"(1) c by (subst (asm) shift_down.simps) simp
    then have "NUL \<in> set line1" using "1.IH" [OF c False] "1.prems"(2) by simp
    moreover have "set line1 \<subseteq> insert c (set line)"
      using c(2) by (auto simp: wr_def split: if_splits dest: set_update_subset_insert [THEN subsetD])
    ultimately show ?thesis using False by auto
  qed
qed

lemma getword_shrinks:
  assumes "getword word line stop = Some (word', line')" and "stop \<noteq> NUL"
  shows "strlen line' \<le> strlen line \<and> (rd line 0 \<noteq> Some NUL \<longrightarrow> strlen line' < strlen line)"
proof -
  obtain x c where "rd line x = Some c" "shift_down line 0 (if c \<noteq> NUL then Suc x else x) = Some line'"
    using assms(1) by (auto simp: getword_def split: option.splits prod.splits)
  then have "NUL \<in> set line" using shift_down_terminated by blast
  then obtain r where r: "line = cstring line @ NUL # r" "NUL \<notin> set (cstring line)" using terminated_split by blast
  let ?a = "takeWhile ((\<noteq>) stop) (cstring line)"
  obtain r' where "line' = drop (Suc (length ?a)) (cstring line) @ NUL # r'"
    using getword_spec [OF r(2) assms(2), of word r] assms(1) r(1) by (auto split: if_splits)
  moreover have "NUL \<notin> set (drop (Suc (length ?a)) (cstring line))" using r(2) by (meson in_set_dropD)
  ultimately have "strlen line' = strlen line - Suc (length ?a)" by (simp add: strlen_def)
  moreover have "rd line 0 = Some NUL" if "cstring line = []" using r(1) that by (simp add: rd_def)
  ultimately show ?thesis by (cases "cstring line") (auto simp: strlen_def)
qed

lemma jj_word_shrinks:
  assumes "jj_word stop st = Some st'" and "stop \<noteq> NUL"
  shows "strlen (jj_cl st') \<le> strlen (jj_cl st) \<and> (rd (jj_cl st) 0 \<noteq> Some NUL \<longrightarrow> strlen (jj_cl st') < strlen (jj_cl st))"
  using assms by (auto simp: jj_word_def split: option.splits dest!: getword_shrinks)

lemma jj_field_shrinks: "jj_field st = Some st' \<Longrightarrow> strlen (jj_cl st') \<le> strlen (jj_cl st)"
  by (auto simp: jj_field_def Let_def split: if_splits option.splits dest: jj_word_shrinks)

lemma jj_step_shrinks:
  assumes "jj_step st = Some st'" and "rd (jj_cl st) 0 \<noteq> Some NUL"
  shows "strlen (jj_cl st') < strlen (jj_cl st)"
proof -
  obtain st1 where 1: "jj_word (CHR ''='') st = Some st1" using assms(1) by (auto simp: jj_step_def split: option.splits)
  obtain st2 where 2: "jj_field st2 = Some st'" "strlen (jj_cl st2) \<le> strlen (jj_cl st1)"
  proof (cases "cstring (jj_w st1) = ''pwd''")
    case True
    then obtain z where z: "jj_word (CHR ''&'') st1 = Some z" "jj_field (z\<lparr>jj_allow := (cstring (jj_w z) = PASSWORD)\<rparr>) = Some st'"
      using assms(1) 1 by (auto simp: jj_step_def split: option.splits)
    then show ?thesis using that [OF z(2)] jj_word_shrinks [OF z(1)] by simp
  next
    case False
    then show ?thesis using that [of st1] assms(1) 1 by (simp add: jj_step_def)
  qed
  show ?thesis using jj_word_shrinks [OF 1] jj_field_shrinks [OF 2(1)] 2(2) assms(2) by simp
qed

function jj_loop :: "jj_state \<Rightarrow> jj_state option" where
  "jj_loop st =
     (case rd (jj_cl st) 0 of
        None \<Rightarrow> None
      | Some c \<Rightarrow>
        if c = NUL then Some st
        else (case jj_step st of None \<Rightarrow> None | Some st \<Rightarrow> jj_loop st))"
  by pat_completeness auto
termination
  by (relation "measure (\<lambda>st. strlen (jj_cl st))") (auto intro!: jj_step_shrinks)

declare jj_loop.simps [simp del]

subsection \<open>The order\<close>

record jj_result =
  jr_page :: bytes
  jr_mail :: "(bytes \<times> bytes) option"
  jr_exit :: int

definition jj_items :: "bytes \<Rightarrow> bytes list \<Rightarrow> 32 word \<Rightarrow> bytes" where
  "jj_items kind names chosen =
     concat (map (\<lambda>x. if and chosen (push_bit x 1) \<noteq> 0 then HTAB # ''(1) '' @ names ! x @ kind @ [LF] else [])
       [0..<length names])"

definition jj_order :: "jj_state \<Rightarrow> bytes" where
  "jj_order st =
     ''My name is '' @ cstring (jj_name st) @ '', and I would like to have the following'' @ [LF] @
     ''order delivered to '' @ cstring (jj_address st) @ '':'' @ [LF, LF] @
     jj_items [] sublist_names (jj_subs st) @ jj_items '' Slim Jim'' slimlist (jj_slims st) @
     jj_items [] sidelist (jj_sides st) @ jj_items [] poplist (jj_drinks st) @
     [LF] @ ''Please feel free to call me at '' @ cstring (jj_phone st) @ '' if there is any'' @ [LF] @
     ''problem. Thank you.'' @ [LF, LF] @ ''.'' @ [LF]"

definition jj_failed :: "bytes \<Rightarrow> jj_result" where
  "jj_failed why = \<lparr>jr_page = content_type @ print_error why, jr_mail = None, jr_exit = 1\<rparr>"

definition jj_finish :: "bool \<Rightarrow> jj_state \<Rightarrow> jj_result" where
  "jj_finish popen_ok st =
     (if cstring (jj_name st) = [] then jj_failed (''you didn'' @ [CHR 0x27] @ ''t give your name'')
      else if cstring (jj_address st) = [] then jj_failed (''you didn'' @ [CHR 0x27] @ ''t give your address'')
      else if cstring (jj_phone st) = [] then jj_failed (''you didn'' @ [CHR 0x27] @ ''t give your phone number'')
      else if jj_subs st = 0 \<and> jj_slims st = 0 \<and> jj_sides st = 0 \<and> jj_drinks st = 0
      then jj_failed (''you didn'' @ [CHR 0x27] @ ''t order anything'')
      else if jj_allow st then
        if \<not> popen_ok then jj_failed ''the server was unable to open a pipe to mail''
        else \<lparr>jr_page = content_type @ text_of [''<TITLE>Order Sent</TITLE>'', ''<H1>Order Sent</H1>'',
            ''Your order has been sent to the UIUC e-mail to FAX gateway.<P>''],
          jr_mail = Some (''/bin/mail '' @ JJ_FAX, jj_order st), jr_exit = 0\<rparr>
      else \<lparr>jr_page = content_type @ text_of [''<TITLE>Your Order</TITLE>'', ''<H1>Your Order</H1>'',
            ''This is how your order would have looked if it had been sent.<P><PLAINTEXT>''] @ jj_order st,
          jr_mail = None, jr_exit = 0\<rparr>)"

text \<open>The state before the loop, with the contents \<open>w\<close>, \<open>n\<close>, \<open>p\<close>, \<open>a\<close> of the uninitialised arrays.\<close>

definition jj_init :: "cbuf \<times> cbuf \<times> cbuf \<times> cbuf \<Rightarrow> bytes \<Rightarrow> jj_state" where
  "jj_init = (\<lambda>(w, n, p, a) q.
     \<lparr>jj_w = w, jj_cl = q @ [NUL], jj_subs = 0, jj_slims = 0, jj_sides = 0, jj_drinks = 0, jj_allow = False,
      jj_name = n[0 := NUL], jj_phone = p[0 := NUL], jj_address = a[0 := NUL]\<rparr>)"

definition jj_main :: "bool \<Rightarrow> bool \<Rightarrow> cbuf \<times> cbuf \<times> cbuf \<times> cbuf \<Rightarrow> c_env \<Rightarrow> jj_result option" where
  "jj_main tmp_ok popen_ok mem env =
     (case env ''QUERY_STRING'' of
        None \<Rightarrow> Some \<lparr>jr_page = content_type @ dump_form, jr_mail = None, jr_exit = 0\<rparr>
      | Some q \<Rightarrow>
        if q = [] then Some \<lparr>jr_page = content_type @ dump_form, jr_mail = None, jr_exit = 0\<rparr>
        else if \<not> tmp_ok then
          Some \<lparr>jr_page = content_type @ text_of [''<TITLE>Server Error</TITLE>'', ''<H1>Server Error</H1>'',
              ''Server unable to get a temporary file. Please try again later.<P>''], jr_mail = None, jr_exit = 1\<rparr>
        else map_option (jj_finish popen_ok) (jj_loop (jj_init mem q)))"

section \<open>Correctness of the order form\<close>

text \<open>The order as the customer made it: the choices by kind, the texts by field, and the password.\<close>

record sub_order =
  o_choice :: "bytes \<Rightarrow> 32 word"
  o_text :: "bytes \<Rightarrow> bytes"
  o_allow :: bool

definition jj_abs :: "jj_state \<Rightarrow> sub_order" where
  "jj_abs st = \<lparr>
     o_choice = (\<lambda>k. 0)(''sub'' := jj_subs st, ''slj'' := jj_slims st, ''sde'' := jj_sides st, ''pop'' := jj_drinks st),
     o_text = (\<lambda>k. [])(''name'' := cstring (jj_name st), ''phone'' := cstring (jj_phone st), ''adr'' := cstring (jj_address st)),
     o_allow = jj_allow st\<rparr>"

definition text_size :: "bytes \<rightharpoonup> nat" where
  "text_size = [''name'' \<mapsto> 32, ''phone'' \<mapsto> 10, ''adr'' \<mapsto> 64]"

definition order_pair :: "bytes \<times> bytes \<Rightarrow> sub_order \<Rightarrow> sub_order" where
  "order_pair = (\<lambda>(k, v) ord.
     if k = ''pwd'' then ord\<lparr>o_allow := (v = PASSWORD)\<rparr>
     else if k \<in> dom text_size then ord\<lparr>o_text := (o_text ord)(k := v)\<rparr>
     else ord\<lparr>o_choice := (o_choice ord)(k := or (o_choice ord k) (push_bit (decimal_val v) 1))\<rparr>)"

definition choice_keys :: "bytes set" where
  "choice_keys = {''sub'', ''slj'', ''sde'', ''pop''}"

definition order_field :: "bytes \<times> bytes \<Rightarrow> bool" where
  "order_field = (\<lambda>(k, v). NUL \<notin> set v \<and> length (percent_encode v) < 256 \<and>
     (k = ''pwd'' \<and> v \<notin> choice_keys \<union> dom text_size \<or>
      (\<exists>size. text_size k = Some size \<and> length v < size) \<or>
      k \<in> choice_keys \<and> (\<exists>n < 31. v = show_nat n)))"

lemma jj_word_spec:
  assumes "jj_cl st = s @ NUL # r" and "NUL \<notin> set s" and "stop \<noteq> NUL" and "NUL \<notin> set x"
    and "takeWhile ((\<noteq>) stop) s = percent_encode x" and "length (percent_encode x) < length (jj_w st)"
  shows "\<exists>w r'. jj_word stop st = Some (st\<lparr>jj_w := w, jj_cl := drop (Suc (length (percent_encode x))) s @ NUL # r'\<rparr>) \<and>
    cstring w = x \<and> length w = length (jj_w st)"
proof -
  let ?v = "drop (Suc (length (percent_encode x))) (jj_w st)"
  obtain r' where g: "getword (jj_w st) (jj_cl st) stop =
      Some (percent_encode x @ NUL # ?v, drop (Suc (length (percent_encode x))) s @ NUL # r')"
    using getword_spec [OF assms(2,3), of "jj_w st" r] assms(1,5,6) by auto
  have "plus_to_space (percent_encode x) = percent_encode x"
    using percent_encode_safe [of _ x] by (auto simp: plus_to_space_def safe_char_def intro!: map_idI)
  then have "plustospace (percent_encode x @ NUL # ?v) = Some (percent_encode x @ NUL # ?v)"
    using plus_loop_spec [OF percent_encode_no_NUL, of "[]" x ?v] by (simp add: plustospace_def)
  moreover obtain r'' where "unescape_url (percent_encode x @ NUL # ?v) = Some (x @ NUL # r'')"
    "length (x @ NUL # r'') = length (percent_encode x @ NUL # ?v)" using unescape_encoded [OF assms(4)] by blast
  ultimately show ?thesis using g assms(4,6) by (auto simp: jj_word_def)
qed

definition jj_wf :: "jj_state \<Rightarrow> bool" where
  "jj_wf st \<longleftrightarrow> length (jj_w st) = 256 \<and> length (jj_name st) = 32 \<and> length (jj_phone st) = 10 \<and>
     length (jj_address st) = 64"

lemma order_keys:
  assumes "k = ''pwd'' \<or> k \<in> dom text_size \<or> k \<in> choice_keys"
  shows "percent_encode k = k" and "NUL \<notin> set k" and "CHR ''='' \<notin> set k" and "length k < 256"
  using assms
  by (auto simp: text_size_def choice_keys_def percent_encode_def unreserved_def isalnum_def split: if_splits)

lemma order_field_key: "order_field (k, v) \<Longrightarrow> k = ''pwd'' \<or> k \<in> dom text_size \<or> k \<in> choice_keys"
  by (auto simp: order_field_def)

text \<open>Reading the name and the value of the next pair.\<close>

lemma jj_pair_words:
  assumes "jj_cl st = encode_form ((k, v) # ps) @ NUL # r" and "jj_wf st"
    and "k = ''pwd'' \<or> k \<in> dom text_size \<or> k \<in> choice_keys" and v: "NUL \<notin> set v" "length (percent_encode v) < 256"
  obtains st1 w r' where "jj_word (CHR ''='') st = Some st1" and "cstring (jj_w st1) = k"
    and "jj_word (CHR ''&'') st1 = Some (st\<lparr>jj_w := w, jj_cl := encode_form ps @ NUL # r'\<rparr>)"
    and "cstring w = v" and "length w = 256"
proof -
  let ?tail = "if ps = [] then [] else CHR ''&'' # encode_form ps"
  note k = order_keys [OF assms(3)]
  have chars: "CHR ''&'' \<notin> set (percent_encode v)" using percent_encode_safe [of _ v] by (auto simp: safe_char_def)
  have s: "encode_form ((k, v) # ps) = k @ CHR ''='' # percent_encode v @ ?tail"
    using k(1) by (cases ps) (simp_all add: encode_pair_def)
  have n: "NUL \<notin> set (k @ CHR ''='' # percent_encode v @ ?tail)"
    using encode_form_no_NUL [of "(k, v) # ps"] unfolding s .
  obtain w1 r1 where 1: "jj_word (CHR ''='') st = Some (st\<lparr>jj_w := w1, jj_cl := (percent_encode v @ ?tail) @ NUL # r1\<rparr>)"
    "cstring w1 = k" "length w1 = 256"
    using jj_word_spec [OF assms(1) [unfolded s] n, of "CHR ''=''" k] k assms(2) by (auto simp: jj_wf_def takeWhile_stop)
  let ?st1 = "st\<lparr>jj_w := w1, jj_cl := (percent_encode v @ ?tail) @ NUL # r1\<rparr>"
  have "takeWhile ((\<noteq>) (CHR ''&'')) (percent_encode v @ ?tail) = percent_encode v"
    "drop (Suc (length (percent_encode v))) (percent_encode v @ ?tail) = encode_form ps"
    using chars by (simp_all add: takeWhile_stop takeWhile_none)
  then obtain w r' where "jj_word (CHR ''&'') ?st1 = Some (st\<lparr>jj_w := w, jj_cl := encode_form ps @ NUL # r'\<rparr>)"
    "cstring w = v" "length w = 256"
    using jj_word_spec [of ?st1 "percent_encode v @ ?tail" r1 "CHR ''&''" v] n v 1(3) by auto
  then show ?thesis using that [OF 1(1)] 1(2) by simp
qed

lemma strcpy_fits:
  "length v < length a \<Longrightarrow> NUL \<notin> set v \<Longrightarrow> \<exists>a'. strcpy a v = Some a' \<and> cstring a' = v \<and> length a' = length a"
  by (simp add: strcpy_def)

lemma jj_bit_show: "n < 31 \<Longrightarrow> cstring w = show_nat n \<Longrightarrow> jj_bit w = Some (push_bit n 1)"
  using atoi_show [of n] by (simp add: jj_bit_def)

lemmas jj_defs = Let_def order_pair_def choice_keys_def text_size_def jj_wf_def jj_abs_def

lemma jj_pair_step:
  assumes "jj_cl st = encode_form ((k, v) # ps) @ NUL # r" and "order_field (k, v)" and "jj_wf st"
  shows "\<exists>st' r'. jj_step st = Some st' \<and> jj_cl st' = encode_form ps @ NUL # r' \<and> jj_wf st' \<and>
    jj_abs st' = order_pair (k, v) (jj_abs st)"
proof -
  have v: "NUL \<notin> set v" "length (percent_encode v) < 256" using assms(2) by (auto simp: order_field_def)
  obtain st1 w r' where w: "jj_word (CHR ''='') st = Some st1" "cstring (jj_w st1) = k"
    "jj_word (CHR ''&'') st1 = Some (st\<lparr>jj_w := w, jj_cl := encode_form ps @ NUL # r'\<rparr>)"
    "cstring w = v" "length w = 256"
    by (rule jj_pair_words [OF assms(1,3) order_field_key [OF assms(2)] v])
  let ?st2 = "st\<lparr>jj_w := w, jj_cl := encode_form ps @ NUL # r'\<rparr>"
  have wf2: "jj_wf ?st2" "jj_abs ?st2 = jj_abs st" using assms(3) w(5) by (simp_all add: jj_wf_def jj_abs_def)
  consider "k = ''pwd''" "v \<notin> choice_keys \<union> dom text_size"
    | size where "text_size k = Some size" "length v < size" "NUL \<notin> set v"
    | n where "k \<in> choice_keys" "n < 31" "v = show_nat n"
    using assms(2) by (auto simp: order_field_def)
  then show ?thesis
  proof cases
    case 1
    then show ?thesis
      using w wf2 by (auto simp: jj_step_def jj_field_def jj_defs)
  next
    case 2
    then consider "k = ''name''" "length v < 32" | "k = ''phone''" "length v < 10" | "k = ''adr''" "length v < 64"
      by (auto simp: text_size_def split: if_splits)
    then show ?thesis
    proof cases
      case 1
      then obtain a where "strcpy (jj_name st) v = Some a" "cstring a = v" "length a = 32"
        using strcpy_fits [of v "jj_name st"] 2(3) assms(3) by (auto simp: jj_wf_def)
      then show ?thesis using w wf2 1 by (auto simp: jj_step_def jj_field_def jj_defs)
    next
      case 2
      then obtain a where "strcpy (jj_phone st) v = Some a" "cstring a = v" "length a = 10"
        using strcpy_fits [of v "jj_phone st"] \<open>NUL \<notin> set v\<close> assms(3) by (auto simp: jj_wf_def)
      then show ?thesis using w wf2 2 by (auto simp: jj_step_def jj_field_def jj_defs)
    next
      case 3
      then obtain a where "strcpy (jj_address st) v = Some a" "cstring a = v" "length a = 64"
        using strcpy_fits [of v "jj_address st"] \<open>NUL \<notin> set v\<close> assms(3) by (auto simp: jj_wf_def)
      then show ?thesis using w wf2 3 by (auto simp: jj_step_def jj_field_def jj_defs)
    qed
  next
    case 3
    then have n: "jj_bit w = Some (push_bit n 1)" "decimal_val v = n" using w(4) jj_bit_show decimal_show by simp_all
    from 3(1) consider "k = ''sub''" | "k = ''slj''" | "k = ''sde''" | "k = ''pop''" by (auto simp: choice_keys_def)
    then show ?thesis
      by cases (use w(1-3,5) n wf2(1) in \<open>simp_all add: jj_step_def jj_field_def jj_defs fun_eq_iff\<close>)
  qed
qed

lemma jj_loop_form:
  assumes "list_all order_field ps" and "jj_wf st" and "jj_cl st = encode_form ps @ NUL # r"
  shows "\<exists>st'. jj_loop st = Some st' \<and> jj_wf st' \<and> jj_abs st' = fold order_pair ps (jj_abs st)"
  using assms
proof (induction ps arbitrary: st r)
  case Nil
  then show ?case by (subst jj_loop.simps) (simp add: rd_def)
next
  case (Cons p ps)
  obtain k v where p: "p = (k, v)" by fastforce
  obtain st1 r' where step: "jj_step st = Some st1" "jj_cl st1 = encode_form ps @ NUL # r'" "jj_wf st1"
    "jj_abs st1 = order_pair p (jj_abs st)"
    using jj_pair_step [of st k v ps r] Cons.prems p by auto
  obtain c cs where "encode_form (p # ps) = c # cs" "c \<noteq> NUL"
    using encode_form_head(3) encode_form_no_NUL by (metis list.exhaust list.set_intros(1))
  then have "jj_loop st = jj_loop st1" using Cons.prems(3) step(1) by (subst jj_loop.simps) (simp add: rd_def)
  then show ?case using Cons.IH [OF _ step(3,2)] Cons.prems(1) step(4) by simp
qed

definition empty_order :: sub_order where
  "empty_order = \<lparr>o_choice = (\<lambda>k. 0), o_text = (\<lambda>k. []), o_allow = False\<rparr>"

definition jj_mem :: "cbuf \<times> cbuf \<times> cbuf \<times> cbuf \<Rightarrow> bool" where
  "jj_mem = (\<lambda>(w, n, p, a). length w = 256 \<and> length n = 32 \<and> length p = 10 \<and> length a = 64)"

lemma cstring_cleared [simp]: "cstring (x[0 := NUL]) = []"
  by (cases x) (simp_all add: cstring_def)

lemma jj_init_wf:
  "jj_mem mem \<Longrightarrow> jj_wf (jj_init mem q) \<and> jj_abs (jj_init mem q) = empty_order \<and> jj_cl (jj_init mem q) = q @ [NUL]"
  by (cases mem) (simp add: jj_mem_def jj_init_def jj_wf_def jj_abs_def empty_order_def fun_eq_iff)

text \<open>
  What the program should answer, read off the submitted pairs alone: the last text of each field, whether a choice was ticked, the
  first thing that is missing, and the lines of the order.
\<close>

definition last_text :: "bytes \<Rightarrow> (bytes \<times> bytes) list \<Rightarrow> bytes" where
  "last_text k ps = (let given = filter (\<lambda>p. fst p = k) ps in if given = [] then [] else snd (last given))"

definition ticked :: "bytes \<Rightarrow> bytes list \<Rightarrow> (bytes \<times> bytes) list \<Rightarrow> bytes list" where
  "ticked k menu ps = map snd (filter (\<lambda>(n, item). (k, show_nat n) \<in> set ps) (enumerate 0 menu))"

definition order_lines :: "(bytes \<times> bytes) list \<Rightarrow> bytes list" where
  "order_lines ps =
     [''My name is '' @ last_text ''name'' ps @ '', and I would like to have the following'',
      ''order delivered to '' @ last_text ''adr'' ps @ '':'', []] @
     map (\<lambda>item. HTAB # ''(1) '' @ item)
       (ticked ''sub'' sublist_names ps @ map (\<lambda>item. item @ '' Slim Jim'') (ticked ''slj'' slimlist ps) @
        ticked ''sde'' sidelist ps @ ticked ''pop'' poplist ps) @
     [[], ''Please feel free to call me at '' @ last_text ''phone'' ps @ '' if there is any'', ''problem. Thank you.'', [], ''.'']"

definition order_problem :: "bool \<Rightarrow> (bytes \<times> bytes) list \<Rightarrow> bytes option" where
  "order_problem popen_ok ps = map_option snd (find fst
     [(last_text ''name'' ps = [], ''you didn'' @ [CHR 0x27] @ ''t give your name''),
      (last_text ''adr'' ps = [], ''you didn'' @ [CHR 0x27] @ ''t give your address''),
      (last_text ''phone'' ps = [], ''you didn'' @ [CHR 0x27] @ ''t give your phone number''),
      (list_all (\<lambda>p. fst p \<notin> choice_keys) ps, ''you didn'' @ [CHR 0x27] @ ''t order anything''),
      (last_text ''pwd'' ps = PASSWORD \<and> \<not> popen_ok, ''the server was unable to open a pipe to mail'')])"

definition order_result :: "bool \<Rightarrow> (bytes \<times> bytes) list \<Rightarrow> jj_result" where
  "order_result popen_ok ps =
     (case order_problem popen_ok ps of
        Some why \<Rightarrow> \<lparr>jr_page = content_type @ text_of [''<TITLE>Order Not Submitted</TITLE>'', ''<H1>Order Not Submitted</H1>'',
            ''Your order has not been submitted, because '' @ why @ ''.<P>''], jr_mail = None, jr_exit = 1\<rparr>
      | None \<Rightarrow>
        if last_text ''pwd'' ps = PASSWORD
        then \<lparr>jr_page = content_type @ text_of [''<TITLE>Order Sent</TITLE>'', ''<H1>Order Sent</H1>'',
            ''Your order has been sent to the UIUC e-mail to FAX gateway.<P>''],
          jr_mail = Some (''/bin/mail JIMMY_JOHNS_5555680@fax.uiuc.edu'', text_of (order_lines ps)), jr_exit = 0\<rparr>
        else \<lparr>jr_page = content_type @ text_of ([''<TITLE>Your Order</TITLE>'', ''<H1>Your Order</H1>'',
            ''This is how your order would have looked if it had been sent.<P><PLAINTEXT>''] @ order_lines ps),
          jr_mail = None, jr_exit = 0\<rparr>)"

lemma last_text_snoc: "last_text k (ps @ [(k', v)]) = (if k' = k then v else last_text k ps)"
  by (simp add: last_text_def)

lemma fold_texts:
  "k \<in> dom text_size \<Longrightarrow> o_text (fold order_pair ps empty_order) k = last_text k ps"
  "o_allow (fold order_pair ps empty_order) \<longleftrightarrow> last_text ''pwd'' ps = PASSWORD"
proof -
  have "''pwd'' \<notin> dom text_size" by (simp add: text_size_def)
  moreover have "PASSWORD \<noteq> []" by (simp add: PASSWORD_def)
  ultimately show "k \<in> dom text_size \<Longrightarrow> o_text (fold order_pair ps empty_order) k = last_text k ps"
    "o_allow (fold order_pair ps empty_order) \<longleftrightarrow> last_text ''pwd'' ps = PASSWORD"
    by (induction ps rule: rev_induct)
       (auto simp: last_text_snoc empty_order_def order_pair_def last_text_def [of _ "[]"] split: prod.split)
qed

lemma choice_not_text: "k \<in> choice_keys \<Longrightarrow> k \<noteq> ''pwd'' \<and> k \<notin> dom text_size"
  by (auto simp: choice_keys_def text_size_def)

lemma fold_choice:
  assumes "list_all order_field ps" and "k \<in> choice_keys" and "n < 32"
  shows "bit (o_choice (fold order_pair ps empty_order) k) n \<longleftrightarrow> (k, show_nat n) \<in> set ps"
  using assms(1)
proof (induction ps rule: rev_induct)
  case Nil
  then show ?case by (simp add: empty_order_def)
next
  case (snoc p ps)
  obtain k' v where p: "p = (k', v)" by fastforce
  note IH = snoc.IH
  have f: "order_field (k', v)" and ps: "list_all order_field ps" using snoc.prems p by simp_all
  show ?case
  proof (cases "k' = k")
    case True
    then obtain m where m: "m < 31" "v = show_nat m"
      using f assms(2) choice_not_text [of k] by (auto simp: order_field_def)
    have "show_nat m = show_nat n \<longleftrightarrow> m = n" using decimal_show by metis
    moreover have "bit (2 ^ m :: 32 word) n \<longleftrightarrow> m = n" using assms(3) by (auto simp: bit_exp_iff)
    ultimately show ?thesis
      using IH [OF ps] True m p choice_not_text [OF assms(2)] decimal_show [of m]
      by (auto simp: order_pair_def bit_or_iff)
  next
    case False
    then show ?thesis using IH [OF ps] p by (auto simp: order_pair_def)
  qed
qed

lemma fold_choice_none:
  assumes "list_all order_field ps" and "k \<in> choice_keys"
  shows "o_choice (fold order_pair ps empty_order) k = 0 \<longleftrightarrow> list_all (\<lambda>p. fst p \<noteq> k) ps"
proof
  assume z: "o_choice (fold order_pair ps empty_order) k = 0"
  have "k' \<noteq> k" if kv: "(k', v) \<in> set ps" for k' v
  proof
    assume "k' = k"
    then obtain m where "m < 31" "v = show_nat m"
      using kv assms choice_not_text [of k] by (auto simp: order_field_def list_all_iff)
    then show False using fold_choice [OF assms, of m] kv z \<open>k' = k\<close> by simp
  qed
  then show "list_all (\<lambda>p. fst p \<noteq> k) ps" by (fastforce simp: list_all_iff)
next
  assume "list_all (\<lambda>p. fst p \<noteq> k) ps"
  then have "\<not> bit (o_choice (fold order_pair ps empty_order) k) n" if "n < 32" for n
    using fold_choice [OF assms that] by (auto simp: list_all_iff)
  then show "o_choice (fold order_pair ps empty_order) k = 0" by (intro bit_word_eqI) simp
qed

lemma concat_chosen:
  "concat (map (\<lambda>x. if P x then f (menu ! x) else []) [0..<length menu]) =
     concat (map f (map snd (filter (\<lambda>(n, item). P n) (enumerate 0 menu))))"
proof (induction menu rule: rev_induct)
  case (snoc x menu)
  have e: "map (\<lambda>y. if P y then f ((menu @ [x]) ! y) else []) [0..<length menu] =
      map (\<lambda>y. if P y then f (menu ! y) else []) [0..<length menu]" by (simp add: nth_append)
  show ?case using snoc by (simp add: enumerate_append_eq e del: map_eq_conv)
qed simp

lemma jj_items_ticked:
  assumes "list_all order_field ps" and "k \<in> choice_keys" and "length menu < 32"
  shows "jj_items kind menu (o_choice (fold order_pair ps empty_order) k) =
    text_of (map (\<lambda>item. HTAB # ''(1) '' @ item @ kind) (ticked k menu ps))"
proof -
  let ?w = "o_choice (fold order_pair ps empty_order) k"
  have "and ?w (push_bit x 1) \<noteq> 0 \<longleftrightarrow> (k, show_nat x) \<in> set ps" if "x < length menu" for x
    using fold_choice [OF assms(1,2), of x] assms(3) that by (simp add: and_exp_eq_0_iff_not_bit)
  then have "jj_items kind menu ?w = concat (map (\<lambda>x. if (k, show_nat x) \<in> set ps
      then HTAB # ''(1) '' @ menu ! x @ kind @ [LF] else []) [0..<length menu])"
    unfolding jj_items_def by (intro arg_cong [of _ _ concat] map_cong) simp_all
  then show ?thesis
    unfolding concat_chosen [of "\<lambda>x. (k, show_nat x) \<in> set ps" "\<lambda>i. HTAB # ''(1) '' @ i @ kind @ [LF]"]
    by (simp add: text_of_def ticked_def comp_def)
qed

lemma jj_abs_values:
  "jj_subs st = o_choice (jj_abs st) ''sub''" "jj_slims st = o_choice (jj_abs st) ''slj''"
  "jj_sides st = o_choice (jj_abs st) ''sde''" "jj_drinks st = o_choice (jj_abs st) ''pop''"
  "cstring (jj_name st) = o_text (jj_abs st) ''name''" "cstring (jj_phone st) = o_text (jj_abs st) ''phone''"
  "cstring (jj_address st) = o_text (jj_abs st) ''adr''" "jj_allow st = o_allow (jj_abs st)"
  by (simp_all add: jj_abs_def)

lemma text_of_append: "text_of (a @ b) = text_of a @ text_of b"
  by (simp add: text_of_def)

lemma order_text:
  assumes "list_all order_field ps" and "jj_abs st = fold order_pair ps empty_order"
  shows "jj_order st = text_of (order_lines ps)"
proof -
  have k: "''sub'' \<in> choice_keys" "''slj'' \<in> choice_keys" "''sde'' \<in> choice_keys" "''pop'' \<in> choice_keys"
    "''name'' \<in> dom text_size" "''phone'' \<in> dom text_size" "''adr'' \<in> dom text_size"
    by (simp_all add: choice_keys_def text_size_def)
  have l: "length sublist_names < 32" "length slimlist < 32" "length sidelist < 32" "length poplist < 32"
    by (simp_all add: sublist_names_def slimlist_def sidelist_def poplist_def)
  note items = jj_items_ticked [OF assms(1)]
  show ?thesis
    unfolding jj_order_def jj_abs_values assms(2) fold_texts(1) [OF k(5)] fold_texts(1) [OF k(6)] fold_texts(1) [OF k(7)]
      items [OF k(1) l(1)] items [OF k(2) l(2)] items [OF k(3) l(3)] items [OF k(4) l(4)] order_lines_def text_of_append map_append
    by (simp add: text_of_def comp_def)
qed

lemma order_finish:
  assumes "list_all order_field ps" and "jj_abs st = fold order_pair ps empty_order"
  shows "jj_finish popen_ok st = order_result popen_ok ps"
proof -
  have k: "''name'' \<in> dom text_size" "''phone'' \<in> dom text_size" "''adr'' \<in> dom text_size"
    by (simp_all add: text_size_def)
  have t: "cstring (jj_name st) = last_text ''name'' ps" "cstring (jj_phone st) = last_text ''phone'' ps"
    "cstring (jj_address st) = last_text ''adr'' ps" "jj_allow st \<longleftrightarrow> last_text ''pwd'' ps = PASSWORD"
    unfolding jj_abs_values assms(2) using fold_texts k by simp_all
  have c: "jj_subs st = 0 \<and> jj_slims st = 0 \<and> jj_sides st = 0 \<and> jj_drinks st = 0 \<longleftrightarrow>
      list_all (\<lambda>p. fst p \<notin> choice_keys) ps"
    unfolding jj_abs_values assms(2)
    using fold_choice_none [OF assms(1)] by (simp add: choice_keys_def list_all_iff) blast
  show ?thesis
    unfolding jj_finish_def t c order_text [OF assms] order_result_def order_problem_def jj_failed_def print_error_def
      text_of_append
    by (simp add: JJ_FAX_def)
qed

text \<open>
  C36. The order that is mailed or shown is the one the customer made. For an encoded form whose fields are known, whose choices
  are numbers below 31 and whose texts fit their arrays, the program gives the answer read off the submitted pairs: the page that
  names the first thing missing among name, address, telephone number, choices and a pipe to the mailer; the page that says the
  order is sent, with the mail, if the last password given is the right one; or the page that shows the
  order. The order has the last name, address and telephone number given and one line for every choice that was ticked, subs, slim
  subs, sides and drinks in this order, each by its number in the list.
\<close>

theorem order_form:
  assumes "list_all order_field ps" and "ps \<noteq> []" and "jj_mem mem" and "env ''QUERY_STRING'' = Some (encode_form ps)"
  shows "jj_main True popen_ok mem env = Some (order_result popen_ok ps)"
proof -
  obtain st where st: "jj_loop (jj_init mem (encode_form ps)) = Some st" "jj_abs st = fold order_pair ps empty_order"
    using jj_loop_form [OF assms(1), of "jj_init mem (encode_form ps)" "[]"] jj_init_wf [OF assms(3)] by auto
  have "encode_form ps \<noteq> []" using assms(2) encode_form_head(3) by (cases ps) auto
  then show ?thesis using st assms(4) order_finish [OF assms(1)] by (simp add: jj_main_def)
qed

definition sample_mem :: "cbuf \<times> cbuf \<times> cbuf \<times> cbuf" where
  "sample_mem = (replicate 256 NUL, replicate 32 NUL, replicate 10 NUL, replicate 64 NUL)"

definition sample_pairs :: "(bytes \<times> bytes) list" where
  "sample_pairs = [(''name'', ''Al''), (''adr'', ''1 Oak''), (''phone'', ''5551''), (''sub'', ''3''), (''pop'', ''1''),
     (''pwd'', ''HTTPdRocKs'')]"

theorem order_form_witness:
  "jj_main True True sample_mem [''QUERY_STRING'' \<mapsto> encode_form sample_pairs] =
     Some \<lparr>jr_page = content_type @ text_of [''<TITLE>Order Sent</TITLE>'', ''<H1>Order Sent</H1>'',
         ''Your order has been sent to the UIUC e-mail to FAX gateway.<P>''],
       jr_mail = Some (''/bin/mail JIMMY_JOHNS_5555680@fax.uiuc.edu'', text_of
         [''My name is Al, and I would like to have the following'', ''order delivered to 1 Oak:'', [],
          HTAB # ''(1) Turkey Tom Gourmet Sub'', HTAB # ''(1) Mountain Dew'', [],
          ''Please feel free to call me at 5551 if there is any'', ''problem. Thank you.'', [], ''.'']), jr_exit = 0\<rparr>"
proof -
  have n: "show_nat 3 = ''3''" "show_nat (Suc 0) = ''1''" by (simp_all add: show_nat.simps digit_char_def char_of_def bit_0)
  have "order_field (''sub'', ''3'')"
    using n(1) by (auto simp: order_field_def choice_keys_def percent_encode_def intro!: exI [of _ 3])
  moreover have "order_field (''pop'', ''1'')"
    unfolding order_field_def using n(2) by (auto simp: choice_keys_def percent_encode_def intro!: exI [of _ "Suc 0"])
  ultimately have f: "list_all order_field sample_pairs"
    by (simp add: sample_pairs_def) (simp add: order_field_def choice_keys_def text_size_def percent_encode_def)
  have m: "jj_mem sample_mem" by (simp add: jj_mem_def sample_mem_def)
  have t: "last_text ''name'' sample_pairs = ''Al''" "last_text ''adr'' sample_pairs = ''1 Oak''"
    "last_text ''phone'' sample_pairs = ''5551''" "last_text ''pwd'' sample_pairs = PASSWORD"
    by (simp_all add: last_text_def sample_pairs_def PASSWORD_def)
  have i: "ticked ''sub'' sublist_names sample_pairs = [''Turkey Tom Gourmet Sub'']" "ticked ''slj'' slimlist sample_pairs = []"
    "ticked ''sde'' sidelist sample_pairs = []" "ticked ''pop'' poplist sample_pairs = [''Mountain Dew'']"
    by (simp_all add: ticked_def sample_pairs_def sublist_names_def slimlist_def sidelist_def poplist_def
        show_nat.simps digit_char_def char_of_def bit_0)
  have "\<not> list_all (\<lambda>p. fst p \<notin> choice_keys) sample_pairs" by (simp add: sample_pairs_def choice_keys_def)
  then have "order_problem True sample_pairs = None" by (simp add: order_problem_def t)
  then show ?thesis
    using order_form [OF f _ m, of "[''QUERY_STRING'' \<mapsto> encode_form sample_pairs]" True]
    by (simp add: order_result_def order_lines_def t i) (simp add: sample_pairs_def)
qed

text \<open>
  The lengths the form allows do not fit the arrays of the program: a name, phone number or address as long as
  the \<open>MAXLENGTH\<close> of its input field overruns its array by the terminating NUL.
\<close>

theorem order_text_overrun:
  assumes "text_size k = Some n" and "length v = n" and "NUL \<notin> set v" and "length (percent_encode v) < 256"
    and "jj_mem mem" and "env ''QUERY_STRING'' = Some (encode_form [(k, v)])"
  shows "jj_main True popen_ok mem env = None"
proof -
  let ?st = "jj_init mem (encode_form [(k, v)])"
  have init: "jj_wf ?st" "jj_cl ?st = encode_form [(k, v)] @ NUL # []" using jj_init_wf [OF assms(5)] by simp_all
  obtain st1 w r where w: "jj_word (CHR ''='') ?st = Some st1" "cstring (jj_w st1) = k"
    "jj_word (CHR ''&'') st1 = Some (?st\<lparr>jj_w := w, jj_cl := encode_form [] @ NUL # r\<rparr>)" "cstring w = v"
    using jj_pair_words [OF init(2,1)] assms(1,3,4) by (metis domI)
  have full: "strcpy a v = None" if "length a = n" for a using that assms(2) by (simp add: strcpy_def)
  consider "k = ''name''" "n = 32" | "k = ''phone''" "n = 10" | "k = ''adr''" "n = 64"
    using assms(1) by (auto simp: text_size_def split: if_splits)
  then have "jj_step ?st = None"
    by cases (use w init(1) full in \<open>simp_all add: jj_step_def jj_field_def jj_wf_def Let_def\<close>)
  moreover obtain c cs where "encode_form [(k, v)] = c # cs" "c \<noteq> NUL"
    using encode_form_head(3) encode_form_no_NUL by (metis list.exhaust list.set_intros(1))
  ultimately have "jj_loop ?st = None" "encode_form [(k, v)] \<noteq> []"
    using init(2) by (subst jj_loop.simps, simp_all add: rd_def)
  then show ?thesis using assms(6) by (simp add: jj_main_def)
qed

theorem order_text_overrun_witness:
  "jj_main True True sample_mem [''QUERY_STRING'' \<mapsto> encode_form [(''phone'', ''2175550000'')]] = None"
proof -
  have "text_size ''phone'' = Some 10" by (simp add: text_size_def)
  moreover have "length (percent_encode ''2175550000'') < 256" by (simp add: percent_encode_def)
  moreover have "jj_mem sample_mem" by (simp add: jj_mem_def sample_mem_def)
  ultimately show ?thesis by (intro order_text_overrun) simp_all
qed

end
