(* ===== verification/Cgi_Imagemap.thy ===== *)
theory Cgi_Imagemap
  imports Cgi_Query
begin

section \<open>The image map\<close>

text \<open>
  Models \<open>legacy/http-root-dir/cgi-src/imagemap.c\<close>, which answers a click on an image with the url a map file gives for the
  region around the point. A \<open>double\<close> is a real number and every arithmetic operation on
  doubles rounds its exact result with the function \<open>fl\<close>, a parameter. \<^const>\<open>None\<close> is
  undefined behaviour: an access out of bounds, a null pointer, an integer that does not fit. The program has its own copy of
  \<open>mygetline\<close>, the same as the one of \<open>util.c\<close>.
\<close>

type_synonym point = "real \<times> real"

subsection \<open>Regions\<close>

definition pointinrect :: "point \<Rightarrow> point list \<Rightarrow> bool" where
  "pointinrect p coords \<longleftrightarrow>
     (fst p \<ge> fst (coords ! 0) \<and> fst p \<le> fst (coords ! 1)) \<and>
     (snd p \<ge> snd (coords ! 0) \<and> snd p \<le> snd (coords ! 1))"

text \<open>The conversion of a \<open>double\<close> to an \<open>int\<close>.\<close>

definition to_int :: "real \<Rightarrow> int option" where
  "to_int r = (let i = (if r \<ge> 0 then \<lfloor>r\<rfloor> else \<lceil>r\<rceil>) in if - (2 ^ 31) \<le> i \<and> i < 2 ^ 31 then Some i else None)"

definition square_dist :: "(real \<Rightarrow> real) \<Rightarrow> point \<Rightarrow> point \<Rightarrow> real" where
  "square_dist fl a b =
     fl (fl (fl (snd a - snd b) * fl (snd a - snd b)) + fl (fl (fst a - fst b) * fl (fst a - fst b)))"

definition pointincircle :: "(real \<Rightarrow> real) \<Rightarrow> point \<Rightarrow> point list \<Rightarrow> bool option" where
  "pointincircle fl p coords =
     (case (to_int (square_dist fl (coords ! 0) (coords ! 1)), to_int (square_dist fl (coords ! 0) p)) of
        (Some radius1, Some radius2) \<Rightarrow> Some (radius2 \<le> radius1)
      | _ \<Rightarrow> None)"

text \<open>The number of vertices: the loop reads the element after the last one before it looks at the index.\<close>

function count_vertices :: "point list \<Rightarrow> nat \<Rightarrow> nat option" where
  "count_vertices pgon i =
     (if i < length pgon then if fst (pgon ! i) \<noteq> - 1 then count_vertices pgon (i + 1) else Some i else None)"
  by pat_completeness auto
termination
  by (relation "measure (\<lambda>(pgon, i). length pgon - i)") auto

declare count_vertices.simps [simp del]

text \<open>Whether an edge that crosses the line through the point does so to the right of it.\<close>

definition crossing :: "(real \<Rightarrow> real) \<Rightarrow> point \<Rightarrow> point \<Rightarrow> point \<Rightarrow> bool" where
  "crossing fl p a b \<longleftrightarrow>
     (if (fst a \<ge> fst p) = (fst b \<ge> fst p) then fst a \<ge> fst p
      else fl (fst a - fl (fl (fl (snd a - snd p) * fl (fst b - fst a)) / fl (snd b - snd a))) \<ge> fst p)"

text \<open>The inner loops: the first vertex from \<open>v\<close> on that is on the other side of the line.\<close>

function skip_side :: "point \<Rightarrow> point list \<Rightarrow> nat \<Rightarrow> bool \<Rightarrow> nat \<Rightarrow> nat" where
  "skip_side p pgon n side v =
     (if v < n \<and> (snd (pgon ! v) \<ge> snd p) = side then skip_side p pgon n side (v + 1) else v)"
  by pat_completeness auto
termination
  by (relation "measure (\<lambda>(p, pgon, n, side, v). n - v)") auto

declare skip_side.simps [simp del]

lemma skip_side_ge: "v \<le> skip_side p pgon n side v"
proof (induction p pgon n side v rule: skip_side.induct)
  case (1 p pgon n side v)
  then show ?case by (subst skip_side.simps) auto
qed

function poly_loop :: "(real \<Rightarrow> real) \<Rightarrow> point \<Rightarrow> point list \<Rightarrow> nat \<Rightarrow> nat \<Rightarrow> nat \<Rightarrow> nat" where
  "poly_loop fl p pgon n v crossings =
     (if v < n then
        let v = skip_side p pgon n (snd (pgon ! (v - 1)) \<ge> snd p) v
        in if v \<ge> n then crossings
           else poly_loop fl p pgon n (v + 1)
             (if crossing fl p (pgon ! (v - 1)) (pgon ! v) then crossings + 1 else crossings)
      else crossings)"
  by pat_completeness auto
termination
proof (relation "measure (\<lambda>(fl, p, pgon, n, v, crossings). n - v)", goal_cases)
  case (2 fl p pgon n v crossings x)
  then show ?case using skip_side_ge [of v p pgon n "snd (pgon ! (v - 1)) \<ge> snd p"] by simp
qed simp

declare poly_loop.simps [simp del]

definition pointinpoly :: "(real \<Rightarrow> real) \<Rightarrow> point \<Rightarrow> point list \<Rightarrow> bool option" where
  "pointinpoly fl p pgon =
     (case count_vertices pgon 0 of
        None \<Rightarrow> None
      | Some n \<Rightarrow>
        if n = 0 then None
        else
          let a = pgon ! (n - 1); b = pgon ! 0;
              crossings = (if (snd a \<ge> snd p) \<noteq> (snd b \<ge> snd p) \<and> crossing fl p a b then 1 else 0)
          in Some (odd (poly_loop fl p pgon n 1 crossings)))"

subsection \<open>Correctness of the polygon test\<close>

text \<open>The reference: every edge on its own.\<close>

definition crosses :: "(real \<Rightarrow> real) \<Rightarrow> point \<Rightarrow> point \<Rightarrow> point \<Rightarrow> bool" where
  "crosses fl p a b \<longleftrightarrow> (snd a \<ge> snd p) \<noteq> (snd b \<ge> snd p) \<and> crossing fl p a b"

fun crossed_edges :: "(real \<Rightarrow> real) \<Rightarrow> point \<Rightarrow> point list \<Rightarrow> nat" where
  "crossed_edges fl p (a # b # vs) = (if crosses fl p a b then 1 else 0) + crossed_edges fl p (b # vs)"
| "crossed_edges fl p vs = 0"

lemma crossed_edges_skip:
  "v \<le> w \<Longrightarrow> w \<le> length vs \<Longrightarrow> (\<forall>u. v \<le> u \<and> u < w \<longrightarrow> (snd (vs ! u) \<ge> snd p) = side) \<Longrightarrow>
   0 < v \<Longrightarrow> (snd (vs ! (v - 1)) \<ge> snd p) = side \<Longrightarrow>
   crossed_edges fl p (drop (v - 1) vs) = crossed_edges fl p (drop (w - 1) vs)"
proof (induction "w - v" arbitrary: v)
  case (Suc k)
  then have v: "v < w" "v < length vs" by simp_all
  have "drop (v - 1) vs = vs ! (v - 1) # drop v vs" "drop v vs = vs ! v # drop (v + 1) vs"
    using v Suc.prems(4) Cons_nth_drop_Suc [of "v - 1" vs] Cons_nth_drop_Suc [of v vs] by simp_all
  moreover have "\<not> crosses fl p (vs ! (v - 1)) (vs ! v)" using Suc.prems(3,5) v by (auto simp: crosses_def)
  ultimately have "crossed_edges fl p (drop (v - 1) vs) = crossed_edges fl p (drop v vs)" by simp
  moreover have "crossed_edges fl p (drop (v + 1 - 1) vs) = crossed_edges fl p (drop (w - 1) vs)"
    by (rule Suc.hyps(1)) (use Suc.prems Suc.hyps(2) v in auto)
  ultimately show ?case by simp
qed simp

lemma skip_side_spec:
  assumes "v \<le> n"
  shows "skip_side p pgon n side v \<le> n \<and>
    (\<forall>u. v \<le> u \<and> u < skip_side p pgon n side v \<longrightarrow> (snd (pgon ! u) \<ge> snd p) = side) \<and>
    (skip_side p pgon n side v < n \<longrightarrow> (snd (pgon ! skip_side p pgon n side v) \<ge> snd p) \<noteq> side)"
  using assms
proof (induction p pgon n side v rule: skip_side.induct)
  case (1 p pgon n side v)
  show ?case
  proof (cases "v < n \<and> (snd (pgon ! v) \<ge> snd p) = side")
    case True
    then have eq: "skip_side p pgon n side v = skip_side p pgon n side (v + 1)" by (subst skip_side.simps) simp
    show ?thesis unfolding eq using 1(1) [OF True] True le_less Suc_leI by (metis Suc_eq_plus1 order_le_less)
  next
    case False
    then show ?thesis using 1(2) by (subst (1 2 3 4) skip_side.simps) auto
  qed
qed

lemma poly_loop_spec:
  assumes "0 < v" and "v \<le> length vs"
  shows "poly_loop fl p (vs @ rest) (length vs) v c = c + crossed_edges fl p (drop (v - 1) vs)"
  using assms
proof (induction "length vs - v" arbitrary: v c rule: less_induct)
  case less
  let ?pgon = "vs @ rest" and ?n = "length vs"
  define side where "side = (snd (?pgon ! (v - 1)) \<ge> snd p)"
  define w where "w = skip_side p ?pgon ?n side v"
  have w: "v \<le> w" "w \<le> ?n" "\<forall>u. v \<le> u \<and> u < w \<longrightarrow> (snd (vs ! u) \<ge> snd p) = side"
    "w < ?n \<Longrightarrow> (snd (vs ! w) \<ge> snd p) \<noteq> side"
    using skip_side_spec [OF less.prems(2), of p ?pgon side] skip_side_ge [of v p ?pgon ?n side]
    by (auto simp: w_def [symmetric] nth_append)
  have s: "(snd (vs ! (v - 1)) \<ge> snd p) = side"
  proof -
    have "v - 1 < length vs" using less.prems by linarith
    then show ?thesis by (simp add: side_def nth_append)
  qed
  have skip: "crossed_edges fl p (drop (v - 1) vs) = crossed_edges fl p (drop (w - 1) vs)"
    by (rule crossed_edges_skip [OF w(1-3) less.prems(1) s])
  have s': "(snd (vs ! (w - 1)) \<ge> snd p) = side" using w(1,3) s by (cases "w = v") auto
  have step: "poly_loop fl p ?pgon ?n v c =
      (if v < ?n then
         if ?n \<le> w then c
         else poly_loop fl p ?pgon ?n (w + 1) (if crossing fl p (?pgon ! (w - 1)) (?pgon ! w) then c + 1 else c)
       else c)"
    by (subst poly_loop.simps) (simp only: Let_def side_def w_def)
  show ?case
  proof (cases "w < ?n")
    case True
    then have "v < ?n" using w(1) by simp
    moreover have "?pgon ! (w - 1) = vs ! (w - 1)" "?pgon ! w = vs ! w"
      using True less_imp_diff_less by (simp_all add: nth_append)
    ultimately have "poly_loop fl p ?pgon ?n v c = poly_loop fl p ?pgon ?n (w + 1)
        (if crossing fl p (vs ! (w - 1)) (vs ! w) then c + 1 else c)"
      using True unfolding step by (simp only: not_less [symmetric] simp_thms if_True if_False)
    moreover have "crosses fl p (vs ! (w - 1)) (vs ! w) \<longleftrightarrow> crossing fl p (vs ! (w - 1)) (vs ! w)"
      using s' w(4) [OF True] by (auto simp: crosses_def)
    moreover have "drop (w - 1) vs = vs ! (w - 1) # vs ! w # drop (w + 1) vs" "drop w vs = vs ! w # drop (w + 1) vs"
      using True w(1) less.prems(1) Cons_nth_drop_Suc [of "w - 1" vs] Cons_nth_drop_Suc [of w vs] by simp_all
    moreover have "?n - (w + 1) < ?n - v" using True w(1) by simp
    ultimately show ?thesis using less.hyps [of "w + 1"] True skip by simp
  next
    case False
    then have n: "w = ?n" using w(2) by simp
    have "poly_loop fl p ?pgon ?n v c = c" using n unfolding step by simp
    moreover have "drop (?n - 1) vs = [last vs]" using less.prems by (cases vs rule: rev_cases) auto
    ultimately show ?thesis using skip n by simp
  qed
qed

lemma count_vertices_spec:
  assumes "list_all (\<lambda>v. fst v \<noteq> - 1) vs"
  shows "count_vertices (us @ vs @ (- 1, y) # rest) (length us) = Some (length us + length vs)"
  using assms
proof (induction vs arbitrary: us)
  case Nil
  then show ?case by (subst count_vertices.simps) simp
next
  case (Cons v vs)
  then show ?case using Cons.IH [of "us @ [v]"] by (subst count_vertices.simps) simp
qed

lemma crossed_edges_snoc:
  "vs \<noteq> [] \<Longrightarrow> crossed_edges fl p (vs @ [b]) = crossed_edges fl p vs + (if crosses fl p (last vs) b then 1 else 0)"
  by (induction fl p vs rule: crossed_edges.induct) auto

text \<open>With exact arithmetic the test of an edge is the one of plane geometry.\<close>

lemma crossing_exact:
  fixes p a b :: point
  assumes "(snd a \<ge> snd p) \<noteq> (snd b \<ge> snd p)"
  shows "crossing (\<lambda>r. r) p a b \<longleftrightarrow> fst p \<le> fst a + (snd p - snd a) * (fst b - fst a) / (snd b - snd a)"
proof -
  define t where "t = (snd p - snd a) / (snd b - snd a)"
  have t: "0 \<le> t" "t \<le> 1" using assms by (auto simp: t_def divide_simps)
  have x: "fst a + (snd p - snd a) * (fst b - fst a) / (snd b - snd a) = (1 - t) * fst a + t * fst b"
  proof -
    have "(snd p - snd a) * (fst b - fst a) / (snd b - snd a) = t * (fst b - fst a)" by (simp add: t_def)
    then show ?thesis by (simp add: algebra_simps)
  qed
  show ?thesis
  proof (cases "(fst a \<ge> fst p) = (fst b \<ge> fst p)")
    case True
    have "(1 - t) * fst p + t * fst p = fst p" by (simp add: algebra_simps)
    moreover have "(1 - t) * fst p + t * fst p \<le> (1 - t) * fst a + t * fst b" if "fst p \<le> fst a" "fst p \<le> fst b"
      using t that by (intro add_mono mult_left_mono) auto
    moreover have "(1 - t) * fst a + t * fst b < (1 - t) * fst p + t * fst p" if "fst a < fst p" "fst b < fst p"
    proof (cases "t = 0")
      case False
      then show ?thesis using t that by (intro add_le_less_mono mult_left_mono mult_strict_left_mono) auto
    qed (use that in simp)
    ultimately show ?thesis using True unfolding x by (auto simp: crossing_def not_le)
  next
    case False
    have "fst a - (snd a - snd p) * (fst b - fst a) / (snd b - snd a) =
        fst a + (snd p - snd a) * (fst b - fst a) / (snd b - snd a)"
      by (simp add: algebra_simps diff_divide_distrib)
    then show ?thesis using False by (simp only: crossing_def if_False)
  qed
qed

lemma pointinpoly_edges:
  assumes "list_all (\<lambda>v. fst v \<noteq> - 1) vs"
  shows "pointinpoly fl p (vs @ (- 1, y) # rest) =
    (if vs = [] then None else Some (odd (crossed_edges fl p (vs @ [hd vs]))))"
proof (cases "vs = []")
  case True
  then show ?thesis using count_vertices_spec [OF assms, of "[]" y rest] by (simp add: pointinpoly_def)
next
  case False
  have "count_vertices (vs @ (- 1, y) # rest) 0 = Some (length vs)"
    using count_vertices_spec [OF assms, of "[]" y rest] by simp
  moreover have "(vs @ (- 1, y) # rest) ! (length vs - 1) = last vs" "(vs @ (- 1, y) # rest) ! 0 = hd vs"
    using False by (simp_all add: nth_append last_conv_nth hd_conv_nth)
  moreover have "poly_loop fl p (vs @ (- 1, y) # rest) (length vs) 1 c = c + crossed_edges fl p vs" for c
    using poly_loop_spec [of 1 vs fl p "(- 1, y) # rest" c] False by (simp add: Suc_le_eq)
  ultimately show ?thesis
    using False crossed_edges_snoc [OF False, of fl p "hd vs"]
    by (simp add: pointinpoly_def Let_def crosses_def)
qed

text \<open>
  C35. The polygon test, which skips runs of vertices on one side of the line through the point, is the even-odd rule: it counts,
  edge by edge and with the closing edge, those that cross the line to the right of the point. With no vertices it reads in front
  of the array. This holds for any rounding of the arithmetic.
\<close>

theorem pointinpoly_even_odd:
  assumes "list_all (\<lambda>v. fst v \<noteq> - 1) vs"
  shows "pointinpoly fl p (vs @ (- 1, y) # rest) =
    (if vs = [] then None else Some (odd (crossed_edges fl p (vs @ [hd vs]))))"
  by (rule pointinpoly_edges [OF assms])

theorem pointinpoly_even_odd_witness:
  "pointinpoly (\<lambda>r. r) (2, 2) ([(0, 0), (4, 0), (0, 8)] @ (- 1, 0) # replicate 96 (0, 0)) = Some True"
  using pointinpoly_even_odd [of "[(0, 0), (4, 0), (0, 8)]" "\<lambda>r. r" "(2, 2)" 0 "replicate 96 (0, 0)"]
  by (simp add: crosses_def crossing_def)

subsection \<open>Reading a map file\<close>

definition isname :: "char \<Rightarrow> bool" where
  "isname c \<longleftrightarrow> \<not> is_space c"

text \<open>Loops over the line: skip characters, or copy them to the start of an array.\<close>

function skip_while :: "(char \<Rightarrow> bool) \<Rightarrow> cbuf \<Rightarrow> nat \<Rightarrow> nat option" where
  "skip_while P line i =
     (case rd line i of None \<Rightarrow> None | Some c \<Rightarrow> if P c then skip_while P line (i + 1) else Some i)"
  by pat_completeness auto
termination
  by (relation "measure (\<lambda>(P, line, i). length line - i)") (auto dest: rd_less)

function copy_while :: "(char \<Rightarrow> bool) \<Rightarrow> cbuf \<Rightarrow> nat \<Rightarrow> cbuf \<Rightarrow> nat \<Rightarrow> (cbuf \<times> nat) option" where
  "copy_while P line i dst j =
     (case rd line i of
        None \<Rightarrow> None
      | Some c \<Rightarrow>
        if P c then (case wr dst j c of None \<Rightarrow> None | Some dst \<Rightarrow> copy_while P line (i + 1) dst (j + 1))
        else map_option (\<lambda>dst. (dst, i)) (wr dst j NUL))"
  by pat_completeness auto
termination
  by (relation "measure (\<lambda>(P, line, i, dst, j). length line - i)") (auto dest: rd_less)

declare skip_while.simps [simp del] copy_while.simps [simp del]

text \<open>A number of a coordinate pair, at most nine digits; the text of the number and the index after it.\<close>

definition read_num :: "cbuf \<Rightarrow> nat \<Rightarrow> (bytes \<times> nat) option" where
  "read_num line i =
     (case skip_while (\<lambda>c. is_space c \<or> c = CHR '','') line i of
        None \<Rightarrow> None
      | Some i \<Rightarrow> map_option (\<lambda>(num, i). (cstring num, i)) (copy_while is_digit line i (replicate 10 NUL) 0))"

lemma skip_while_ge: "skip_while P line i = Some j \<Longrightarrow> i \<le> j"
proof (induction P line i rule: skip_while.induct)
  case (1 P line i)
  then show ?case by (subst (asm) (2) skip_while.simps) (auto split: option.splits if_splits)
qed

lemma copy_while_ge: "copy_while P line i dst j = Some (dst', i') \<Longrightarrow> i \<le> i' \<and> i' < length line"
proof (induction P line i dst j rule: copy_while.induct)
  case (1 P line i dst j)
  then show ?case by (subst (asm) (2) copy_while.simps) (fastforce split: option.splits if_splits dest: rd_less)
qed

lemma copy_while_empty:
  assumes "copy_while P line i dst 0 = Some (dst', i)"
  shows "cstring dst' = []"
proof -
  obtain c where c: "rd line i = Some c" using assms by (subst (asm) copy_while.simps) (auto split: option.splits)
  have "\<not> P c"
  proof
    assume "P c"
    then obtain dst1 where "copy_while P line (i + 1) dst1 1 = Some (dst', i)"
      using assms c by (subst (asm) copy_while.simps) (auto split: option.splits)
    then show False using copy_while_ge by fastforce
  qed
  then have "wr dst 0 NUL = Some dst'" using assms c by (subst (asm) copy_while.simps) auto
  then show ?thesis by (cases dst) (auto simp: wr_def cstring_def split: if_splits)
qed

lemma read_num_progress: "read_num line i = Some (num, i') \<Longrightarrow> i \<le> i' \<and> i' < length line \<and> (num \<noteq> [] \<longrightarrow> i < i')"
proof -
  assume "read_num line i = Some (num, i')"
  then obtain k dst where k: "skip_while (\<lambda>c. is_space c \<or> c = CHR '','') line i = Some k"
    "copy_while is_digit line k (replicate 10 NUL) 0 = Some (dst, i')" "num = cstring dst"
    by (auto simp: read_num_def split: option.splits)
  have "i \<le> k" "k \<le> i'" "i' < length line" using skip_while_ge [OF k(1)] copy_while_ge [OF k(2)] by auto
  moreover have "num = []" if "k = i'" using copy_while_empty k(2,3) that by blast
  ultimately show ?thesis using k(3) by (metis le_neq_implies_less le_trans order_le_less_trans)
qed

text \<open>
  The loop over the coordinates, with the array of points and the number of points so far. \<open>Inl\<close> is the message
  of \<open>servererr\<close>.
\<close>

function read_coords :: "cbuf \<Rightarrow> nat \<Rightarrow> nat \<Rightarrow> point list \<Rightarrow> (bytes + nat \<times> point list) option" where
  "read_coords line i k pts =
     (case rd line i of
        None \<Rightarrow> None
      | Some c \<Rightarrow>
        if c = NUL then Some (Inr (k, pts))
        else (case read_num line i of
            None \<Rightarrow> None
          | Some (num, i1) \<Rightarrow>
            if num = [] then Some (Inr (k, pts))
            else if k \<ge> length pts then None
            else (case (atoi num, read_num line i1) of
                (Some x, Some (num, i2)) \<Rightarrow>
                  if num = [] then Some (Inl ''Missing y value.'')
                  else (case atoi num of
                      None \<Rightarrow> None
                    | Some y \<Rightarrow> read_coords line i2 (k + 1) (pts[k := (of_int x, of_int y)]))
              | _ \<Rightarrow> None)))"
  by pat_completeness auto
termination
  by (relation "measure (\<lambda>(line, i, k, pts). length line - i)")
    (auto dest!: read_num_progress read_num_progress [OF sym])

declare read_coords.simps [simp del]

subsection \<open>The program\<close>

definition MAXLINE :: nat where
  "MAXLINE = 500"

definition CONF_FILE :: bytes where
  "CONF_FILE = ''/usr/local/etc/httpd/conf/imagemap.conf''"

record im_result =
  im_out :: bytes
  im_exit :: int

record im_system =
  im_env :: c_env
  im_file :: "bytes \<Rightarrow> bytes option"
  im_regular :: "bytes \<Rightarrow> bool"

record im_state =
  im_def :: cbuf
  im_pts :: "point list"
  im_sawpoint :: nat
  im_mindist :: real

definition servererr :: "bytes \<Rightarrow> im_result" where
  "servererr msg = \<lparr>im_out = content_type @ ''<title>Mapping Server Error</title>'' @
     ''<h1>Mapping Server Error</h1>'' @ ''This server encountered an error:<p>'' @ msg, im_exit = - 1\<rparr>"

text \<open>The path of \<open>PATH_INFO\<close> up to its last slash, copied to an array of \<open>MAXLINE\<close> bytes.\<close>

definition base_path :: "bytes option \<Rightarrow> bytes option" where
  "base_path path_info =
     (case path_info of
        None \<Rightarrow> Some ''/''
      | Some s \<Rightarrow>
        let path = rev (dropWhile (\<lambda>c. c \<noteq> CHR ''/'') (rev s))
        in if length path < MAXLINE then Some path else None)"

definition sendmesg :: "c_env \<Rightarrow> bytes \<Rightarrow> im_result option" where
  "sendmesg env url =
     (let moved = ''This document has moved <A HREF=\"'' @ url @ ''\">here</A>'' @ [LF]
      in if CHR '':'' \<in> set url
         then Some \<lparr>im_out = ''Location: '' @ url @ [LF, LF] @ moved, im_exit = 1\<rparr>
         else (case env ''SERVER_NAME'' of
             None \<Rightarrow> None
           | Some name \<Rightarrow>
             let port = (case env ''SERVER_PORT'' of
                   None \<Rightarrow> [] | Some port \<Rightarrow> if port \<noteq> ''80'' then '':'' @ port else []);
                 path = (if url \<noteq> [] \<and> hd url = CHR ''/'' then Some [] else base_path (env ''PATH_INFO''))
             in map_option (\<lambda>path. \<lparr>im_out = ''Location: http://'' @ name @ port @ path @ url @ [LF, LF] @ moved,
                  im_exit = 1\<rparr>) path))"

text \<open>The tests of a region; \<open>Inl\<close> ends the program.\<close>

definition im_region :: "(real \<Rightarrow> real) \<Rightarrow> c_env \<Rightarrow> point \<Rightarrow> bytes \<Rightarrow> bytes \<Rightarrow> im_state \<Rightarrow> (im_result + im_state) option" where
  "im_region fl env p type url st =
     (let hit = (\<lambda>b. if b then map_option Inl (sendmesg env url) else Some (Inr st))
      in if type = ''poly'' then
           (case pointinpoly fl p (im_pts st) of None \<Rightarrow> None | Some b \<Rightarrow> hit b)
         else if type = ''circle'' then
           (case pointincircle fl p (im_pts st) of None \<Rightarrow> None | Some b \<Rightarrow> hit b)
         else if type = ''rect'' then hit (pointinrect p (im_pts st))
         else if type = ''point'' then
           let a = im_pts st ! 0;
               dist = fl (fl (fl (fst p - fst a) * fl (fst p - fst a)) + fl (fl (snd p - snd a) * fl (snd p - snd a)))
           in if im_sawpoint st = 0 \<or> dist < im_mindist st
              then map_option (\<lambda>d. Inr (st\<lparr>im_mindist := dist, im_def := d, im_sawpoint := im_sawpoint st + 1\<rparr>))
                     (strcpy (im_def st) url)
              else Some (Inr (st\<lparr>im_sawpoint := im_sawpoint st + 1\<rparr>))
         else Some (Inr st))"

definition im_line :: "(real \<Rightarrow> real) \<Rightarrow> c_env \<Rightarrow> point \<Rightarrow> cbuf \<Rightarrow> im_state \<Rightarrow> (im_result + im_state) option" where
  "im_line fl env p line st =
     (case rd line 0 of
        None \<Rightarrow> None
      | Some c \<Rightarrow>
        if c = CHR ''#'' \<or> c = NUL then Some (Inr st)
        else (case copy_while (\<lambda>c. isname c \<and> c \<noteq> NUL) line 0 (replicate MAXLINE NUL) 0 of
            None \<Rightarrow> None
          | Some (type, i) \<Rightarrow>
            (case skip_while is_space line i of
               None \<Rightarrow> None
             | Some i \<Rightarrow>
               (case copy_while (\<lambda>c. c \<noteq> NUL \<and> isname c) line i (replicate MAXLINE NUL) 0 of
                  None \<Rightarrow> None
                | Some (url, i) \<Rightarrow>
                  if cstring type = ''default'' \<and> im_sawpoint st = 0
                  then map_option (\<lambda>d. Inr (st\<lparr>im_def := d\<rparr>)) (strcpy (im_def st) (cstring url))
                  else (case read_coords line i 0 (im_pts st) of
                      None \<Rightarrow> None
                    | Some (Inl msg) \<Rightarrow> Some (Inl (servererr msg))
                    | Some (Inr (k, pts)) \<Rightarrow>
                      if k \<ge> length pts then None
                      else im_region fl env p (cstring type) (cstring url)
                             (st\<lparr>im_pts := pts[k := (- 1, snd (pts ! k))]\<rparr>))))))"

function im_loop :: "(real \<Rightarrow> real) \<Rightarrow> c_env \<Rightarrow> point \<Rightarrow> cbuf \<Rightarrow> c_file \<Rightarrow> im_state \<Rightarrow> im_result option" where
  "im_loop fl env p line f st =
     (case mygetline line MAXLINE f of
        None \<Rightarrow> None
      | Some (line, e, f) \<Rightarrow>
        if e then
          (case rd (im_def st) 0 of
             None \<Rightarrow> None
           | Some c \<Rightarrow>
             if c = NUL then Some (servererr ''No default specified.'')
             else if NUL \<notin> set (im_def st) then None
             else sendmesg env (cstring (im_def st)))
        else (case im_line fl env p line st of
            None \<Rightarrow> None
          | Some (Inl result) \<Rightarrow> Some result
          | Some (Inr st) \<Rightarrow> im_loop fl env p line f st))"
  by pat_completeness auto
termination
  by (relation "measure (\<lambda>(fl, env, p, line, f, st). length (fst f))")
    (auto simp: mygetline_def dest!: getline_loop_shrinks)

text \<open>
  The loop over the configuration file: the line read last and the index behind the name of the map. The copy of the name
  does not stop at the end of the line.
\<close>

function find_conf :: "bytes \<Rightarrow> cbuf \<Rightarrow> c_file \<Rightarrow> (cbuf \<times> nat option) option" where
  "find_conf mapname line f =
     (case mygetline line MAXLINE f of
        None \<Rightarrow> None
      | Some (line, e, f) \<Rightarrow>
        if e then Some (line, None)
        else (case rd line 0 of
            None \<Rightarrow> None
          | Some c \<Rightarrow>
            if c = CHR ''#'' \<or> c = NUL then find_conf mapname line f
            else (case copy_while (\<lambda>c. isname c \<and> c \<noteq> CHR '':'') line 0 (replicate MAXLINE NUL) 0 of
                None \<Rightarrow> None
              | Some (confname, i) \<Rightarrow>
                if cstring confname = mapname then Some (line, Some i) else find_conf mapname line f)))"
  by pat_completeness auto
termination
  by (relation "measure (\<lambda>(mapname, line, f). length (fst f))")
    (auto simp: mygetline_def dest!: getline_loop_shrinks)

declare im_loop.simps [simp del] find_conf.simps [simp del]

text \<open>
  The name of the map file and the line array; \<open>Inl\<close> is the message of \<open>servererr\<close>. When the configuration file cannot be
  opened \<open>conf\<close> keeps the contents \<open>conf0\<close> it has by chance.
\<close>

definition map_file :: "im_system \<Rightarrow> cbuf \<Rightarrow> cbuf \<Rightarrow> bytes \<Rightarrow> (bytes + cbuf \<times> cbuf) option" where
  "map_file sys line conf0 mapname =
     (let translated = (case im_env sys ''PATH_TRANSLATED'' of None \<Rightarrow> None | Some t \<Rightarrow> strcpy conf0 t)
      in if CHR ''/'' \<in> set mapname then map_option (\<lambda>conf. Inr (conf, line)) translated
         else (case im_file sys CONF_FILE of
             None \<Rightarrow> Some (Inr (conf0, line))
           | Some text \<Rightarrow>
             (case find_conf mapname line (text, False) of
                None \<Rightarrow> None
              | Some (line, None) \<Rightarrow>
                (case translated of
                   None \<Rightarrow> None
                 | Some conf \<Rightarrow>
                   if im_regular sys (cstring conf) then Some (Inr (conf, line))
                   else Some (Inl ''Map not found in configuration file.''))
              | Some (line, Some i) \<Rightarrow>
                (case skip_while (\<lambda>c. is_space c \<or> c = CHR '':'') line i of
                   None \<Rightarrow> None
                 | Some i \<Rightarrow>
                   map_option (\<lambda>(conf, i). Inr (conf, line)) (copy_while (\<lambda>c. c \<noteq> NUL \<and> isname c) line i conf0 0)))))"

definition open_map :: "(real \<Rightarrow> real) \<Rightarrow> im_system \<Rightarrow> cbuf \<Rightarrow> point \<Rightarrow> cbuf \<Rightarrow> im_state \<Rightarrow> im_result option" where
  "open_map fl sys line p conf st =
     (if NUL \<notin> set conf then None
      else (case im_file sys (cstring conf) of
          None \<Rightarrow>
            map_option (\<lambda>errstr. servererr (cstring errstr))
              (strcpy (replicate MAXLINE NUL)
                (''Couldn'' @ [CHR 0x27] @ ''t open configuration file: '' @ cstring conf))
        | Some text \<Rightarrow> im_loop fl (im_env sys) p line (text, False) st))"

definition no_map_name :: bytes where
  "no_map_name = ''No map name given. Please read the <A HREF=\"'' @
     ''http://hoohoo.ncsa.uiuc.edu/docs/tutorials/imagemapping.html\">instructions</A>.<P>''"

definition imagemap_main ::
  "(real \<Rightarrow> real) \<Rightarrow> im_system \<Rightarrow> cbuf \<Rightarrow> cbuf \<Rightarrow> cbuf \<Rightarrow> point list \<Rightarrow> real \<Rightarrow> bytes list \<Rightarrow> im_result option" where
  "imagemap_main fl sys line conf0 def0 pts0 mindist0 argv =
     (if length argv \<noteq> 2 then
        Some (servererr ''Wrong number of arguments, client may not support ISMAP.'')
      else (case im_env sys ''PATH_INFO'' of
          None \<Rightarrow> Some (servererr no_map_name)
        | Some info \<Rightarrow>
          if info = [] then Some (servererr no_map_name)
          else
            let click = argv ! 1
            in if CHR '','' \<notin> set click then
                 Some (servererr (''Your client doesn'' @ [CHR 0x27] @ ''t support image mapping properly.''))
               else (case (atoi (takeWhile ((\<noteq>) (CHR '','')) click), atoi (tl (dropWhile ((\<noteq>) (CHR '','')) click))) of
                   (Some x, Some y) \<Rightarrow>
                     (case map_file sys line conf0 (tl info) of
                        None \<Rightarrow> None
                      | Some (Inl msg) \<Rightarrow> Some (servererr msg)
                      | Some (Inr (conf, line)) \<Rightarrow>
                        open_map fl sys line (of_int x, of_int y) conf
                          \<lparr>im_def = def0, im_pts = pts0, im_sawpoint = 0, im_mindist = mindist0\<rparr>)
                 | _ \<Rightarrow> None)))"

section \<open>Correctness of the image map\<close>

subsection \<open>Reading a line\<close>

lemma skip_while_spec:
  assumes "list_all P a" and "\<not> P c"
  shows "skip_while P (pre @ a @ c # rest) (length pre) = Some (length pre + length a)"
  using assms(1)
proof (induction a arbitrary: pre)
  case Nil
  then show ?case using assms(2) by (subst skip_while.simps) (simp add: mem_simps)
next
  case (Cons x a)
  then show ?case using Cons.IH [of "pre @ [x]"] by (subst skip_while.simps) (simp add: mem_simps)
qed

lemma copy_while_loop:
  assumes "list_all P a" and "\<not> P c" and "length a < length v"
  shows "copy_while P (pre @ a @ c # rest) (length pre) (d @ v) (length d) =
    Some (d @ a @ NUL # drop (Suc (length a)) v, length pre + length a)"
  using assms(1,3)
proof (induction a arbitrary: pre d v)
  case Nil
  then obtain e v' where "v = e # v'" by (cases v) auto
  then show ?case using assms(2) by (subst copy_while.simps) (simp add: mem_simps)
next
  case (Cons x a)
  then obtain e v' where "v = e # v'" by (cases v) auto
  then show ?case using Cons Cons.IH [of v' "pre @ [x]" "d @ [x]"] by (subst copy_while.simps) (simp add: mem_simps)
qed

lemma copy_while_spec:
  assumes "list_all P a" and "\<not> P c" and "length a < length v"
  shows "copy_while P (pre @ a @ c # rest) (length pre) v 0 =
    Some (a @ NUL # drop (Suc (length a)) v, length pre + length a)"
  using copy_while_loop [OF assms, of pre rest "[]"] by simp

lemma show_nat_length: "n < 10 ^ k \<Longrightarrow> 0 < k \<Longrightarrow> length (show_nat n) \<le> k"
proof (induction k arbitrary: n)
  case (Suc k)
  show ?case
  proof (cases "n < 10")
    case False
    then have "n div 10 < 10 ^ k" "0 < k" using Suc.prems by (cases k; auto simp: less_mult_imp_div_less mult.commute)+
    then show ?thesis using Suc.IH [of "n div 10"] False by (subst show_nat.simps) simp
  qed (simp add: show_nat.simps)
qed simp

definition coord :: "nat \<Rightarrow> bool" where
  "coord n \<longleftrightarrow> n < 10 ^ 9"

lemma digit_props: "is_digit c \<Longrightarrow> \<not> is_space c \<and> c \<noteq> CHR '','' \<and> c \<noteq> NUL"
  by (auto simp: is_digit_def is_space_def)

lemma read_num_spec:
  assumes "coord n" and "\<not> is_digit c" and "sep = CHR '' '' \<or> sep = CHR '',''"
  shows "read_num (pre @ sep # show_nat n @ c # rest) (length pre) = Some (show_nat n, length pre + 1 + length (show_nat n))"
proof -
  obtain d ds where d: "show_nat n = d # ds" "is_digit d"
    using show_nat_not_Nil [of n] show_nat_digits by (metis list.exhaust list.set_intros(1))
  have "skip_while (\<lambda>c. is_space c \<or> c = CHR '','') (pre @ sep # show_nat n @ c # rest) (length pre) = Some (length pre + 1)"
    using skip_while_spec [of "\<lambda>c. is_space c \<or> c = CHR '',''" "[sep]" d pre "ds @ c # rest"] assms(3) d digit_props [of d]
    by (auto simp: is_space_def)
  moreover have "length (show_nat n) < length (replicate 10 NUL)"
    using show_nat_length [of n 9] assms(1) by (simp add: coord_def)
  then have "copy_while is_digit ((pre @ [sep]) @ show_nat n @ c # rest) (length (pre @ [sep])) (replicate 10 NUL) 0 =
      Some (show_nat n @ NUL # drop (Suc (length (show_nat n))) (replicate 10 NUL), length (pre @ [sep]) + length (show_nat n))"
    using assms(2) by (intro copy_while_spec) (auto simp: list_all_iff dest: show_nat_digits)
  moreover have "NUL \<notin> set (show_nat n)" using show_nat_digits [of NUL n] by (auto simp: is_digit_def)
  ultimately show ?thesis by (simp add: read_num_def)
qed

definition coords_text :: "(nat \<times> nat) list \<Rightarrow> bytes" where
  "coords_text pts = concat (map (\<lambda>(x, y). '' '' @ show_nat x @ '','' @ show_nat y) pts)"

definition real_pt :: "nat \<times> nat \<Rightarrow> point" where
  "real_pt pt = (real (fst pt), real (snd pt))"

lemma atoi_coord: "coord n \<Longrightarrow> atoi (show_nat n) = Some (int n)"
  by (rule atoi_show) (simp add: coord_def)

lemma read_coords_spec:
  assumes "list_all (\<lambda>(x, y). coord x \<and> coord y) pts" and "length pts \<le> length ws"
  shows "read_coords (pre @ coords_text pts @ NUL # rest) (length pre) (length us) (us @ ws) =
    Some (Inr (length us + length pts, us @ map real_pt pts @ drop (length pts) ws))"
  using assms
proof (induction pts arbitrary: pre us ws)
  case Nil
  then show ?case by (subst read_coords.simps) (simp add: coords_text_def mem_simps)
next
  case (Cons pt pts)
  obtain x y where pt: "pt = (x, y)" by fastforce
  obtain w ws' where ws: "ws = w # ws'" using Cons.prems(2) by (cases ws) auto
  have xy: "coord x" "coord y" using Cons.prems(1) pt by simp_all
  let ?line = "pre @ coords_text (pt # pts) @ NUL # rest"
  let ?pre1 = "pre @ CHR '' '' # show_nat x" and ?pre2 = "pre @ CHR '' '' # show_nat x @ CHR '','' # show_nat y"
  obtain c tl where tl: "coords_text pts @ NUL # rest = c # tl" "\<not> is_digit c"
    by (cases pts) (auto simp: coords_text_def is_digit_def split: prod.splits)
  have l: "?line = pre @ CHR '' '' # show_nat x @ CHR '','' # show_nat y @ c # tl"
    "?line = ?pre1 @ CHR '','' # show_nat y @ c # tl" "?line = ?pre2 @ coords_text pts @ NUL # rest"
    using tl(1) pt by (simp_all add: coords_text_def)
  have 1: "read_num ?line (length pre) = Some (show_nat x, length ?pre1)"
    unfolding l(1) using read_num_spec [OF xy(1), of "CHR '',''" "CHR '' ''" pre] by (simp add: is_digit_def)
  have 2: "read_num ?line (length ?pre1) = Some (show_nat y, length ?pre2)"
    unfolding l(2) using read_num_spec [OF xy(2) tl(2), of "CHR '',''" ?pre1] by simp
  have "read_coords ?line (length ?pre2) (length (us @ [real_pt pt])) ((us @ [real_pt pt]) @ ws') =
      Some (Inr (length (us @ [real_pt pt]) + length pts, (us @ [real_pt pt]) @ map real_pt pts @ drop (length pts) ws'))"
    unfolding l(3) using Cons.prems ws by (intro Cons.IH) auto
  moreover have "rd ?line (length pre) = Some (CHR '' '')" unfolding l(1) by (simp add: mem_simps)
  moreover have "(us @ ws)[length us := (of_int (int x), of_int (int y))] = (us @ [real_pt pt]) @ ws'"
    using ws pt by (simp add: real_pt_def)
  ultimately show ?case
    using 1 2 xy ws by (subst read_coords.simps) (simp add: atoi_coord del: of_int_of_nat_eq)
qed

subsection \<open>Map files\<close>

text \<open>The lines of a map file and what they mean for a click.\<close>

datatype map_line =
    Comment bytes
  | Blank
  | Region bytes bytes "(nat \<times> nat) list"

fun line_text :: "map_line \<Rightarrow> bytes" where
  "line_text (Comment s) = CHR ''#'' # s"
| "line_text Blank = []"
| "line_text (Region type url pts) = type @ CHR '' '' # url @ coords_text pts"

fun good_map_line :: "map_line \<Rightarrow> bool" where
  "good_map_line (Region type url pts) \<longleftrightarrow>
     type \<in> {''default'', ''poly'', ''circle'', ''rect'', ''point''} \<and>
     url \<noteq> [] \<and> list_all (\<lambda>c. isname c \<and> c \<noteq> NUL \<and> c \<noteq> CHR 0x04) url \<and>
     list_all (\<lambda>(x, y). coord x \<and> coord y) pts \<and> length pts < 100 \<and>
     (type \<in> {''poly'', ''point''} \<longrightarrow> 1 \<le> length pts) \<and> (type \<in> {''circle'', ''rect''} \<longrightarrow> 2 \<le> length pts) \<and>
     length (line_text (Region type url pts)) < MAXLINE"
| "good_map_line l \<longleftrightarrow> set (line_text l) \<inter> {CR, LF, CHR 0x04} = {} \<and> length (line_text l) < MAXLINE"

record nearest =
  n_url :: bytes
  n_points :: nat
  n_dist :: real

definition contains :: "(real \<Rightarrow> real) \<Rightarrow> point \<Rightarrow> bytes \<Rightarrow> point list \<Rightarrow> bool option" where
  "contains fl p type vs =
     (if type = ''poly'' then Some (odd (crossed_edges fl p (vs @ [hd vs])))
      else if type = ''circle'' then pointincircle fl p vs
      else if type = ''rect'' then Some (pointinrect p vs)
      else Some False)"

definition click_dist :: "(real \<Rightarrow> real) \<Rightarrow> point \<Rightarrow> point \<Rightarrow> real" where
  "click_dist fl p a =
     fl (fl (fl (fst p - fst a) * fl (fst p - fst a)) + fl (fl (snd p - snd a) * fl (snd p - snd a)))"

definition note_point :: "bytes \<Rightarrow> real \<Rightarrow> nearest \<Rightarrow> nearest" where
  "note_point url d a =
     (if n_points a = 0 \<or> d < n_dist a then \<lparr>n_url = url, n_points = n_points a + 1, n_dist = d\<rparr>
      else a\<lparr>n_points := n_points a + 1\<rparr>)"

fun map_answer :: "(real \<Rightarrow> real) \<Rightarrow> c_env \<Rightarrow> point \<Rightarrow> map_line list \<Rightarrow> nearest \<Rightarrow> im_result option" where
  "map_answer fl env p [] a =
     (if n_url a = [] then Some (servererr ''No default specified.'') else sendmesg env (n_url a))"
| "map_answer fl env p (Region type url pts # ls) a =
     (if type = ''default'' \<and> n_points a = 0 then map_answer fl env p ls (a\<lparr>n_url := url\<rparr>)
      else case contains fl p type (map real_pt pts) of
          None \<Rightarrow> None
        | Some True \<Rightarrow> sendmesg env url
        | Some False \<Rightarrow>
          map_answer fl env p ls
            (if type = ''point'' then note_point url (click_dist fl p (real_pt (hd pts))) a else a))"
| "map_answer fl env p (_ # ls) a = map_answer fl env p ls a"

definition near_rel :: "im_state \<Rightarrow> nearest \<Rightarrow> bool" where
  "near_rel st a \<longleftrightarrow> NUL \<in> set (im_def st) \<and> length (im_def st) = MAXLINE \<and> cstring (im_def st) = n_url a \<and>
     length (im_pts st) = 100 \<and> im_sawpoint st = n_points a \<and> im_mindist st = n_dist a"

lemma map_strcpy:
  "length v < length a \<Longrightarrow> NUL \<notin> set v \<Longrightarrow>
   \<exists>a'. strcpy a v = Some a' \<and> cstring a' = v \<and> length a' = length a \<and> NUL \<in> set a'"
  by (simp add: strcpy_def)

lemma region_words:
  assumes "good_map_line (Region type url pts)" and "length ws = 100"
  obtains r1 r2 i j where
    "copy_while (\<lambda>c. isname c \<and> c \<noteq> NUL) (line_text (Region type url pts) @ NUL # r) 0 (replicate MAXLINE NUL) 0 =
      Some (type @ NUL # r1, i)"
    "skip_while is_space (line_text (Region type url pts) @ NUL # r) i = Some (i + 1)"
    "copy_while (\<lambda>c. c \<noteq> NUL \<and> isname c) (line_text (Region type url pts) @ NUL # r) (i + 1) (replicate MAXLINE NUL) 0 =
      Some (url @ NUL # r2, j)"
    "read_coords (line_text (Region type url pts) @ NUL # r) j 0 ws =
      Some (Inr (length pts, map real_pt pts @ drop (length pts) ws))"
proof -
  let ?line = "line_text (Region type url pts) @ NUL # r"
  obtain c tl where tl: "coords_text pts @ NUL # r = c # tl" "c = NUL \<or> is_space c"
    by (cases pts) (auto simp: coords_text_def is_space_def split: prod.splits)
  note good = assms(1) [unfolded good_map_line.simps]
  have url: "url \<noteq> []" "list_all (\<lambda>c. isname c \<and> c \<noteq> NUL \<and> c \<noteq> CHR 0x04) url"
    and pts: "list_all (\<lambda>(x, y). coord x \<and> coord y) pts" "length pts < 100"
    and fits: "length (line_text (Region type url pts)) < MAXLINE" using good by blast+
  obtain u us where u: "url = u # us" "isname u" using url by (cases url) auto
  have l1: "?line = [] @ type @ CHR '' '' # url @ coords_text pts @ NUL # r" by simp
  have l4: "?line = (type @ CHR '' '' # url) @ coords_text pts @ NUL # r" by simp
  have l3: "?line = (type @ [CHR '' '']) @ url @ c # tl" unfolding tl(1) [symmetric] by simp
  have l2: "?line = type @ [CHR '' ''] @ u # us @ coords_text pts @ NUL # r" unfolding u(1) by simp
  have t: "list_all (\<lambda>c. isname c \<and> c \<noteq> NUL) type"
  proof -
    have "type \<in> {''default'', ''poly'', ''circle'', ''rect'', ''point''}" by (rule conjunct1 [OF good])
    then show ?thesis by (auto simp: isname_def is_space_def)
  qed
  have len: "length type < MAXLINE" "length url < MAXLINE" using fits by simp_all
  have "copy_while (\<lambda>c. isname c \<and> c \<noteq> NUL) ?line (length ([] :: bytes)) (replicate MAXLINE NUL) 0 =
      Some (type @ NUL # drop (Suc (length type)) (replicate MAXLINE NUL), length ([] :: bytes) + length type)"
    unfolding l1 using t len(1) by (intro copy_while_spec) (auto simp: isname_def is_space_def)
  moreover have "skip_while is_space ?line (length type) = Some (length type + length [CHR '' ''])"
    unfolding l2 using u(2) by (intro skip_while_spec) (auto simp: isname_def is_space_def)
  moreover have "copy_while (\<lambda>c. c \<noteq> NUL \<and> isname c) ?line (length (type @ [CHR '' ''])) (replicate MAXLINE NUL) 0 =
      Some (url @ NUL # drop (Suc (length url)) (replicate MAXLINE NUL), length (type @ [CHR '' '']) + length url)"
    unfolding l3 using url(2) len(2) tl(2) by (intro copy_while_spec) (auto simp: isname_def list_all_iff)
  moreover have "read_coords ?line (length (type @ CHR '' '' # url)) (length ([] :: point list)) ([] @ ws) =
      Some (Inr (length ([] :: point list) + length pts, [] @ map real_pt pts @ drop (length pts) ws))"
    unfolding l4 using pts assms(2) by (intro read_coords_spec) simp_all
  ultimately show ?thesis by (intro that [of _ "length type"]) simp_all
qed

text \<open>What a line does, in terms of the abstract state; the result of the program is \<open>Inl\<close>.\<close>

definition follows :: "(im_result + im_state) option \<Rightarrow> (im_result + nearest) option \<Rightarrow> bool" where
  "follows c a \<longleftrightarrow>
     (case a of
        None \<Rightarrow> c = None
      | Some (Inl r) \<Rightarrow> c = Some (Inl r)
      | Some (Inr a) \<Rightarrow> \<exists>st. c = Some (Inr st) \<and> near_rel st a)"

definition region_step :: "(real \<Rightarrow> real) \<Rightarrow> c_env \<Rightarrow> point \<Rightarrow> bytes \<Rightarrow> bytes \<Rightarrow> point list \<Rightarrow> nearest \<Rightarrow> (im_result + nearest) option" where
  "region_step fl env p type url vs a =
     (case contains fl p type vs of
        None \<Rightarrow> None
      | Some True \<Rightarrow> map_option Inl (sendmesg env url)
      | Some False \<Rightarrow> Some (Inr (if type = ''point'' then note_point url (click_dist fl p (hd vs)) a else a)))"

lemma follows_hit:
  "follows (map_option Inl x) (map_option Inl x)"
  "near_rel st a \<Longrightarrow> follows (Some (Inr st)) (Some (Inr a))"
  by (cases x) (auto simp: follows_def)

lemma im_region_spec:
  assumes "im_pts st = vs @ (- 1, y) # rest" and "list_all (\<lambda>v. fst v \<noteq> - 1) vs" and "near_rel st a"
    and "type \<in> {''poly'', ''point''} \<longrightarrow> 1 \<le> length vs" and "type \<in> {''circle'', ''rect''} \<longrightarrow> 2 \<le> length vs"
    and "NUL \<notin> set url" and "length url < MAXLINE"
  shows "follows (im_region fl env p type url st) (region_step fl env p type url vs a)"
proof -
  have n0: "im_pts st ! 0 = vs ! 0" if "1 \<le> length vs" using assms(1) that by (cases vs) simp_all
  have n1: "im_pts st ! 1 = vs ! 1" if "2 \<le> length vs" using assms(1) that by (simp add: nth_append)
  consider "type = ''poly''" | "type = ''circle''" | "type = ''rect''" | "type = ''point''"
    | "type \<notin> {''poly'', ''circle'', ''rect'', ''point''}" by blast
  then show ?thesis
  proof cases
    case 1
    then have "pointinpoly fl p (im_pts st) = Some (odd (crossed_edges fl p (vs @ [hd vs])))"
      using pointinpoly_edges [OF assms(2), of fl p y rest] assms(1,4) by auto
    then show ?thesis using 1 assms(3) by (simp add: im_region_def region_step_def contains_def follows_hit)
  next
    case 2
    then have "pointincircle fl p (im_pts st) = pointincircle fl p vs"
      using n0 n1 assms(5) by (simp add: pointincircle_def)
    then show ?thesis
      using 2 assms(3) follows_def [of None None]
      by (cases "pointincircle fl p vs") (simp_all add: im_region_def region_step_def contains_def follows_hit)
  next
    case 3
    then have "pointinrect p (im_pts st) = pointinrect p vs" using n0 n1 assms(5) by (simp add: pointinrect_def)
    then show ?thesis using 3 assms(3) by (simp add: im_region_def region_step_def contains_def follows_hit)
  next
    case 4
    then have h: "im_pts st ! 0 = hd vs" using n0 assms(4) by (cases vs) auto
    obtain d where "strcpy (im_def st) url = Some d" "cstring d = url" "length d = length (im_def st)" "NUL \<in> set d"
      using map_strcpy [of url "im_def st"] assms(3,6,7) by (auto simp: near_rel_def)
    then show ?thesis
      using 4 h assms(3) by (simp add: im_region_def region_step_def contains_def follows_def near_rel_def note_point_def
          click_dist_def Let_def)
  next
    case 5
    then show ?thesis using assms(3) by (simp add: im_region_def region_step_def contains_def follows_def)
  qed
qed

lemma good_region:
  assumes "good_map_line (Region type url pts)"
  shows "type \<in> {''default'', ''poly'', ''circle'', ''rect'', ''point''}" and "NUL \<notin> set url" and "length url < MAXLINE"
    and "length pts < 100" and "type \<in> {''poly'', ''point''} \<longrightarrow> 1 \<le> length pts"
    and "type \<in> {''circle'', ''rect''} \<longrightarrow> 2 \<le> length pts"
proof -
  note good = assms [unfolded good_map_line.simps]
  show "type \<in> {''default'', ''poly'', ''circle'', ''rect'', ''point''}" by (rule conjunct1 [OF good])
  have "list_all (\<lambda>c. isname c \<and> c \<noteq> NUL \<and> c \<noteq> CHR 0x04) url" using good by blast
  then show "NUL \<notin> set url" by (auto simp: list_all_iff)
  have "length (line_text (Region type url pts)) < MAXLINE" using good by blast
  then show "length url < MAXLINE" by simp
  show "length pts < 100" using good by blast
  show "type \<in> {''poly'', ''point''} \<longrightarrow> 1 \<le> length pts" using good by (elim conjE)
  show "type \<in> {''circle'', ''rect''} \<longrightarrow> 2 \<le> length pts" using good by (elim conjE)
qed

lemma im_line_region:
  assumes "good_map_line (Region type url pts)" and "near_rel st a"
  shows "follows (im_line fl env p (line_text (Region type url pts) @ NUL # r) st)
    (if type = ''default'' \<and> n_points a = 0 then Some (Inr (a\<lparr>n_url := url\<rparr>))
     else region_step fl env p type url (map real_pt pts) a)"
proof -
  let ?line = "line_text (Region type url pts) @ NUL # r" and ?ws = "im_pts st" and ?n = "length pts"
  note g = good_region [OF assms(1)]
  have ws: "length ?ws = 100" using assms(2) by (simp add: near_rel_def)
  obtain r1 r2 i j where w: "copy_while (\<lambda>c. isname c \<and> c \<noteq> NUL) ?line 0 (replicate MAXLINE NUL) 0 = Some (type @ NUL # r1, i)"
    "skip_while is_space ?line i = Some (i + 1)"
    "copy_while (\<lambda>c. c \<noteq> NUL \<and> isname c) ?line (i + 1) (replicate MAXLINE NUL) 0 = Some (url @ NUL # r2, j)"
    "read_coords ?line j 0 ?ws = Some (Inr (?n, map real_pt pts @ drop ?n ?ws))"
    by (rule region_words [OF assms(1) ws, of r])
  obtain c where c: "rd ?line 0 = Some c" "c \<noteq> CHR ''#''" "c \<noteq> NUL" using g(1) by (auto simp: rd_def)
  have "NUL \<notin> set type" using g(1) by auto
  then have t: "cstring (type @ NUL # r1) = type" "cstring (url @ NUL # r2) = url" using g(2) by simp_all
  define rest where "rest = drop (Suc ?n) ?ws"
  have split: "drop ?n ?ws = ?ws ! ?n # rest" using ws g(4) by (simp add: Cons_nth_drop_Suc rest_def)
  define st2 where "st2 = st\<lparr>im_pts := map real_pt pts @ (- 1, snd (?ws ! ?n)) # rest\<rparr>"
  have line: "im_line fl env p ?line st =
      (if type = ''default'' \<and> im_sawpoint st = 0
       then map_option (\<lambda>d. Inr (st\<lparr>im_def := d\<rparr>)) (strcpy (im_def st) url)
       else im_region fl env p type url st2)"
    unfolding im_line_def c(1) option.case w(1) prod.case w(2,3,4) t split
    using c(2,3) by (simp add: st2_def nth_append list_update_append)
  show ?thesis
  proof (cases "type = ''default'' \<and> n_points a = 0")
    case True
    obtain d where "strcpy (im_def st) url = Some d" "cstring d = url" "length d = length (im_def st)" "NUL \<in> set d"
      using map_strcpy [of url "im_def st"] assms(2) g(2,3) by (auto simp: near_rel_def)
    then show ?thesis using True assms(2) line by (simp add: near_rel_def follows_def)
  next
    case False
    have "near_rel st2 a"
      using assms(2) ws g(4) arg_cong [OF split, of length] by (simp add: st2_def near_rel_def)
    then have "follows (im_region fl env p type url st2) (region_step fl env p type url (map real_pt pts) a)"
      using g by (intro im_region_spec) (auto simp: st2_def list_all_iff real_pt_def)
    moreover have "im_sawpoint st = n_points a" using assms(2) by (simp add: near_rel_def)
    ultimately show ?thesis using False line by (simp only: if_False)
  qed
qed

definition map_text :: "map_line list \<Rightarrow> bytes" where
  "map_text ls = concat (map (\<lambda>l. line_text l @ [LF]) ls)"

lemma coords_text_chars: "set (coords_text pts) \<inter> {CR, LF, CHR 0x04} = {}"
proof -
  have "set (show_nat n) \<inter> {CR, LF, CHR 0x04} = {}" for n
    using show_nat_digits [of _ n] by (fastforce simp: is_digit_def)
  then show ?thesis by (auto simp: coords_text_def split: prod.splits)
qed

lemma isname_chars: "\<not> isname CR" "\<not> isname LF"
  by (simp_all add: isname_def is_space_def)

lemma line_text_chars:
  assumes "good_map_line l"
  shows "set (line_text l) \<inter> {CR, LF, CHR 0x04} = {}" and "length (line_text l) < MAXLINE"
proof -
  have "set (line_text l) \<inter> {CR, LF, CHR 0x04} = {} \<and> length (line_text l) < MAXLINE"
  proof (cases l)
    case (Region type url pts)
    note good = assms [unfolded Region good_map_line.simps]
    have "type \<in> {''default'', ''poly'', ''circle'', ''rect'', ''point''}" by (rule conjunct1 [OF good])
    then have t: "set type \<inter> {CR, LF, CHR 0x04} = {}" by (elim insertE emptyE) simp_all
    have "list_all (\<lambda>c. isname c \<and> c \<noteq> NUL \<and> c \<noteq> CHR 0x04) url" using good by (elim conjE)
    then have u: "set url \<inter> {CR, LF, CHR 0x04} = {}" using isname_chars by (auto simp: list_all_iff)
    have "length (line_text l) < MAXLINE" unfolding Region using good by (elim conjE)
    then show ?thesis using t u coords_text_chars [of pts] by (simp add: Region Int_Un_distrib2)
  qed (use assms in simp_all)
  then show "set (line_text l) \<inter> {CR, LF, CHR 0x04} = {}" and "length (line_text l) < MAXLINE" by blast+
qed

lemma map_answer_step:
  assumes "good_map_line l" and "near_rel st a"
  shows "\<exists>x. follows (im_line fl env p (line_text l @ NUL # r) st) x \<and>
    map_answer fl env p (l # ls) a =
      (case x of None \<Rightarrow> None | Some (Inl result) \<Rightarrow> Some result | Some (Inr a) \<Rightarrow> map_answer fl env p ls a)"
proof (cases l)
  case (Region type url pts)
  have hd: "type = ''point'' \<Longrightarrow> hd (map real_pt pts) = real_pt (hd pts)"
    using good_region(5) [OF assms(1) [unfolded Region]] by (cases pts) auto
  have "map_answer fl env p (l # ls) a =
      (case (if type = ''default'' \<and> n_points a = 0 then Some (Inr (a\<lparr>n_url := url\<rparr>))
             else region_step fl env p type url (map real_pt pts) a) of
         None \<Rightarrow> None | Some (Inl result) \<Rightarrow> Some result | Some (Inr a) \<Rightarrow> map_answer fl env p ls a)"
    using hd by (auto simp: Region region_step_def split: option.splits bool.splits)
  then show ?thesis using im_line_region [OF assms [unfolded Region]] unfolding Region by blast
next
  case Blank
  then have "im_line fl env p (line_text l @ NUL # r) st = Some (Inr st)" by (simp add: im_line_def rd_def)
  then show ?thesis using follows_hit(2) [OF assms(2)] Blank by fastforce
next
  case (Comment s)
  then have "im_line fl env p (line_text l @ NUL # r) st = Some (Inr st)" by (simp add: im_line_def rd_def)
  then show ?thesis using follows_hit(2) [OF assms(2)] Comment by fastforce
qed

lemma im_loop_spec:
  assumes "list_all good_map_line ls" and "near_rel st a" and "length line = MAXLINE"
  shows "im_loop fl env p line (map_text ls, False) st = map_answer fl env p ls a"
  using assms
proof (induction ls arbitrary: line st a)
  case Nil
  obtain s where "mygetline line MAXLINE ([], False) = Some (s, True, ([], True))"
    using mygetline_end [OF Nil.prems(3)] by (auto simp: MAXLINE_def)
  moreover obtain r where "im_def st = n_url a @ NUL # r" "NUL \<notin> set (n_url a)"
    using terminated_split [of "im_def st"] Nil.prems(2) by (auto simp: near_rel_def)
  moreover from this have "rd (im_def st) 0 = Some (hd (n_url a @ [NUL]))" "n_url a = [] \<longleftrightarrow> hd (n_url a @ [NUL]) = NUL"
    by (cases "n_url a"; auto simp: rd_def)+
  ultimately show ?case
    by (subst im_loop.simps) (simp add: map_text_def)
next
  case (Cons l ls)
  have good: "good_map_line l" "list_all good_map_line ls" using Cons.prems(1) by simp_all
  obtain r where r: "mygetline line MAXLINE (line_text l @ LF # map_text ls, False) =
      Some (line_text l @ NUL # r, False, (map_text ls, False))" "length (line_text l @ NUL # r) = MAXLINE"
    using mygetline_spec [OF line_text_chars [OF good(1)] Cons.prems(3)] by blast
  obtain x where x: "follows (im_line fl env p (line_text l @ NUL # r) st) x"
    "map_answer fl env p (l # ls) a =
      (case x of None \<Rightarrow> None | Some (Inl result) \<Rightarrow> Some result | Some (Inr a) \<Rightarrow> map_answer fl env p ls a)"
    using map_answer_step [OF good(1) Cons.prems(2)] by blast
  have IH: "near_rel st' a' \<Longrightarrow> im_loop fl env p (line_text l @ NUL # r) (map_text ls, False) st' = map_answer fl env p ls a'"
    for st' a' by (rule Cons.IH [OF good(2) _ r(2)])
  have lines: "map_text (l # ls) = line_text l @ LF # map_text ls" by (simp add: map_text_def)
  show ?case
    unfolding x(2) lines using x(1) IH r(1)
    by (subst im_loop.simps) (auto simp: follows_def split: option.splits sum.splits)
qed

text \<open>
  C34. A click on an image whose map is named in the new style is answered as the map says: the lines are taken in order, the
  first region that holds the click (a polygon by the even-odd rule) ends the program with a redirection to its URL; otherwise
  the URL of the nearest point decides, or, in a map without points, the last default. The answer does not depend on what the
  arrays \<open>input\<close>, \<open>conf\<close> and \<open>pointarray\<close> held before, but it does depend on the array \<open>def\<close>, which the program never
  initialises.
\<close>

theorem imagemap_answers:
  assumes "im_env sys ''PATH_INFO'' = Some (CHR ''/'' # name)" and "CHR ''/'' \<in> set name"
    and "im_env sys ''PATH_TRANSLATED'' = Some t" and "NUL \<notin> set t" and "length t < length conf0"
    and "im_file sys t = Some (map_text ls)" and "list_all good_map_line ls"
    and "length line = MAXLINE" and "length def0 = MAXLINE" and "NUL \<in> set def0" and "length pts0 = 100"
    and "x < 2 ^ 31" and "y < 2 ^ 31"
  shows "imagemap_main fl sys line conf0 def0 pts0 d0 [prog, show_nat x @ CHR '','' # show_nat y] =
    map_answer fl (im_env sys) (real_pt (x, y)) ls \<lparr>n_url = cstring def0, n_points = 0, n_dist = d0\<rparr>"
proof -
  obtain conf where conf: "strcpy conf0 t = Some conf" "cstring conf = t" "NUL \<in> set conf"
    using map_strcpy [OF assms(5,4)] by blast
  have digits: "takeWhile ((\<noteq>) (CHR '','')) (show_nat x @ CHR '','' # r) = show_nat x"
    "dropWhile ((\<noteq>) (CHR '','')) (show_nat x @ CHR '','' # r) = CHR '','' # r" for r
    using show_nat_digits [of _ x] by (fastforce simp: takeWhile_append dropWhile_append is_digit_def)+
  have "near_rel \<lparr>im_def = def0, im_pts = pts0, im_sawpoint = 0, im_mindist = d0\<rparr>
      \<lparr>n_url = cstring def0, n_points = 0, n_dist = d0\<rparr>"
    using assms(9-11) by (simp add: near_rel_def)
  from im_loop_spec [OF assms(7) this assms(8)] show ?thesis
    using assms(1-3,6,12,13) conf
    by (simp add: imagemap_main_def map_file_def open_map_def digits atoi_show real_pt_def)
qed

theorem imagemap_answers_witness:
  "let env = (\<lambda>_. None)(''PATH_INFO'' \<mapsto> ''/imagemap/m'', ''PATH_TRANSLATED'' \<mapsto> ''/m'', ''SERVER_NAME'' \<mapsto> ''h'');
       ls = [Region ''default'' ''/d'' [], Region ''rect'' ''/r'' [(0, 0), (5, 6)]];
       sys = \<lparr>im_env = env, im_file = [''/m'' \<mapsto> map_text ls], im_regular = (\<lambda>_. True)\<rparr>
   in imagemap_main (\<lambda>r. r) sys (replicate MAXLINE NUL) (replicate MAXLINE NUL) (replicate MAXLINE NUL)
        (replicate 100 (0, 0)) 0 [''imagemap'', show_nat 3 @ CHR '','' # show_nat 4] = sendmesg env ''/r''"
  unfolding Let_def
  by (subst imagemap_answers [where name = "''imagemap/m''" and t = "''/m''"
        and ls = "[Region ''default'' ''/d'' [], Region ''rect'' ''/r'' [(0, 0), (5, 6)]]"])
    (simp_all add: MAXLINE_def contains_def pointinrect_def real_pt_def coords_text_def isname_def is_space_def coord_def show_nat.simps)

end
