(* ===== verification/Daytime.thy ===== *)
theory Daytime
imports Cgi_Query "HOL-Library.Word"
begin

text \<open>
  The daytime server (\<open>src/legacy/daytime-server.cc\<close>): the name of the client in an array on the stack, the greeting and the
  loop over connections. The bytes of a client are those that \<open>read\<close> delivers until it returns zero or fails; the results
  of \<open>write\<close> are not used by the code, and the model records what is handed to it. \<^const>\<open>None\<close> is undefined behaviour.
\<close>

section \<open>The program\<close>

definition usage :: bytes where
  "usage =
     ''                                                               '' @ [LF] @
     ''daytime-server:                                                '' @ [LF] @
     ''                                                               '' @ [LF] @
     ''Simple server program that shows how to use socket calls       '' @ [LF] @
     ''in the server side.                                            '' @ [LF] @
     ''                                                               '' @ [LF] @
     ''To use it in one window type:                                  '' @ [LF] @
     ''                                                               '' @ [LF] @
     ''   daytime-server <port>                                       '' @ [LF] @
     ''                                                               '' @ [LF] @
     ''Where 1024 < port < 65536.             '' @ [LF] @
     ''                                                               '' @ [LF] @
     ''In another window type:                                       '' @ [LF] @
     ''                                                               '' @ [LF] @
     ''   telnet <host> <port>                                        '' @ [LF] @
     ''                                                               '' @ [LF] @
     ''where <host> is the name of the machine where daytime-server  '' @ [LF] @
     ''is running. <port> is the port number you used when you run   '' @ [LF] @
     ''daytime-server.                                               '' @ [LF] @
     ''                                                               '' @ [LF] @
     ''Then type your name and return. You will get a greeting and   '' @ [LF] @
     ''the time of the day.                                          '' @ [LF] @
     ''                                                               '' @ [LF]"

definition MaxName :: nat where
  "MaxName = 1024"

fun read_name :: "bytes \<Rightarrow> cbuf \<Rightarrow> nat \<Rightarrow> char \<Rightarrow> (cbuf \<times> nat) option" where
  "read_name [] name nameLength lastChar = Some (name, nameLength)"
| "read_name (newChar # input) name nameLength lastChar =
     (if nameLength < MaxName then
        if lastChar = CR \<and> newChar = LF then (if nameLength = 0 then None else Some (name, nameLength - 1))
        else (case wr name nameLength newChar of
            None \<Rightarrow> None
          | Some name \<Rightarrow> read_name input name (nameLength + 1) newChar)
      else Some (name, nameLength))"

record session =
  se_stdout :: bytes
  se_writes :: "bytes list"

text \<open>\<open>name0\<close> is what the array holds before and \<open>timeString\<close> the answer of \<open>ctime\<close>, a null pointer when it fails.\<close>

definition processTimeRequest :: "cbuf \<Rightarrow> bytes \<Rightarrow> bytes option \<Rightarrow> session option" where
  "processTimeRequest name0 input timeString =
     (let prompt = LF # ''Type your name:'' in
      case read_name input name0 0 NUL of
        None \<Rightarrow> None
      | Some (name, nameLength) \<Rightarrow>
        (case wr name nameLength NUL of
           None \<Rightarrow> None
         | Some name \<Rightarrow>
           let hi = LF # ''Hi ''; timeIs = '' the time is:'' @ [LF]; newline = [LF]
           in map_option (\<lambda>timeString.
                \<lparr>se_stdout = ''name='' @ cstring name @ [LF],
                 se_writes = [prompt, hi, cstring name, timeIs, timeString, newline]\<rparr>) timeString))"

record daytime_system =
  dt_socket :: int
  dt_bind :: "16 word \<Rightarrow> int"
  dt_listen :: "int \<Rightarrow> int"

datatype daytime_end =
    Usage bytes
  | Perror bytes
  | Serving

definition QueueLength :: int where
  "QueueLength = 5"

text \<open>A connection is the contents of the array, the bytes of the client and the time; \<open>None\<close> is a failing \<open>accept\<close>.\<close>

fun daytime_loop :: "(cbuf \<times> bytes \<times> bytes option) option list \<Rightarrow> (session list \<times> daytime_end) option" where
  "daytime_loop [] = Some ([], Serving)"
| "daytime_loop (None # cs) = Some ([], Perror ''accept'')"
| "daytime_loop (Some (name0, input, timeString) # cs) =
     (case processTimeRequest name0 input timeString of
        None \<Rightarrow> None
      | Some s \<Rightarrow> map_option (\<lambda>(ss, e). (s # ss, e)) (daytime_loop cs))"

definition daytime_main ::
  "daytime_system \<Rightarrow> bytes list \<Rightarrow> (cbuf \<times> bytes \<times> bytes option) option list \<Rightarrow> (session list \<times> daytime_end) option" where
  "daytime_main sys argv cs =
     (if length argv < 2 then Some ([], Usage usage)
      else (case atoi (argv ! 1) of
          None \<Rightarrow> None
        | Some port \<Rightarrow>
          if dt_socket sys < 0 then Some ([], Perror ''socket'')
          else if dt_bind sys (word_of_int port) \<noteq> 0 then Some ([], Perror ''bind'')
          else if dt_listen sys QueueLength \<noteq> 0 then Some ([], Perror ''listen'')
          else daytime_loop cs))"

section \<open>Correctness of the greeting\<close>

fun first_line :: "bytes \<Rightarrow> bytes" where
  "first_line [] = []"
| "first_line (c # s) = (if c = CR \<and> s \<noteq> [] \<and> hd s = LF then [] else c # first_line s)"

definition client_name :: "bytes \<Rightarrow> bytes" where
  "client_name input = first_line (take MaxName input)"

definition greeting :: "bytes \<Rightarrow> bytes \<Rightarrow> session" where
  "greeting name time =
     \<lparr>se_stdout = ''name='' @ name @ [LF],
      se_writes = [LF # ''Type your name:'', LF # ''Hi '', name, '' the time is:'' @ [LF], time, [LF]]\<rparr>"

definition name_so_far :: "bytes \<Rightarrow> bytes \<Rightarrow> bytes" where
  "name_so_far d i = (if d \<noteq> [] \<and> last d = CR \<and> i \<noteq> [] \<and> hd i = LF then butlast d else d @ first_line i)"

lemma name_so_far_step:
  "\<not> (d \<noteq> [] \<and> last d = CR \<and> c = LF) \<Longrightarrow> name_so_far d (c # i) = name_so_far (d @ [c]) i"
  by (auto simp: name_so_far_def)

lemma read_name_spec:
  assumes "length d \<le> MaxName" and "length d + length r = MaxName + 1"
  shows "\<exists>r'. read_name input (d @ r) (length d) (if d = [] then NUL else last d) =
      Some (name_so_far d (take (MaxName - length d) input) @ r', length (name_so_far d (take (MaxName - length d) input))) \<and>
      r' \<noteq> []"
  using assms
proof (induction input arbitrary: d r)
  case Nil
  then have "r \<noteq> []" by auto
  then show ?case by (simp add: name_so_far_def)
next
  case (Cons c input)
  show ?case
  proof (cases "length d < MaxName")
    case False
    then have "length d = MaxName" "r \<noteq> []" using Cons.prems by auto
    then show ?thesis by (simp add: name_so_far_def)
  next
    case True
    then obtain m where m: "MaxName - length d = Suc m" "MaxName - length (d @ [c]) = m" by (cases "MaxName - length d") auto
    show ?thesis
    proof (cases "d \<noteq> [] \<and> last d = CR \<and> c = LF")
      case True
      then obtain d' where "d = d' @ [CR]" by (cases d rule: rev_cases) auto
      then show ?thesis using True \<open>length d < MaxName\<close> m(1) by (simp add: name_so_far_def)
    next
      case False
      obtain e r1 where r: "r = e # r1" using Cons.prems True by (cases r) auto
      have "\<exists>r'. read_name input ((d @ [c]) @ r1) (length (d @ [c])) (if d @ [c] = [] then NUL else last (d @ [c])) =
          Some (name_so_far (d @ [c]) (take (MaxName - length (d @ [c])) input) @ r',
            length (name_so_far (d @ [c]) (take (MaxName - length (d @ [c])) input))) \<and> r' \<noteq> []"
        using Cons.prems True r by (intro Cons.IH) auto
      moreover have "read_name (c # input) (d @ r) (length d) (if d = [] then NUL else last d) =
          read_name input ((d @ [c]) @ r1) (length (d @ [c])) (if d @ [c] = [] then NUL else last (d @ [c]))"
        using True False r by (auto simp: mem_simps)
      ultimately show ?thesis unfolding m by (simp only: take_Suc_Cons name_so_far_step [OF False])
    qed
  qed
qed

lemma processTimeRequest_spec:
  assumes "length name0 = MaxName + 1"
  shows "processTimeRequest name0 input (Some time) = Some (greeting (cstring (client_name input)) time)"
proof -
  have "name_so_far [] i = first_line i" for i by (simp add: name_so_far_def)
  then obtain r where r: "read_name input name0 0 NUL = Some (client_name input @ r, length (client_name input))" "r \<noteq> []"
    using read_name_spec [of "[]" name0 input] assms by (auto simp: client_name_def)
  then obtain e r' where "r = e # r'" by (cases r) auto
  moreover have "cstring (s @ NUL # r') = cstring s" for s by (induction s) (auto simp: cstring_def)
  ultimately show ?thesis
    using r(1) by (simp add: processTimeRequest_def greeting_def mem_simps)
qed

lemma first_line_plain: "CR \<notin> set s \<Longrightarrow> first_line (s @ CR # LF # r) = s"
  by (induction s) auto

lemma client_name_line:
  assumes "CR \<notin> set s" and "length s + 1 < MaxName"
  shows "client_name (s @ CR # LF # r) = s"
proof -
  define m where "m = MaxName - length s - 2"
  then have "MaxName - length s = Suc (Suc m)" using assms(2) by simp
  then show ?thesis using assms first_line_plain [of s] by (simp add: client_name_def)
qed

text \<open>
  C37. Whatever its clients send, the daytime server stays within the array of the name: every connection gets the prompt and then
  a greeting with its name, which is what it sent before the first carriage return and line feed, cut at 1024 bytes and at a
  null byte. It serves until \<open>accept\<close> fails.
\<close>

theorem daytime_greets:
  assumes "atoi port = Some n" and "dt_socket sys \<ge> 0" and "dt_bind sys (word_of_int n) = 0" and "dt_listen sys QueueLength = 0"
    and "list_all (\<lambda>(name0, input, time). length name0 = MaxName + 1) cs"
  shows "daytime_main sys (prog # port # args) (map (\<lambda>(name0, input, time). Some (name0, input, Some time)) cs @ rest) =
    (let ss = map (\<lambda>(name0, input, time). greeting (cstring (client_name input)) time) cs
     in map_option (\<lambda>(more, e). (ss @ more, e)) (daytime_loop rest))"
proof -
  have "daytime_loop (map (\<lambda>(name0, input, time). Some (name0, input, Some time)) cs @ rest) =
      map_option (\<lambda>(more, e). (map (\<lambda>(name0, input, time). greeting (cstring (client_name input)) time) cs @ more, e))
        (daytime_loop rest)"
    using assms(5)
  proof (induction cs)
    case Nil
    then show ?case by (cases "daytime_loop rest") auto
  next
    case (Cons c cs)
    then show ?case by (cases c; cases "daytime_loop rest") (auto simp: processTimeRequest_spec)
  qed
  then show ?thesis using assms(1-4) by (simp add: daytime_main_def)
qed

theorem daytime_greets_witness:
  "daytime_main \<lparr>dt_socket = 3, dt_bind = (\<lambda>p. if p = 8080 then 0 else - 1), dt_listen = (\<lambda>n. 0)\<rparr> [''daytime'', show_nat 8080]
     [Some (replicate 1025 NUL, ''Ada'' @ [CR, LF], Some ''noon''), None] =
   Some ([greeting ''Ada'' ''noon''], Perror ''accept'')"
proof -
  have "atoi (show_nat 8080) = Some 8080" using atoi_show [of 8080] by simp
  then show ?thesis
    using daytime_greets [of "show_nat 8080" 8080 "\<lparr>dt_socket = 3, dt_bind = (\<lambda>p. if p = 8080 then 0 else - 1), dt_listen = (\<lambda>n. 0)\<rparr>"
        "[(replicate 1025 NUL, ''Ada'' @ [CR, LF], ''noon'')]" "''daytime''" "[]" "[None]"]
      client_name_line [of "''Ada''" "[]"]
    by (simp add: MaxName_def cstring_def)
qed

end
