(* ===== verification/Loader_Demo.thy ===== *)
theory Loader_Demo
imports Http_Prelude
begin

text \<open>
  The demonstration of the dynamic loader: the module \<open>src/legacy/hello.cc\<close> and the program \<open>src/legacy/use-dlopen.cc\<close> that
  loads and calls it. \<^const>\<open>None\<close> is undefined behaviour.
\<close>

datatype demo_call =
    Fprintf_stderr bytes
  | Perror_call bytes
  | Fprintf_socket bytes
  | Fclose_socket

text \<open>\<open>httprun\<close> goes on with a null stream when \<open>fdopen\<close> fails.\<close>

definition httprun :: "(int \<Rightarrow> bool) \<Rightarrow> int \<Rightarrow> bytes \<Rightarrow> demo_call list option" where
  "httprun fdopen_ok ssock query_string =
     (if \<not> fdopen_ok ssock then None
      else Some [Fprintf_socket (''Content-type: text/html'' @ [LF, LF]),
                 Fprintf_socket (''<h1>Hello. Hi from hello.so</h1>'' @ [LF]), Fclose_socket])"

type_synonym http_module = "bytes \<rightharpoonup> (int \<Rightarrow> bytes \<Rightarrow> demo_call list option)"

definition use_dlopen :: "(bytes \<rightharpoonup> http_module) \<Rightarrow> (demo_call list \<times> int) option" where
  "use_dlopen libs =
     (case libs ''./hello.so'' of
        None \<Rightarrow> Some ([Fprintf_stderr (''./hello.so not found'' @ [LF]), Perror_call ''dlopen''], 1)
      | Some lib \<Rightarrow>
        (case lib ''httprun'' of
           None \<Rightarrow> Some ([Perror_call ''dlsym: httprun not found:''], 1)
         | Some hello_httprun \<Rightarrow> map_option (\<lambda>calls. (calls, 0)) (hello_httprun 1 ''a=b&c=d'')))"

text \<open>The module behind the program: a page on standard output, unless no stream can be opened on it.\<close>

lemma use_dlopen_hello:
  "use_dlopen [''./hello.so'' \<mapsto> [''httprun'' \<mapsto> httprun fdopen_ok]] =
     (if fdopen_ok 1
      then Some ([Fprintf_socket (''Content-type: text/html'' @ [LF, LF]),
                  Fprintf_socket (''<h1>Hello. Hi from hello.so</h1>'' @ [LF]), Fclose_socket], 0)
      else None)"
  by (simp add: use_dlopen_def httprun_def)

end
