(* ===== verification/Legacy_Httpd.thy ===== *)
theory Legacy_Httpd
  imports Cgi_Query
begin

section \<open>The legacy server\<close>

text \<open>
  Models \<open>legacy/myhttpd.cc\<close>. The answers of the operating system are a record; the buffers
  given to \<open>sendAll\<close> are the effects of a request, and what they put on the wire is modelled
  by \<open>sendAll\<close> itself. The statistics and the log are the state. \<^const>\<open>None\<close> is undefined
  behaviour. Service times are real numbers; how \<open>double\<close> values are printed is a
  parameter.
\<close>

subsection \<open>Environment and state\<close>

record file_stat =
  st_dir :: bool
  st_size :: int
  st_mtime :: int

record dir_entry =
  de_name :: bytes
  de_size :: int
  de_mtime :: int
  de_is_dir :: bool

record httpd_env =
  he_stat :: "bytes \<Rightarrow> file_stat option"
  he_opendir :: "bytes \<Rightarrow> bytes list option"
  he_open :: "bytes \<Rightarrow> bytes option"
  he_strftime :: "int \<Rightarrow> bytes"
  he_sort :: "(dir_entry \<Rightarrow> dir_entry \<Rightarrow> bool) \<Rightarrow> dir_entry list \<Rightarrow> dir_entry list"
  he_show_double :: "real \<Rightarrow> bytes"
  he_uptime :: real
  he_service_time :: real
  he_log_opens :: bool
  he_send_result :: "nat \<Rightarrow> int"
  he_environ :: c_env
  he_fork :: bool
  he_pipe :: bool
  he_line_buffered :: bool
  he_stdout_pending :: bytes
  he_execv :: "bytes \<Rightarrow> c_env \<Rightarrow> bytes \<Rightarrow> bytes option"

record httpd_state =
  log_file :: "bytes option"
  total_requests :: int
  min_service :: real
  max_service :: real
  min_url :: bytes
  max_url :: bytes

definition AUTH_TOKEN :: bytes where
  "AUTH_TOKEN = ''Basic <redacted>''"

definition REALM :: bytes where
  "REALM = ''myhttpd-cs252''"

definition MaxRequestSize :: nat where
  "MaxRequestSize = 8192"

definition start_state :: httpd_state where
  "start_state = \<lparr>log_file = None, total_requests = 0, min_service = - 1, max_service = - 1, min_url = [], max_url = []\<rparr>"

subsection \<open>Sending\<close>

text \<open>\<open>sendAll\<close> on the successive answers of \<open>write\<close>: the bytes written and the value returned.\<close>

fun sendAll_loop :: "int list \<Rightarrow> bytes \<Rightarrow> nat \<Rightarrow> (bytes \<times> int) option" where
  "sendAll_loop [] buf pos = (if pos < length buf then None else Some ([], int pos))"
| "sendAll_loop (sent # ws) buf pos =
     (if pos < length buf then
        if sent \<le> 0 then Some ([], sent)
        else map_option (\<lambda>(out, r). (take (nat sent) (drop pos buf) @ out, r))
               (sendAll_loop ws buf (pos + nat sent))
      else Some ([], int pos))"

definition sendAll :: "int list \<Rightarrow> bytes \<Rightarrow> (bytes \<times> int) option" where
  "sendAll ws buf = sendAll_loop ws buf 0"

definition html_header :: "bytes \<Rightarrow> nat \<Rightarrow> bytes" where
  "html_header status n = status @ CRLF @ ''Content-Length: '' @ show_nat n @ CRLF @ ''Content-Type: text/html'' @ CRLF @ CRLF"

definition html_response :: "bytes \<Rightarrow> bytes \<Rightarrow> bytes list" where
  "html_response status body = [html_header status (length body), body]"

subsection \<open>CGI\<close>

definition split_query :: "bytes \<Rightarrow> bytes \<times> bytes" where
  "split_query url =
     (case sv_find [CHR ''?''] url of
        Some qm \<Rightarrow> (substr url 0 qm, drop (qm + 1) url)
      | None \<Rightarrow> (url, []))"

definition cgi_env :: "c_env \<Rightarrow> bytes \<Rightarrow> bytes \<Rightarrow> bytes \<Rightarrow> c_env" where
  "cgi_env inherited method queryString requestBody =
     (let env = inherited(''REQUEST_METHOD'' \<mapsto> method)
      in if method = ''GET'' then env(''QUERY_STRING'' \<mapsto> queryString)
         else if method = ''POST'' then env(''CONTENT_LENGTH'' \<mapsto> show_nat (length requestBody))
         else env)"

definition cgi_header :: bytes where
  "cgi_header = ''HTTP/1.0 200 Document follows'' @ CRLF @ ''Server: MyHTTPD'' @ CRLF"

text \<open>
  What the client receives from \<open>handleCGI\<close>. The header lines go to \<open>std::cout\<close>. They are sent at once when
  that stream is line buffered. Otherwise they stay in the buffer, behind what the
  server itself has not flushed, and a successful \<open>execv\<close> discards the buffer with the process image;
  when \<open>execv\<close> fails, \<open>exit\<close> writes it out.
\<close>

definition handleCGI :: "httpd_env \<Rightarrow> bytes \<Rightarrow> bytes \<Rightarrow> bytes \<Rightarrow> bytes" where
  "handleCGI env method url requestBody =
     (let (scriptPath, queryString) = split_query url;
          script = drop (length ''/cgi-bin/'') scriptPath;
          scriptFullPath = ''http-root-dir/cgi-bin/'' @ script;
          pending = (if he_line_buffered env then [] else he_stdout_pending env)
      in if \<not> he_fork env then []
         else if method = ''POST'' \<and> \<not> he_pipe env then pending
         else case he_execv env scriptFullPath (cgi_env (he_environ env) method queryString requestBody)
                  (if method = ''POST'' then requestBody else []) of
             Some out \<Rightarrow> (if he_line_buffered env then cgi_header else []) @ out
           | None \<Rightarrow> pending @ cgi_header)"

subsection \<open>Statistics and logs\<close>

definition stats_page :: "httpd_env \<Rightarrow> httpd_state \<Rightarrow> bytes" where
  "stats_page env st =
     ''<html><body>'' @ [LF] @ ''<h1>Server Stats</h1>'' @ [LF] @ ''<ul>'' @ [LF] @
     ''<li>Students: Annsh Navle</li>'' @ [LF] @
     ''<li>Uptime: '' @ he_show_double env (he_uptime env) @ '' seconds</li>'' @ [LF] @
     ''<li>Total Requests: '' @ show_int (total_requests st) @ ''</li>'' @ [LF] @
     ''<li>Min Service Time: '' @ he_show_double env (min_service st) @ '' seconds ('' @ min_url st @ '')</li>'' @ [LF] @
     ''<li>Max Service Time: '' @ he_show_double env (max_service st) @ '' seconds ('' @ max_url st @ '')</li>'' @ [LF] @
     ''</ul>'' @ [LF] @ ''</body></html>'' @ [LF]"

definition handleStats :: "httpd_env \<Rightarrow> httpd_state \<Rightarrow> bytes list" where
  "handleStats env st =
     html_response ''HTTP/1.0 200 OK'' (stats_page env st)"

text \<open>\<open>getline\<close> until it fails: the lines of a text, the last one also without its newline.\<close>

fun text_lines :: "bytes \<Rightarrow> bytes \<Rightarrow> bytes list" where
  "text_lines acc [] = (if acc = [] then [] else [acc])"
| "text_lines acc (c # s) = (if c = LF then acc # text_lines [] s else text_lines (acc @ [c]) s)"

definition handleLogs :: "httpd_state \<Rightarrow> bytes list" where
  "handleLogs st =
     (case log_file st of
        None \<Rightarrow>
          html_response ''HTTP/1.0 404 Not Found'' ''<html><body><h1>No logs available</h1></body></html>''
      | Some text \<Rightarrow>
          html_response ''HTTP/1.0 200 OK''
            (''<html><body>'' @ [LF] @ ''<h1>Request Logs</h1>'' @ [LF] @ ''<pre>'' @ [LF] @
             concat (map (\<lambda>l. l @ [LF]) (text_lines [] text)) @ ''</pre>'' @ [LF] @ ''</body></html>'' @ [LF]))"

subsection \<open>Directory listings\<close>

fun bytes_less :: "bytes \<Rightarrow> bytes \<Rightarrow> bool" where
  "bytes_less [] b = (b \<noteq> [])"
| "bytes_less (x # a) [] = False"
| "bytes_less (x # a) (y # b) =
     (of_char x < (of_char y :: nat) \<or> x = y \<and> bytes_less a b)"

definition cmp_entries :: "char \<Rightarrow> char \<Rightarrow> (dir_entry \<Rightarrow> dir_entry \<Rightarrow> bool) option" where
  "cmp_entries sortField sortOrder =
     (if sortField = CHR ''N'' then
        Some (if sortOrder = CHR ''D'' then (\<lambda>a b. bytes_less (de_name b) (de_name a))
              else (\<lambda>a b. bytes_less (de_name a) (de_name b)))
      else if sortField = CHR ''S'' then
        Some (if sortOrder = CHR ''D'' then (\<lambda>a b. de_size a > de_size b) else (\<lambda>a b. de_size a < de_size b))
      else if sortField = CHR ''M'' then
        Some (if sortOrder = CHR ''D'' then (\<lambda>a b. de_mtime a > de_mtime b) else (\<lambda>a b. de_mtime a < de_mtime b))
      else None)"

fun read_entries :: "httpd_env \<Rightarrow> bytes \<Rightarrow> bytes list \<Rightarrow> dir_entry list" where
  "read_entries env path [] = []"
| "read_entries env path (entryName # names) =
     (if entryName = ''.'' \<or> entryName = ''..'' then read_entries env path names
      else case he_stat env (path @ ''/'' @ entryName) of
          None \<Rightarrow> read_entries env path names
        | Some sb \<Rightarrow>
          \<lparr>de_name = entryName, de_size = st_size sb, de_mtime = st_mtime sb, de_is_dir = st_dir sb\<rparr>
            # read_entries env path names)"

definition sort_entries :: "httpd_env \<Rightarrow> char \<Rightarrow> char \<Rightarrow> dir_entry list \<Rightarrow> dir_entry list" where
  "sort_entries env sortField sortOrder entries =
     (case cmp_entries sortField sortOrder of Some cmp \<Rightarrow> he_sort env cmp entries | None \<Rightarrow> entries)"

definition sort_options :: "bytes \<Rightarrow> char \<times> char" where
  "sort_options query =
     ((case sv_find ''C='' query of
         Some c_pos \<Rightarrow> if c_pos + 2 < length query then query ! (c_pos + 2) else CHR ''N''
       | None \<Rightarrow> CHR ''N''),
      (case sv_find ''O='' query of
         Some o_pos \<Rightarrow> if o_pos + 2 < length query then query ! (o_pos + 2) else CHR ''A''
       | None \<Rightarrow> CHR ''A''))"

definition sort_link :: "char \<Rightarrow> char \<Rightarrow> char \<Rightarrow> bytes" where
  "sort_link field sortField sortOrder =
     ''<th><a href=\"?C='' @ [field] @ '';O='' @ (if sortField = field \<and> sortOrder = CHR ''A'' then ''D'' else ''A'') @ ''\">''"

text \<open>\<open>url.substr(0, url.find_last_of('/', url.length() - 2))\<close> on an url of at least two characters.\<close>

definition parent_url :: "bytes \<Rightarrow> bytes" where
  "parent_url url =
     (let upto = take (length url - 1) url;
          parent = (if CHR ''/'' \<in> set upto then butlast (rev (dropWhile (\<lambda>c. c \<noteq> CHR ''/'') (rev upto))) else url)
      in if parent = [] then ''/'' else parent @ ''/'')"

definition parent_row :: "bytes \<Rightarrow> bytes" where
  "parent_row url =
     (if url \<noteq> ''/'' then
        ''<tr>'' @
        ''<td valign=\"top\"><img src=\"/icons/back.gif\" alt=\"[PARENTDIR]\"></td>'' @
        ''<td><a href=\"'' @ parent_url url @ ''\">Parent Directory</a></td>'' @
        ''<td align=\"right\">&nbsp;</td>'' @
        ''<td align=\"right\"> - </td>'' @
        ''<td>&nbsp;</td>'' @
        ''</tr>'' @ [LF]
      else [])"

definition entry_row :: "httpd_env \<Rightarrow> bytes \<Rightarrow> dir_entry \<Rightarrow> bytes" where
  "entry_row env url e =
     (let icon = (if de_is_dir e then ''/icons/folder.gif'' else ''/icons/text.gif'');
          altText = (if de_is_dir e then ''[DIR]'' else ''[FILE]'')
      in ''<tr>'' @
         ''<td valign=\"top\"><img src=\"'' @ icon @ ''\" alt=\"'' @ altText @ ''\"></td>'' @
         ''<td><a href=\"'' @ url @ (if last url \<noteq> CHR ''/'' then ''/'' else []) @ de_name e @
         (if de_is_dir e then ''/'' else []) @ ''\">'' @ de_name e @ ''</a></td>'' @
         ''<td align=\"right\">'' @ he_strftime env (de_mtime e) @ ''</td>'' @
         (if de_is_dir e then ''<td align=\"right\"> - </td>''
          else ''<td align=\"right\">'' @ show_int (de_size e) @ ''</td>'') @
         ''<td>&nbsp;</td>'' @ ''</tr>'' @ [LF])"

definition index_page :: "httpd_env \<Rightarrow> bytes \<Rightarrow> char \<Rightarrow> char \<Rightarrow> dir_entry list \<Rightarrow> bytes" where
  "index_page env url sortField sortOrder entries =
     ''<html><body>'' @ [LF] @ ''<h1>Index of '' @ url @ ''</h1>'' @ [LF] @ ''<table>'' @ [LF] @
     ''<tr><th valign=\"top\"><img src=\"/icons/blank.gif\" alt=\"[ICO]\"</th>'' @
     sort_link (CHR ''N'') sortField sortOrder @ ''Name</a></th>'' @
     sort_link (CHR ''M'') sortField sortOrder @ ''Last modified</a></th>'' @
     sort_link (CHR ''S'') sortField sortOrder @ ''Size</a></th></tr>'' @ [LF] @
     ''<tr><th colspan=\"4\"><hr></th></tr>'' @ [LF] @
     parent_row url @
     concat (map (entry_row env url) entries) @
     ''<tr><th colspan=\"4\"><hr></th></tr>'' @ [LF] @ ''</table>'' @ [LF] @ ''</body></html>'' @ [LF]"

subsection \<open>One request\<close>

definition isspace_c :: "char \<Rightarrow> bool" where
  "isspace_c c \<longleftrightarrow> c \<in> {CHR 0x20, CHR 0x09, CHR 0x0A, CHR 0x0B, CHR 0x0C, CHR 0x0D}"

definition next_token :: "bytes \<Rightarrow> bytes \<times> bytes" where
  "next_token s =
     (let s = dropWhile isspace_c s
      in (takeWhile (\<lambda>c. \<not> isspace_c c) s, dropWhile (\<lambda>c. \<not> isspace_c c) s))"

definition append_log :: "httpd_env \<Rightarrow> bytes \<Rightarrow> bytes \<Rightarrow> httpd_state \<Rightarrow> httpd_state" where
  "append_log env clientIP url st =
     (if he_log_opens env then
        st\<lparr>log_file := Some ((case log_file st of Some old \<Rightarrow> old | None \<Rightarrow> []) @ clientIP @ '' '' @ url @ [LF])\<rparr>
      else st)"

definition authorized :: "bytes \<Rightarrow> bool" where
  "authorized fullRequest \<longleftrightarrow> sv_find (''Authorization: '' @ AUTH_TOKEN) fullRequest \<noteq> None"

definition unauthorized :: bytes where
  "unauthorized =
     ''HTTP/1.0 401 Unauthorized'' @ CRLF @ ''WWW-Authenticate: Basic realm=\"'' @ REALM @ ''\"'' @ CRLF @
     ''Content-Length: 0'' @ CRLF @ CRLF"

definition not_implemented :: bytes where
  "not_implemented = ''HTTP/1.0 501 Not Implemented'' @ CRLF @ ''Content-Length: 0'' @ CRLF @ CRLF"

definition moved :: "bytes \<Rightarrow> bytes" where
  "moved url =
     ''HTTP/1.0 301 Moved Permanently'' @ CRLF @ ''Location: '' @ url @ ''/'' @ CRLF @ ''Content-Length: 0'' @ CRLF @ CRLF"

text \<open>\<open>fullRequest.substr(pos + 4)\<close>, where \<open>pos\<close> may be \<open>npos\<close>.\<close>

definition request_body :: "bytes \<Rightarrow> bytes option" where
  "request_body fullRequest =
     (let pos = (case sv_find CRLF2 fullRequest of Some p \<Rightarrow> of_nat p | None \<Rightarrow> - 1);
          start = unat (pos + 4 :: size_t)
      in if start \<le> length fullRequest then Some (drop start fullRequest) else None)"

text \<open>The document in blocks of 4096 bytes, until one of them cannot be sent.\<close>

function file_chunks :: "(nat \<Rightarrow> int) \<Rightarrow> nat \<Rightarrow> bytes \<Rightarrow> bytes list" where
  "file_chunks send_result i content =
     (if content = [] then []
      else take 4096 content #
        (if send_result i < 0 then [] else file_chunks send_result (i + 1) (drop 4096 content)))"
  by pat_completeness auto
termination
  by (relation "measure (\<lambda>(send_result, i, content). length content)") auto

declare file_chunks.simps [simp del]

definition update_stats :: "real \<Rightarrow> bytes \<Rightarrow> httpd_state \<Rightarrow> httpd_state option" where
  "update_stats serviceTime url st =
     (if total_requests st = 2147483647 then None
      else
        let st = st\<lparr>total_requests := total_requests st + 1\<rparr>;
            st = (if min_service st < 0 \<or> serviceTime < min_service st
                  then st\<lparr>min_service := serviceTime, min_url := url\<rparr> else st);
            st = (if serviceTime > max_service st
                  then st\<lparr>max_service := serviceTime, max_url := url\<rparr> else st)
        in Some st)"

definition not_found_page :: bytes where
  "not_found_page = ''<html><body><h1>404 Not Found</h1></body></html>''"

definition serve_directory :: "httpd_env \<Rightarrow> bytes \<Rightarrow> bytes \<Rightarrow> char \<Rightarrow> char \<Rightarrow> (bytes list \<times> bool) option" where
  "serve_directory env path url sortField sortOrder =
     (if url = [] then None
      else if last url \<noteq> CHR ''/'' then Some ([moved url], False)
      else case he_opendir env path of
          None \<Rightarrow> Some (html_response ''HTTP/1.0 404 Not Found'' not_found_page, False)
        | Some names \<Rightarrow>
          let entries = sort_entries env sortField sortOrder (read_entries env path names)
          in Some (html_response ''HTTP/1.0 200 OK'' (index_page env url sortField sortOrder entries), True))"

definition send_document :: "httpd_env \<Rightarrow> bytes \<Rightarrow> int \<Rightarrow> bytes list \<times> bool" where
  "send_document env path len =
     (case he_open env path of
        None \<Rightarrow> ([], False)
      | Some content \<Rightarrow>
        ((''HTTP/1.0 200 OK'' @ CRLF @ ''Content-Length: '' @ show_int len @ CRLF @
          ''Content-Type: text/html'' @ CRLF @ CRLF) # file_chunks (he_send_result env) 0 content, True))"

text \<open>
  The part of \<open>handleClient\<close> behind \<open>/htdocs\<close>. The flag says whether the function reaches the
  update of the statistics or returns before.
\<close>

definition serve_path :: "httpd_env \<Rightarrow> bytes \<Rightarrow> char \<Rightarrow> char \<Rightarrow> (bytes list \<times> bool) option" where
  "serve_path env url sortField sortOrder =
     (let path = ''http-root-dir'' @ ''/htdocs'' @ url
      in case he_stat env path of
          Some sb \<Rightarrow>
            if st_dir sb then serve_directory env path url sortField sortOrder
            else Some (send_document env path (st_size sb))
        | None \<Rightarrow>
            Some (html_response ''HTTP/1.0 404 Not Found'' (not_found_page @ [LF]), True))"

definition serve_document :: "httpd_env \<Rightarrow> bytes \<Rightarrow> httpd_state \<Rightarrow> (bytes list \<times> httpd_state) option" where
  "serve_document env url st =
     (let (url, query) = split_query url; (sortField, sortOrder) = sort_options query
      in case serve_path env url sortField sortOrder of
          None \<Rightarrow> None
        | Some (out, finished) \<Rightarrow>
          if finished then map_option (\<lambda>st. (out, st)) (update_stats (he_service_time env) url st)
          else Some (out, st))"

definition dispatch :: "httpd_env \<Rightarrow> bytes \<Rightarrow> bytes \<Rightarrow> bytes \<Rightarrow> httpd_state \<Rightarrow> (bytes list \<times> httpd_state) option" where
  "dispatch env method url fullRequest st =
     (let url = (if url = ''/'' then ''/index.html'' else url)
      in if url = ''/stats'' then Some (handleStats env st, st)
         else if url = ''/logs'' then Some (handleLogs st, st)
         else case request_body fullRequest of
             None \<Rightarrow> None
           | Some requestBody \<Rightarrow>
             if sv_find ''/cgi-bin/'' url = Some 0 then Some ([handleCGI env method url requestBody], st)
             else serve_document env url st)"

text \<open>The method and the url of the request line.\<close>

definition read_request_line :: "bytes \<Rightarrow> bytes \<times> bytes" where
  "read_request_line fullRequest = (let (method, rest) = next_token fullRequest in (method, fst (next_token rest)))"

text \<open>\<open>input\<close> is what \<open>read\<close> delivers, nothing when it fails or the stream has ended.\<close>

definition handleClient :: "httpd_env \<Rightarrow> bytes \<Rightarrow> bytes \<Rightarrow> httpd_state \<Rightarrow> (bytes list \<times> httpd_state) option" where
  "handleClient env clientIP input st =
     (let request = take MaxRequestSize input
      in if request = [] then Some ([], st)
         else
           let fullRequest = takeWhile (\<lambda>c. c \<noteq> NUL) request;
               (method, url) = read_request_line fullRequest;
               st = append_log env clientIP url st
           in if \<not> authorized fullRequest then Some ([unauthorized], st)
              else if method \<noteq> ''GET'' \<and> method \<noteq> ''POST'' then Some ([not_implemented], st)
              else dispatch env method url fullRequest st)"

subsection \<open>The program\<close>

definition httpd_options :: "bytes list \<Rightarrow> (char \<times> int) option" where
  "httpd_options argv =
     (if length argv \<ge> 2 then
        let arg = argv ! 1 @ [NUL]
        in if arg ! 0 = CHR ''-'' then
             map_option (\<lambda>port. (arg ! 1, port)) (if length argv \<ge> 3 then atoi (argv ! 2) else Some 42069)
           else map_option (\<lambda>port. (CHR ''i'', port)) (atoi (argv ! 1))
      else Some (CHR ''i'', 42069))"

datatype httpd_start =
    Start_failed bytes bool
  | Listening "16 word" bytes

definition httpd_listen :: "int \<Rightarrow> bool \<Rightarrow> bool \<Rightarrow> bool \<Rightarrow> bool \<Rightarrow> httpd_start" where
  "httpd_listen port socket_ok setsockopt_ok bind_ok listen_ok =
     (if \<not> socket_ok then Start_failed ''socket'' False
      else if \<not> setsockopt_ok then Start_failed ''setsockopt'' True
      else if \<not> bind_ok then Start_failed ''bind'' True
      else if \<not> listen_ok then Start_failed ''listen'' True
      else Listening (word_of_int port) (''Server listening on port '' @ show_int port @ ''...'' @ [LF]))"

text \<open>
  A connection is the environment while it is served, the address of the client and what \<open>read\<close>
  delivers; the loops run over the answers of \<open>accept\<close>. A forked child starts from the state of the
  server and leaves only the log file behind.
\<close>

type_synonym client = "httpd_env \<times> bytes \<times> bytes"

fun serve_iterative :: "client option list \<Rightarrow> httpd_state \<Rightarrow> (bytes list list \<times> httpd_state) option" where
  "serve_iterative [] st = Some ([], st)"
| "serve_iterative (None # cs) st = serve_iterative cs st"
| "serve_iterative (Some (env, ip, input) # cs) st =
     (case handleClient env ip input st of
        None \<Rightarrow> None
      | Some (out, st) \<Rightarrow> map_option (\<lambda>(outs, st). (out # outs, st)) (serve_iterative cs st))"

fun serve_forking :: "(client \<times> bool) option list \<Rightarrow> httpd_state \<Rightarrow> (bytes list list \<times> httpd_state) option" where
  "serve_forking [] st = Some ([], st)"
| "serve_forking (None # cs) st = serve_forking cs st"
| "serve_forking (Some ((env, ip, input), forked) # cs) st =
     (if \<not> forked then map_option (\<lambda>(outs, st). ([] # outs, st)) (serve_forking cs st)
      else case handleClient env ip input st of
        None \<Rightarrow> None
      | Some (out, child) \<Rightarrow>
        map_option (\<lambda>(outs, st). (out # outs, st)) (serve_forking cs (st\<lparr>log_file := log_file child\<rparr>)))"

section \<open>Correctness of the legacy server\<close>

subsection \<open>Sending\<close>

lemma sendAll_loop_prefix:
  "sendAll_loop ws buf pos = Some (out, r) \<Longrightarrow>
     prefix out (drop pos buf) \<and> (0 < r \<longrightarrow> out = drop pos buf)"
proof (induction ws buf pos arbitrary: out rule: sendAll_loop.induct)
  case (1 buf pos)
  then show ?case by (auto split: if_splits)
next
  case (2 sent ws buf pos)
  show ?case
  proof (cases "pos < length buf \<and> 0 < sent")
    case True
    then obtain out' where rest: "sendAll_loop ws buf (pos + nat sent) = Some (out', r)"
      "out = take (nat sent) (drop pos buf) @ out'" using "2.prems" by auto
    have "drop pos buf = take (nat sent) (drop pos buf) @ drop (pos + nat sent) buf"
      by (metis append_take_drop_id drop_drop add.commute)
    then show ?thesis using "2.IH" [OF _ _ rest(1)] True rest(2) by (metis same_prefix_prefix not_le)
  next
    case False
    then show ?thesis using "2.prems" by (auto split: if_splits)
  qed
qed

subsection \<open>Responses of the server itself\<close>

text \<open>
  A framed response has a status line, header lines free of line breaks, one of which
  announces the length of the body, an empty line and that body.
\<close>

definition no_break :: "bytes \<Rightarrow> bool" where
  "no_break s \<longleftrightarrow> CR \<notin> set s \<and> LF \<notin> set s"

definition framed :: "bytes \<Rightarrow> bool" where
  "framed out \<longleftrightarrow> (\<exists>status fs body.
     out = concat (map (\<lambda>l. l @ CRLF) (status # fs)) @ CRLF @ body \<and>
     list_all no_break (status # fs) \<and>
     (''Content-Length: '' @ show_nat (length body)) \<in> set fs)"

lemma framedI:
  "out = concat (map (\<lambda>l. l @ CRLF) (status # fs)) @ CRLF @ body \<Longrightarrow>
   list_all no_break (status # fs) \<Longrightarrow>
   (''Content-Length: '' @ show_nat (length body)) \<in> set fs \<Longrightarrow> framed out"
  unfolding framed_def by blast

lemma show_nat_no_break [simp]: "CR \<notin> set (show_nat n)" "LF \<notin> set (show_nat n)"
  using show_nat_digits [of CR n] show_nat_digits [of LF n] by (auto simp: is_digit_def)

lemma framed_html: "no_break status \<Longrightarrow> framed (concat (html_response status body))"
  by (rule framedI [of _ status "[''Content-Length: '' @ show_nat (length body), ''Content-Type: text/html'']" body])
    (auto simp: html_response_def html_header_def no_break_def)

lemma framed_unauthorized: "framed unauthorized"
  by (rule framedI [of _ "''HTTP/1.0 401 Unauthorized''"
        "[''WWW-Authenticate: Basic realm=\"'' @ REALM @ ''\"'', ''Content-Length: 0'']" "[]"])
    (auto simp: unauthorized_def REALM_def no_break_def show_nat.simps digit_char_def char_of_def bit_0)

lemma framed_not_implemented: "framed not_implemented"
  by (rule framedI [of _ "''HTTP/1.0 501 Not Implemented''" "[''Content-Length: 0'']" "[]"])
    (auto simp: not_implemented_def no_break_def show_nat.simps digit_char_def char_of_def bit_0)

lemma framed_moved: "no_break url \<Longrightarrow> framed (moved url)"
  by (rule framedI [of _ "''HTTP/1.0 301 Moved Permanently''" "[''Location: '' @ url @ ''/'', ''Content-Length: 0'']" "[]"])
    (auto simp: moved_def no_break_def show_nat.simps digit_char_def char_of_def bit_0)

lemma concat_file_chunks:
  "(\<And>i. 0 \<le> send_result i) \<Longrightarrow> concat (file_chunks send_result i content) = content"
proof (induction send_result i content rule: file_chunks.induct)
  case (1 send_result i content)
  then have "\<not> send_result i < 0" by (simp add: not_less)
  then show ?case using 1 by (subst file_chunks.simps) simp
qed

lemma framed_file:
  assumes "he_open env path = Some content" and "\<And>i. 0 \<le> he_send_result env i"
  shows "framed (concat (fst (send_document env path (int (length content)))))"
proof -
  have "concat (fst (send_document env path (int (length content)))) =
      concat (html_response ''HTTP/1.0 200 OK'' content)"
    using assms by (simp add: send_document_def html_response_def html_header_def show_int_def concat_file_chunks)
  then show ?thesis by (simp add: framed_html no_break_def)
qed

lemma next_token_no_space: "c \<in> set (fst (next_token s)) \<Longrightarrow> \<not> isspace_c c"
  by (auto simp: next_token_def Let_def dest: set_takeWhileD)

lemma next_token_no_break: "no_break (fst (next_token s))"
  using next_token_no_space [of _ s] by (auto simp: no_break_def isspace_c_def)

lemma split_query_no_break: "no_break url \<Longrightarrow> no_break (fst (split_query url))"
  by (auto simp: split_query_def no_break_def substr_def dest: in_set_takeD split: option.splits)

text \<open>A file system whose \<open>stat\<close> reports the size of what \<open>open\<close> and \<open>read\<close> deliver.\<close>

definition sizes_agree :: "httpd_env \<Rightarrow> bool" where
  "sizes_agree env \<longleftrightarrow> (\<forall>path sb content. he_stat env path = Some sb \<longrightarrow> \<not> st_dir sb \<longrightarrow>
     he_open env path = Some content \<longrightarrow> st_size sb = int (length content))"

lemma serve_directory_framed:
  "serve_directory env path url sortField sortOrder = Some (out, fin) \<Longrightarrow> no_break url \<Longrightarrow> framed (concat out)"
  by (auto simp: serve_directory_def Let_def framed_moved framed_html no_break_def split: if_splits option.splits)

lemma serve_path_framed:
  assumes "serve_path env url sortField sortOrder = Some (out, fin)" and "no_break url"
    and "sizes_agree env" and "\<And>i. 0 \<le> he_send_result env i" and "out \<noteq> []"
  shows "framed (concat out)"
proof -
  define path where "path = ''http-root-dir'' @ ''/htdocs'' @ url"
  note served = assms(1) [unfolded serve_path_def Let_def, folded path_def]
  show ?thesis
  proof (cases "he_stat env path")
    case None
    then show ?thesis using served framed_html [of "''HTTP/1.0 404 Not Found''" "not_found_page @ [LF]"]
      by (auto simp: no_break_def)
  next
    case (Some sb)
    show ?thesis
    proof (cases "st_dir sb")
      case True
      then show ?thesis using served Some assms(2) serve_directory_framed by simp
    next
      case False
      then have doc: "send_document env path (st_size sb) = (out, fin)" using served Some by simp
      then obtain content where "he_open env path = Some content"
        using assms(5) by (auto simp: send_document_def split: option.splits)
      then show ?thesis
        using framed_file [OF _ assms(4)] doc False Some assms(3) by (metis fst_conv sizes_agree_def)
    qed
  qed
qed

lemma serve_document_cases:
  assumes "serve_document env url st = Some (out, st')"
  obtains fin where "serve_path env (fst (split_query url)) (fst (sort_options (snd (split_query url))))
      (snd (sort_options (snd (split_query url)))) = Some (out, fin)"
    and "if fin then update_stats (he_service_time env) (fst (split_query url)) st = Some st' else st' = st"
  using assms by (auto simp: serve_document_def Let_def split: prod.splits option.splits if_splits)

lemma update_stats_cases:
  "update_stats t url st = Some st' \<Longrightarrow> total_requests st' = total_requests st + 1 \<and> log_file st' = log_file st"
  by (auto simp: update_stats_def Let_def split: if_splits)

lemma framed_stats: "framed (concat (handleStats env st))"
  by (simp add: handleStats_def Let_def framed_html no_break_def)

lemma framed_logs: "framed (concat (handleLogs st))"
  by (simp add: handleLogs_def Let_def framed_html no_break_def split: option.split)

lemma read_request_line_no_break: "read_request_line s = (method, url) \<Longrightarrow> no_break url"
  by (auto simp: read_request_line_def next_token_no_break split: prod.splits)

lemma sv_find_zero: "sv_find pat s = Some 0 \<longleftrightarrow> prefix pat s"
  by (auto simp: sv_find_Some_iff)

lemma dispatch_framed:
  assumes "dispatch env method url fullRequest st = Some (out, st')" and "no_break url"
    and "sizes_agree env" and "\<And>i. 0 \<le> he_send_result env i" and "out \<noteq> []"
    and "\<not> prefix ''/cgi-bin/'' url"
  shows "framed (concat out)"
proof -
  define target where "target = (if url = ''/'' then ''/index.html'' else url)"
  have target: "no_break target" "\<not> prefix ''/cgi-bin/'' target"
    using assms(2,6) by (auto simp: target_def no_break_def)
  consider "out = handleStats env st" | "out = handleLogs st" | "serve_document env target st = Some (out, st')"
    using assms(1) target(2) unfolding dispatch_def Let_def target_def [symmetric]
    by (auto simp: sv_find_zero split: if_splits option.splits)
  then show ?thesis
  proof cases
    case 3
    then show ?thesis
      by (rule serve_document_cases)
        (rule serve_path_framed [OF _ split_query_no_break [OF target(1)] assms(3-5)])
  qed (simp_all add: framed_stats framed_logs)
qed

text \<open>
  C27. Every response of the legacy server that does not come from a CGI program is a complete HTTP message: a
  status line and header lines without embedded line breaks, whatever the client put
  into the url, an empty line, and a body of exactly the announced length. (This needs
  files whose size \<open>stat\<close> reports correctly and a client that takes the data.)
\<close>

theorem legacy_framed:
  assumes "handleClient env clientIP input st = Some (out, st')" and "out \<noteq> []"
    and "sizes_agree env" and "\<And>i. 0 \<le> he_send_result env i"
    and "\<not> prefix ''/cgi-bin/'' (snd (read_request_line (takeWhile (\<lambda>c. c \<noteq> NUL) (take MaxRequestSize input))))"
  shows "framed (concat out)"
proof -
  define full where "full = takeWhile (\<lambda>c. c \<noteq> NUL) (take MaxRequestSize input)"
  obtain m url where line: "read_request_line full = (m, url)" by fastforce
  have "out = [unauthorized] \<or> out = [not_implemented] \<or>
      dispatch env m url full (append_log env clientIP url st) = Some (out, st')"
    using assms(1,2) line unfolding handleClient_def Let_def full_def [symmetric] by (auto split: if_splits)
  then show ?thesis
    using dispatch_framed [OF _ read_request_line_no_break [OF line] assms(3,4,2)] assms(5) line
      framed_unauthorized framed_not_implemented unfolding full_def [symmetric] by auto
qed

text \<open>
  C28. Without the credentials in the request the legacy server answers 401 and nothing else: the
  response and the new state are the same whatever the file system, the CGI programs and
  the statistics are, and only the log changes.
\<close>

theorem legacy_unauthorized:
  assumes "\<not> authorized (takeWhile (\<lambda>c. c \<noteq> NUL) (take MaxRequestSize input))" and "input \<noteq> []"
    and "he_log_opens env' = he_log_opens env"
  shows "handleClient env clientIP input st = handleClient env' clientIP input st \<and>
    (\<exists>log. handleClient env clientIP input st = Some ([unauthorized], st\<lparr>log_file := log\<rparr>))"
proof -
  have "take MaxRequestSize input \<noteq> []" using assms(2) by (simp add: MaxRequestSize_def)
  moreover have "\<exists>log. append_log env clientIP url st = st\<lparr>log_file := log\<rparr>" for url
    by (cases st) (auto simp: append_log_def)
  moreover have "append_log env' clientIP url st = append_log env clientIP url st" for url
    using assms(3) by (simp add: append_log_def)
  ultimately show ?thesis using assms(1) by (auto simp: handleClient_def Let_def split: prod.splits)
qed

subsection \<open>Directory listings\<close>

definition strict_weak :: "('a \<Rightarrow> 'a \<Rightarrow> bool) \<Rightarrow> bool" where
  "strict_weak cmp \<longleftrightarrow> (\<forall>a. \<not> cmp a a) \<and> (\<forall>a b c. cmp a b \<longrightarrow> cmp b c \<longrightarrow> cmp a c) \<and>
     (\<forall>a b c. \<not> cmp a b \<longrightarrow> \<not> cmp b c \<longrightarrow> \<not> cmp a c)"

text \<open>What \<open>std::sort\<close> promises for a comparison that is a strict weak ordering.\<close>

definition sort_law :: "((dir_entry \<Rightarrow> dir_entry \<Rightarrow> bool) \<Rightarrow> dir_entry list \<Rightarrow> dir_entry list) \<Rightarrow> bool" where
  "sort_law sort_by \<longleftrightarrow> (\<forall>cmp xs. strict_weak cmp \<longrightarrow>
     mset (sort_by cmp xs) = mset xs \<and> sorted_wrt (\<lambda>a b. \<not> cmp b a) (sort_by cmp xs))"

lemma bytes_less_irrefl: "\<not> bytes_less a a"
  by (induction a) auto

lemma bytes_less_trans: "bytes_less a b \<Longrightarrow> bytes_less b c \<Longrightarrow> bytes_less a c"
proof (induction a b arbitrary: c rule: bytes_less.induct)
  case (1 b)
  then show ?case by (cases c; cases b) auto
next
  case (3 x a y b)
  then show ?case by (cases c) auto
qed simp

lemma bytes_less_linear: "bytes_less a b \<or> a = b \<or> bytes_less b a"
proof (induction a b rule: bytes_less.induct)
  case (3 x a y b)
  have "of_char x < (of_char y :: nat) \<or> x = y \<or> of_char y < (of_char x :: nat)"
    by (metis linorder_neqE_nat of_char_eq_iff)
  then show ?case using 3 by auto
next
  case (1 b)
  then show ?case by (cases b) auto
qed simp

lemma strict_weak_bytes: "strict_weak (\<lambda>a b. bytes_less (f a) (f b))" "strict_weak (\<lambda>a b. bytes_less (f b) (f a))"
  unfolding strict_weak_def by (metis bytes_less_irrefl bytes_less_linear bytes_less_trans)+

lemma strict_weak_int:
  fixes f :: "'a \<Rightarrow> int"
  shows "strict_weak (\<lambda>a b. f a < f b)" "strict_weak (\<lambda>a b. f b < f a)"
  unfolding strict_weak_def by auto

lemma cmp_entries_strict_weak: "cmp_entries sortField sortOrder = Some cmp \<Longrightarrow> strict_weak cmp"
  by (auto simp: cmp_entries_def strict_weak_bytes strict_weak_int split: if_splits)

lemma split_query_none: "CHR ''?'' \<notin> set url \<Longrightarrow> split_query url = (url, [])"
  by (simp add: split_query_def sv_find_char_None [THEN iffD2])

lemma split_query_hit: "CHR ''?'' \<notin> set a \<Longrightarrow> split_query (a @ CHR ''?'' # b) = (a, b)"
  by (simp add: split_query_def sv_simps substr_def)

text \<open>The order a listing is asked for, by the lexicographic order of the bytes of the names or by a number.\<close>

definition listed_before :: "char \<Rightarrow> char \<Rightarrow> dir_entry \<Rightarrow> dir_entry \<Rightarrow> bool" where
  "listed_before field direction a b \<longleftrightarrow>
     (let (x, y) = (if direction = CHR ''D'' then (b, a) else (a, b))
      in if field = CHR ''N'' then lexordp_eq (map of_char (de_name x)) (map of_char (de_name y) :: nat list)
         else if field = CHR ''S'' then de_size x \<le> de_size y
         else de_mtime x \<le> de_mtime y)"

text \<open>The row of an entry below a url that ends with a slash: icon, link, date, size.\<close>

definition listing_row :: "httpd_env \<Rightarrow> bytes \<Rightarrow> dir_entry \<Rightarrow> bytes" where
  "listing_row env url e =
     (let cell = (\<lambda>s. ''<td align=\"right\">'' @ s @ ''</td>'')
      in ''<tr><td valign=\"top\"><img src=\"/icons/'' @
         (if de_is_dir e then ''folder.gif\" alt=\"[DIR]'' else ''text.gif\" alt=\"[FILE]'') @ ''\"></td>'' @
         ''<td><a href=\"'' @ url @ (if de_is_dir e then de_name e @ ''/'' else de_name e) @ ''\">'' @ de_name e @ ''</a></td>'' @
         cell (he_strftime env (de_mtime e)) @ cell (if de_is_dir e then '' - '' else show_int (de_size e)) @
         ''<td>&nbsp;</td></tr>'' @ [LF])"

lemma entry_row_listing: "last url = CHR ''/'' \<Longrightarrow> entry_row env url e = listing_row env url e"
  by (simp add: entry_row_def listing_row_def Let_def)

lemma bytes_less_lexord: "bytes_less a b \<longleftrightarrow> ord_class.lexordp (map of_char a) (map of_char b :: nat list)"
  by (induction a b rule: bytes_less.induct) (auto simp: neq_Nil_conv)

lemma not_bytes_less: "\<not> bytes_less b a \<longleftrightarrow> lexordp_eq (map of_char a) (map of_char b :: nat list)"
  unfolding bytes_less_lexord by (metis lexordp_conv_lexordp_eq lexordp_eq_linear lexordp_eq_antisym lexordp_eq_refl)

lemma cmp_entries_order:
  assumes "field \<in> {CHR ''N'', CHR ''S'', CHR ''M''}"
  obtains cmp where "cmp_entries field direction = Some cmp" "\<And>a b. \<not> cmp b a \<longleftrightarrow> listed_before field direction a b"
  using assms by (auto simp: cmp_entries_def listed_before_def not_bytes_less not_less)

lemma read_entries_mset:
  "mset (map de_name (read_entries env path names)) =
     mset (filter (\<lambda>n. n \<notin> {''.'', ''..''} \<and> he_stat env (path @ ''/'' @ n) \<noteq> None) names)"
  by (induction names) (auto split: option.split)

lemma read_entries_stat:
  "e \<in> set (read_entries env path names) \<Longrightarrow>
   he_stat env (path @ ''/'' @ de_name e) = Some \<lparr>st_dir = de_is_dir e, st_size = de_size e, st_mtime = de_mtime e\<rparr>"
  by (induction names) (auto split: option.splits if_splits)

lemma sort_options_link:
  "field \<in> {CHR ''N'', CHR ''S'', CHR ''M''} \<Longrightarrow> sort_options (''C='' @ [field] @ '';O='' @ [direction]) = (field, direction)"
  by (auto simp: sort_options_def)

lemma rows_here: "\<exists>u l. \<forall>env xs. g env xs @ b = u @ g env xs @ l"
  by (intro exI [of _ "[]"] exI [of _ b]) simp

lemma rows_later: "\<exists>u l. \<forall>env xs. f env xs = u @ g env xs @ l \<Longrightarrow> \<exists>u l. \<forall>env xs. a @ f env xs = u @ g env xs @ l"
  by (metis append.assoc)

lemma index_page_rows:
  "\<exists>upper lower. \<forall>env entries. index_page env url field direction entries = upper @ concat (map (entry_row env url) entries) @ lower"
  unfolding index_page_def by (intro rows_here rows_later)

lemma sort_entries_law:
  assumes "sort_law (he_sort env)" and "field \<in> {CHR ''N'', CHR ''S'', CHR ''M''}"
  shows "mset (sort_entries env field direction xs) = mset xs \<and> sorted_wrt (listed_before field direction) (sort_entries env field direction xs)"
proof -
  obtain cmp where cmp: "cmp_entries field direction = Some cmp" "\<And>a b. \<not> cmp b a \<longleftrightarrow> listed_before field direction a b"
    using cmp_entries_order [OF assms(2)] by blast
  have "listed_before field direction = (\<lambda>a b. \<not> cmp b a)" by (intro ext) (simp add: cmp(2))
  then show ?thesis
    using assms(1) cmp_entries_strict_weak [OF cmp(1)] cmp(1) by (simp add: sort_entries_def sort_law_def)
qed

lemma serve_listing:
  assumes "he_stat env (''http-root-dir/htdocs'' @ url) = Some sb" and "st_dir sb"
    and "he_opendir env (''http-root-dir/htdocs'' @ url) = Some names" and "url \<noteq> []" and "last url = CHR ''/''"
    and "CHR ''?'' \<notin> set url" and "field \<in> {CHR ''N'', CHR ''S'', CHR ''M''}" and "total_requests st < 2147483647"
  shows "\<exists>st'. serve_document env (url @ ''?C='' @ [field] @ '';O='' @ [direction]) st =
    Some (html_response ''HTTP/1.0 200 OK'' (index_page env url field direction
      (sort_entries env field direction (read_entries env (''http-root-dir/htdocs'' @ url) names))), st')"
proof -
  have "split_query (url @ ''?C='' @ [field] @ '';O='' @ [direction]) = (url, ''C='' @ [field] @ '';O='' @ [direction])"
    using split_query_hit [OF assms(6)] by simp
  moreover obtain st' where "update_stats (he_service_time env) url st = Some st'"
    using assms(8) by (auto simp: update_stats_def Let_def)
  ultimately show ?thesis
    using assms(1-5) sort_options_link [OF assms(7), of direction]
    by (simp add: serve_document_def serve_path_def serve_directory_def Let_def)
qed

text \<open>
  C29. A directory listing of the legacy server, asked for with the links the page itself offers (by name, size or date, up
  or down), is the page of an empty directory with rows inserted: one row, with icon, link, date and size, for every entry
  but \<open>.\<close> and \<open>..\<close> that \<open>stat\<close> can read, and the rows are in the order asked for.
\<close>

theorem listing_sorted:
  assumes "sort_law (he_sort env)" and "he_stat env (''http-root-dir/htdocs'' @ url) = Some sb" and "st_dir sb"
    and "he_opendir env (''http-root-dir/htdocs'' @ url) = Some names" and "url \<noteq> []" and "last url = CHR ''/''"
    and "CHR ''?'' \<notin> set url" and "field \<in> {CHR ''N'', CHR ''S'', CHR ''M''}" and "total_requests st < 2147483647"
  shows "\<exists>entries upper lower st' st''.
    serve_document env (url @ ''?C='' @ [field] @ '';O='' @ [direction]) st =
      Some (html_response ''HTTP/1.0 200 OK'' (upper @ concat (map (listing_row env url) entries) @ lower), st') \<and>
    serve_document (env\<lparr>he_opendir := (\<lambda>path. Some [])\<rparr>) (url @ ''?C='' @ [field] @ '';O='' @ [direction]) st =
      Some (html_response ''HTTP/1.0 200 OK'' (upper @ lower), st'') \<and>
    sorted_wrt (listed_before field direction) entries \<and>
    mset (map de_name entries) =
      mset (filter (\<lambda>n. n \<notin> {''.'', ''..''} \<and> he_stat env (''http-root-dir/htdocs'' @ url @ ''/'' @ n) \<noteq> None) names) \<and>
    list_all (\<lambda>e. he_stat env (''http-root-dir/htdocs'' @ url @ ''/'' @ de_name e) =
      Some \<lparr>st_dir = de_is_dir e, st_size = de_size e, st_mtime = de_mtime e\<rparr>) entries"
proof -
  let ?path = "''http-root-dir/htdocs'' @ url" and ?none = "env\<lparr>he_opendir := (\<lambda>path. Some [])\<rparr>"
  define entries where "entries = sort_entries env field direction (read_entries env ?path names)"
  obtain upper lower where page: "index_page env url field direction xs = upper @ concat (map (entry_row env url) xs) @ lower"
    for env xs using index_page_rows [of url field direction] by metis
  have rows: "entry_row env url = listing_row env url" by (intro ext) (rule entry_row_listing [OF assms(6)])
  obtain st' where full: "serve_document env (url @ ''?C='' @ [field] @ '';O='' @ [direction]) st =
      Some (html_response ''HTTP/1.0 200 OK'' (upper @ concat (map (listing_row env url) entries) @ lower), st')"
    using serve_listing [OF assms(2-9), of direction] assms(6) unfolding page entries_def [symmetric]
      rows by blast
  have law: "sort_law (he_sort ?none)" using assms(1) by simp
  then have "sort_entries ?none field direction [] = []"
    using sort_entries_law [OF law assms(8), of direction "[]"] by simp
  moreover obtain st'' where "serve_document ?none (url @ ''?C='' @ [field] @ '';O='' @ [direction]) st =
      Some (html_response ''HTTP/1.0 200 OK'' (index_page ?none url field direction
        (sort_entries ?none field direction (read_entries ?none ?path []))), st'')"
    using serve_listing [of ?none url sb "[]" field st direction] assms(2,3,5-9) by auto
  ultimately have empty: "serve_document ?none (url @ ''?C='' @ [field] @ '';O='' @ [direction]) st =
      Some (html_response ''HTTP/1.0 200 OK'' (upper @ lower), st'')"
    by (simp add: page)
  have sorted: "mset entries = mset (read_entries env ?path names)" "sorted_wrt (listed_before field direction) entries"
    using sort_entries_law [OF assms(1,8)] by (simp_all add: entries_def)
  then have "mset (map de_name entries) = mset (map de_name (read_entries env ?path names))" by simp
  moreover have "set entries = set (read_entries env ?path names)" using sorted(1) by (metis set_mset_mset)
  ultimately show ?thesis
    using full empty sorted(2) read_entries_mset [of env ?path names] read_entries_stat [of _ env ?path names]
    by (intro exI [of _ entries] exI [of _ upper] exI [of _ lower] exI [of _ st'] exI [of _ st'']) (simp add: list_all_iff)
qed

subsection \<open>Requests of an authorized client\<close>

definition get_request :: "bytes \<Rightarrow> bytes" where
  "get_request url = ''GET '' @ url @ '' HTTP/1.0'' @ CRLF @ ''Authorization: '' @ AUTH_TOKEN @ CRLF2"

definition plain_url :: "bytes \<Rightarrow> bool" where
  "plain_url url \<longleftrightarrow> url \<noteq> [] \<and> list_all (\<lambda>c. \<not> isspace_c c \<and> c \<noteq> NUL) url \<and> length (get_request url) \<le> MaxRequestSize"

lemma next_token_word:
  "list_all (\<lambda>c. \<not> isspace_c c) w \<Longrightarrow> w \<noteq> [] \<Longrightarrow> isspace_c c \<Longrightarrow> next_token (w @ c # s) = (w, c # s)"
  by (cases w) (auto simp: next_token_def list_all_iff takeWhile_append2 dropWhile_append2)

lemma next_token_skip: "isspace_c c \<Longrightarrow> next_token (c # s) = next_token s"
  by (simp add: next_token_def)

lemma get_request_line:
  assumes "plain_url url"
  shows "read_request_line (get_request url) = (''GET'', url)"
proof -
  have "next_token (get_request url) = (''GET'', SP # url @ '' HTTP/1.0'' @ CRLF @ ''Authorization: '' @ AUTH_TOKEN @ CRLF2)"
    using next_token_word [of "''GET''" SP] by (simp add: get_request_def isspace_c_def)
  moreover have "fst (next_token (url @ SP # s)) = url" for s
    using next_token_word [of url SP s] assms by (auto simp: plain_url_def list_all_iff isspace_c_def)
  ultimately show ?thesis by (simp add: read_request_line_def next_token_skip isspace_c_def)
qed

lemma get_request_authorized: "authorized (get_request url)"
proof -
  have "sublist (''Authorization: '' @ AUTH_TOKEN) (get_request url)"
    unfolding sublist_def get_request_def by (metis append.assoc)
  then show ?thesis by (simp add: authorized_def sv_find_None_sublist)
qed

lemma get_request_text:
  assumes "plain_url url"
  shows "takeWhile (\<lambda>c. c \<noteq> NUL) (take MaxRequestSize (get_request url)) = get_request url"
proof -
  have "NUL \<notin> set (get_request url)"
    using assms by (auto simp: get_request_def AUTH_TOKEN_def plain_url_def list_all_iff)
  then show ?thesis using assms by (auto simp: plain_url_def intro: takeWhile_eq_all_conv [THEN iffD2])
qed

lemma request_body_Some:
  assumes "3 \<le> length full" and "length full \<le> MaxRequestSize"
  shows "\<exists>body. request_body full = Some body"
proof (cases "sv_find CRLF2 full")
  case None
  then show ?thesis using assms by (simp add: request_body_def)
next
  case (Some p)
  then have "p + 4 \<le> length full" using sv_find_SomeD [OF Some] by simp
  moreover have "unat (of_nat (p + 4) :: size_t) = p + 4"
    using calculation assms(2) by (simp only: unsigned_of_nat) (simp add: MaxRequestSize_def take_bit_nat_eq_self)
  ultimately show ?thesis using Some by (simp add: request_body_def ac_simps)
qed

lemma handleClient_get:
  assumes "plain_url url" and "url \<noteq> ''/''" and "url \<noteq> ''/stats''" and "url \<noteq> ''/logs''"
  obtains body where "handleClient env clientIP (get_request url) st =
    (if prefix ''/cgi-bin/'' url then Some ([handleCGI env ''GET'' url body], append_log env clientIP url st)
     else serve_document env url (append_log env clientIP url st))"
proof -
  have "3 \<le> length (get_request url)" by (simp add: get_request_def)
  then obtain body where "request_body (get_request url) = Some body"
    using request_body_Some assms(1) by (auto simp: plain_url_def)
  moreover have "take MaxRequestSize (get_request url) \<noteq> []" by (simp add: get_request_def MaxRequestSize_def)
  ultimately have "handleClient env clientIP (get_request url) st =
    (if prefix ''/cgi-bin/'' url then Some ([handleCGI env ''GET'' url body], append_log env clientIP url st)
     else serve_document env url (append_log env clientIP url st))"
    using assms by (simp add: handleClient_def get_request_text get_request_line get_request_authorized
        dispatch_def sv_find_zero)
  then show ?thesis by (rule that)
qed

lemma append_log_stats [simp]:
  "total_requests (append_log env clientIP url st) = total_requests st"
  "min_service (append_log env clientIP url st) = min_service st"
  "max_service (append_log env clientIP url st) = max_service st"
  "min_url (append_log env clientIP url st) = min_url st"
  "max_url (append_log env clientIP url st) = max_url st"
  by (simp_all add: append_log_def)

lemma get_verbatim:
  assumes "plain_url url" and "CHR ''?'' \<notin> set url" and "url \<notin> {''/'', ''/stats'', ''/logs''}"
    and "\<not> prefix ''/cgi-bin/'' url" and "total_requests st < 2147483647"
    and "he_stat env (''http-root-dir/htdocs'' @ url) = Some sb" and "\<not> st_dir sb"
    and "he_open env (''http-root-dir/htdocs'' @ url) = Some content"
    and "st_size sb = int (length content)" and "\<And>i. 0 \<le> he_send_result env i"
  shows "\<exists>out st'. handleClient env clientIP (get_request url) st = Some (out, st') \<and>
    concat out = html_header ''HTTP/1.0 200 OK'' (length content) @ content \<and>
    total_requests st' = total_requests st + 1"
proof -
  have served: "handleClient env clientIP (get_request url) st = serve_document env url (append_log env clientIP url st)"
    using handleClient_get [OF assms(1), of env clientIP st] assms(3,4) by auto
  obtain st' where st': "update_stats (he_service_time env) url (append_log env clientIP url st) = Some st'"
    using assms(5) by (auto simp: update_stats_def Let_def)
  obtain sortField sortOrder where "sort_options [] = (sortField, sortOrder)" by fastforce
  then have "serve_document env url (append_log env clientIP url st) =
      Some (fst (send_document env (''http-root-dir/htdocs'' @ url) (int (length content))), st')"
    using assms(2,6-9) st'
    by (simp add: serve_document_def split_query_none serve_path_def send_document_def)
  moreover have "concat (fst (send_document env (''http-root-dir/htdocs'' @ url) (int (length content)))) =
      html_header ''HTTP/1.0 200 OK'' (length content) @ content"
    using assms(8,10) by (simp add: send_document_def html_header_def show_int_def concat_file_chunks)
  ultimately show ?thesis using served update_stats_cases [OF st'] by simp
qed

text \<open>
  C30. The legacy server opens the path of the request as it stands behind \<open>http-root-dir/htdocs\<close>: for an authorized
  request of any such url, \<open>..\<close> segments included, that the file system resolves to a file, the
  client receives the contents of that file.
\<close>

theorem legacy_path_verbatim:
  assumes "plain_url url" and "CHR ''?'' \<notin> set url" and "url \<notin> {''/'', ''/stats'', ''/logs''}"
    and "\<not> prefix ''/cgi-bin/'' url" and "total_requests st < 2147483647"
    and "he_stat env (''http-root-dir/htdocs'' @ url) = Some sb" and "\<not> st_dir sb"
    and "he_open env (''http-root-dir/htdocs'' @ url) = Some content"
    and "st_size sb = int (length content)" and "\<And>i. 0 \<le> he_send_result env i"
  shows "\<exists>out st'. handleClient env clientIP (get_request url) st = Some (out, st') \<and>
    concat out = html_header ''HTTP/1.0 200 OK'' (length content) @ content \<and>
    total_requests st' = total_requests st + 1"
  by (rule get_verbatim [OF assms])

lemma encode_form_plain: "c \<in> set (encode_form ps) \<Longrightarrow> \<not> isspace_c c \<and> c \<noteq> NUL"
proof -
  have *: "\<not> isspace_c c \<and> c \<noteq> NUL" if "c \<in> set (percent_encode s)" for c s
  proof -
    have "byte_val x div 16 < 16" for x
      by (rule less_mult_imp_div_less) (use byte_val_less [of x] in linarith)
    then have "unreserved c \<or> isalnum c \<or> c = CHR ''%''"
      using that by (auto simp: percent_encode_def hex_char_alnum split: if_splits)
    then show ?thesis by (auto simp: unreserved_def isalnum_def is_digit_def isspace_c_def)
  qed
  moreover have "\<not> isspace_c (CHR ''='')" "\<not> isspace_c (CHR ''&'')" by (simp_all add: isspace_c_def)
  ultimately show "c \<in> set (encode_form ps) \<Longrightarrow> \<not> isspace_c c \<and> c \<noteq> NUL"
    by (induction ps rule: encode_form.induct) (auto simp: encode_pair_def dest: *)
qed

lemma cgi_query_get:
  assumes "he_fork env" and "he_line_buffered env"
    and "he_execv env ''http-root-dir/cgi-bin/query'' (cgi_env (he_environ env) ''GET'' q body) [] = Some out"
  shows "handleCGI env ''GET'' (''/cgi-bin/query?'' @ q) body = cgi_header @ out"
  using split_query_hit [of "''/cgi-bin/query''" q] assms by (simp add: handleCGI_def)

text \<open>
  C26. From browser to form program and back: an authorized GET of \<open>/cgi-bin/query\<close> with an encoded form, on a
  server whose standard output is line buffered and whose \<open>execv\<close> runs \<open>query\<close>, is answered with
  the status line and the list of exactly the names and values of the form.
\<close>

theorem cgi_query_echo:
  assumes "list_all plain_pair ps" and "ps \<noteq> []" and "length ps \<le> 10000"
    and "\<And>i. length (fst (mem i)) = 128 \<and> length (snd (mem i)) = 128"
    and "list_all (\<lambda>p. length (encode_pair p) < 128) ps"
    and "length (get_request (''/cgi-bin/query?'' @ encode_form ps)) \<le> MaxRequestSize"
    and "he_fork env" and "he_line_buffered env"
    and "he_execv env ''http-root-dir/cgi-bin/query'' = (\<lambda>vars stdin. map_option fst (query_main mem vars))"
  shows "\<exists>st'. handleClient env clientIP (get_request (''/cgi-bin/query?'' @ encode_form ps)) st =
    Some ([cgi_header @ content_type @ result_list ps], st')"
proof -
  let ?url = "''/cgi-bin/query?'' @ encode_form ps"
  have "plain_url ?url"
    using assms(6) encode_form_plain by (auto simp: plain_url_def list_all_iff isspace_c_def)
  then obtain body where "handleClient env clientIP (get_request ?url) st =
      Some ([handleCGI env ''GET'' ?url body], append_log env clientIP ?url st)"
    using handleClient_get [of ?url env clientIP st] by auto
  moreover have "query_main mem (cgi_env (he_environ env) ''GET'' (encode_form ps) body) =
      Some (content_type @ result_list ps, None)"
    by (rule query_main_echo [OF assms(1-4) _ _ assms(5)]) (simp_all add: cgi_env_def)
  ultimately show ?thesis using cgi_query_get [OF assms(7,8)] assms(9) by simp
qed

text \<open>
  A form sent with POST through the legacy server makes \<open>post-query\<close> dereference a null pointer: \<open>handleCGI\<close>
  sets the request method and the length of the body but not the content type, which \<open>post-query\<close> compares
  without a check, unless the server itself was started with that variable in its environment.
\<close>

theorem cgi_post_query_undefined:
  assumes "he_environ env ''CONTENT_TYPE'' = None"
  shows "post_query_main (cgi_env (he_environ env) ''POST'' queryString requestBody) requestBody = None"
  using assms by (simp add: post_query_main_def cgi_env_def)

subsection \<open>Statistics\<close>

lemma serve_forking_state:
  "serve_forking cs st = Some (outs, st') \<Longrightarrow> \<exists>log. st' = st\<lparr>log_file := log\<rparr>"
proof (induction cs st arbitrary: outs rule: serve_forking.induct)
  case (1 st)
  then show ?case by (cases st) auto
next
  case (3 env ip input forked cs st)
  show ?case
  proof (cases forked)
    case True
    then obtain out child outs' where h: "handleClient env ip input st = Some (out, child)"
      "serve_forking cs (st\<lparr>log_file := log_file child\<rparr>) = Some (outs', st')"
      using "3.prems" by (auto split: option.splits)
    show ?thesis using "3.IH"(2) [OF _ h(1) refl h(2)] True by auto
  next
    case False
    then show ?thesis using "3.IH"(1) "3.prems" by auto
  qed
qed auto

text \<open>
  In the forking mode the statistics never change: they are updated in the children. Whatever was
  served, the page of statistics (apart from the uptime, which is not part of the state) is the one of a
  server that has not answered any request.
\<close>

theorem fork_mode_statistics:
  assumes "serve_forking cs start_state = Some (outs, st')"
  shows "handleStats env st' = handleStats env start_state \<and> total_requests st' = 0"
  using serve_forking_state [OF assms] by (auto simp: handleStats_def stats_page_def start_state_def)

subsection \<open>A sample site\<close>

fun insert_entry :: "(dir_entry \<Rightarrow> dir_entry \<Rightarrow> bool) \<Rightarrow> dir_entry \<Rightarrow> dir_entry list \<Rightarrow> dir_entry list" where
  "insert_entry cmp e [] = [e]"
| "insert_entry cmp e (x # xs) = (if cmp x e then x # insert_entry cmp e xs else e # x # xs)"

definition insertion_sort :: "(dir_entry \<Rightarrow> dir_entry \<Rightarrow> bool) \<Rightarrow> dir_entry list \<Rightarrow> dir_entry list" where
  "insertion_sort cmp xs = foldr (insert_entry cmp) xs []"

lemma mset_insert_entry [simp]: "mset (insert_entry cmp e xs) = add_mset e (mset xs)"
  by (induction xs) auto

lemma set_insert_entry [simp]: "set (insert_entry cmp e xs) = insert e (set xs)"
  by (induction xs) auto

lemma sorted_insert_entry:
  assumes "strict_weak cmp" and "sorted_wrt (\<lambda>a b. \<not> cmp b a) xs"
  shows "sorted_wrt (\<lambda>a b. \<not> cmp b a) (insert_entry cmp e xs)"
  using assms(2)
proof (induction xs)
  case (Cons x xs)
  show ?case
  proof (cases "cmp x e")
    case True
    then have "\<not> cmp e x" using assms(1) unfolding strict_weak_def by blast
    then show ?thesis using Cons True by simp
  next
    case False
    then have "\<not> cmp y e" if "y \<in> set xs" for y
      using assms(1) Cons.prems that unfolding strict_weak_def sorted_wrt.simps by blast
    then show ?thesis using Cons.prems False by simp
  qed
qed simp

lemma insertion_sort_law: "sort_law insertion_sort"
proof -
  have "mset (insertion_sort cmp xs) = mset xs" for cmp xs
    by (induction xs) (auto simp: insertion_sort_def)
  moreover have "sorted_wrt (\<lambda>a b. \<not> cmp b a) (insertion_sort cmp xs)" if "strict_weak cmp" for cmp xs
    using that by (induction xs) (auto simp: insertion_sort_def sorted_insert_entry)
  ultimately show ?thesis by (simp add: sort_law_def)
qed

definition sample_httpd :: httpd_env where
  "sample_httpd = \<lparr>
     he_stat = [''http-root-dir/htdocs/../../secret'' \<mapsto> \<lparr>st_dir = False, st_size = 3, st_mtime = 7\<rparr>,
                ''http-root-dir/htdocs/pub/'' \<mapsto> \<lparr>st_dir = True, st_size = 4096, st_mtime = 6\<rparr>,
                ''http-root-dir/htdocs/pub//b'' \<mapsto> \<lparr>st_dir = False, st_size = 1, st_mtime = 9\<rparr>,
                ''http-root-dir/htdocs/pub//a'' \<mapsto> \<lparr>st_dir = True, st_size = 4096, st_mtime = 8\<rparr>],
     he_opendir = [''http-root-dir/htdocs/pub/'' \<mapsto> [''.'', ''..'', ''b'', ''a'', ''gone'']],
     he_open = [''http-root-dir/htdocs/../../secret'' \<mapsto> ''key''],
     he_strftime = (\<lambda>t. ''2025-01-01 00:00''), he_sort = insertion_sort, he_show_double = (\<lambda>d. ''0''),
     he_uptime = 1, he_service_time = 1, he_log_opens = True, he_send_result = (\<lambda>i. 1), he_environ = Map.empty,
     he_fork = True, he_pipe = True, he_line_buffered = True, he_stdout_pending = [],
     he_execv = (\<lambda>path vars stdin.
       if path = ''http-root-dir/cgi-bin/query'' then map_option fst (query_main blank_mem vars) else None)\<rparr>"

lemma plain_url_sample: "plain_url ''/../../secret''"
  by (simp add: plain_url_def isspace_c_def get_request_def AUTH_TOKEN_def MaxRequestSize_def)

lemma sample_served: "\<exists>out st'. handleClient sample_httpd ''10.0.0.1'' (get_request ''/../../secret'') start_state = Some (out, st')"
  using get_verbatim [OF plain_url_sample, of start_state sample_httpd
      "\<lparr>st_dir = False, st_size = 3, st_mtime = 7\<rparr>" "''key''" "''10.0.0.1''"]
  by (auto simp: sample_httpd_def start_state_def numeral_3_eq_3)

theorem legacy_path_verbatim_witness:
  "\<exists>out st'. handleClient sample_httpd ''10.0.0.1'' (get_request ''/../../secret'') start_state = Some (out, st') \<and>
    concat out = html_header ''HTTP/1.0 200 OK'' 3 @ ''key'' \<and> total_requests st' = 1"
  using legacy_path_verbatim [OF plain_url_sample, of start_state sample_httpd
      "\<lparr>st_dir = False, st_size = 3, st_mtime = 7\<rparr>" "''key''" "''10.0.0.1''"]
  by (simp add: sample_httpd_def start_state_def numeral_3_eq_3)

theorem legacy_framed_witness:
  "\<exists>out st'. handleClient sample_httpd ''10.0.0.1'' ''GET / HTTP/1.0'' start_state = Some (out, st') \<and> framed (concat out)"
proof -
  have "handleClient sample_httpd ''10.0.0.1'' ''GET / HTTP/1.0'' start_state =
      Some ([unauthorized], append_log sample_httpd ''10.0.0.1'' ''/'' start_state)"
    by (simp add: handleClient_def MaxRequestSize_def authorized_def AUTH_TOKEN_def read_request_line_def next_token_def isspace_c_def)
  moreover have "sizes_agree sample_httpd" by (auto simp: sizes_agree_def sample_httpd_def split: if_splits)
  moreover have "0 \<le> he_send_result sample_httpd i" for i by (simp add: sample_httpd_def)
  moreover have "\<not> prefix ''/cgi-bin/'' (snd (read_request_line (takeWhile (\<lambda>c. c \<noteq> NUL) (take MaxRequestSize ''GET / HTTP/1.0''))))"
    by (simp add: MaxRequestSize_def read_request_line_def next_token_def isspace_c_def)
  ultimately show ?thesis using legacy_framed [of sample_httpd "''10.0.0.1''" "''GET / HTTP/1.0''" start_state] by blast
qed

theorem legacy_unauthorized_witness:
  "\<exists>log. handleClient sample_httpd ''10.0.0.1'' ''GET /logs HTTP/1.0'' start_state =
    Some ([unauthorized], start_state\<lparr>log_file := log\<rparr>)"
proof -
  have "\<not> authorized (takeWhile (\<lambda>c. c \<noteq> NUL) (take MaxRequestSize ''GET /logs HTTP/1.0''))"
    by (simp add: authorized_def AUTH_TOKEN_def MaxRequestSize_def)
  then show ?thesis
    using legacy_unauthorized [of "''GET /logs HTTP/1.0''" sample_httpd sample_httpd "''10.0.0.1''" start_state] by simp
qed

theorem listing_sorted_witness:
  "\<exists>entries upper lower st'. serve_document sample_httpd (''/pub/'' @ ''?C='' @ [CHR ''N''] @ '';O='' @ [CHR ''A'']) start_state =
      Some (html_response ''HTTP/1.0 200 OK'' (upper @ concat (map (listing_row sample_httpd ''/pub/'') entries) @ lower), st') \<and>
    mset (map de_name entries) = {#''a'', ''b''#} \<and> sorted_wrt (listed_before (CHR ''N'') (CHR ''A'')) entries"
proof -
  have law: "sort_law (he_sort sample_httpd)" by (simp add: sample_httpd_def insertion_sort_law)
  have d: "he_stat sample_httpd (''http-root-dir/htdocs'' @ ''/pub/'') = Some \<lparr>st_dir = True, st_size = 4096, st_mtime = 6\<rparr>"
    "he_opendir sample_httpd (''http-root-dir/htdocs'' @ ''/pub/'') = Some [''.'', ''..'', ''b'', ''a'', ''gone'']"
    by (simp_all add: sample_httpd_def)
  have names: "mset (filter (\<lambda>n. n \<notin> {''.'', ''..''} \<and> he_stat sample_httpd (''http-root-dir/htdocs'' @ ''/pub/'' @ ''/'' @ n) \<noteq> None)
      [''.'', ''..'', ''b'', ''a'', ''gone'']) = {#''a'', ''b''#}"
    by (simp add: sample_httpd_def)
  have u: "''/pub/'' \<noteq> []" "last ''/pub/'' = CHR ''/''" "CHR ''?'' \<notin> set ''/pub/''"
    "CHR ''N'' \<in> {CHR ''N'', CHR ''S'', CHR ''M''}" "total_requests start_state < 2147483647" "st_dir \<lparr>st_dir = True, st_size = 4096, st_mtime = 6\<rparr>"
    by (simp_all add: start_state_def)
  show ?thesis
    using listing_sorted [OF law d(1) u(6) d(2) u(1-5), of "CHR ''A''"] unfolding names by blast
qed

theorem cgi_query_echo_witness:
  "\<exists>st'. handleClient sample_httpd ''10.0.0.1'' (get_request (''/cgi-bin/query?'' @ encode_form [(''a'', ''x y'')])) start_state =
    Some ([cgi_header @ content_type @ result_list [(''a'', ''x y'')]], st')"
proof -
  have "list_all plain_pair [(''a'', ''x y'')]" by (simp add: plain_pair_def)
  moreover have "length (fst (blank_mem i)) = 128 \<and> length (snd (blank_mem i)) = 128" for i by (simp add: blank_mem_def)
  moreover have "list_all (\<lambda>p. length (encode_pair p) < 128) [(''a'', ''x y'')]"
    by (simp add: encode_pair_def percent_encode_def)
  moreover have "length (get_request (''/cgi-bin/query?'' @ encode_form [(''a'', ''x y'')])) \<le> MaxRequestSize"
    by (simp add: encode_pair_def percent_encode_def get_request_def AUTH_TOKEN_def MaxRequestSize_def)
  ultimately show ?thesis
    by (intro cgi_query_echo [where mem = blank_mem]) (simp_all add: sample_httpd_def)
qed

theorem cgi_post_query_undefined_witness:
  "post_query_main (cgi_env (he_environ sample_httpd) ''POST'' [] ''a=b'') ''a=b'' = None"
  using cgi_post_query_undefined [of sample_httpd "[]" "''a=b''"] by (simp add: sample_httpd_def)

theorem fork_mode_statistics_witness:
  "\<exists>outs st'. serve_forking [Some ((sample_httpd, ''10.0.0.1'', ''GET / HTTP/1.0''), True)] start_state = Some (outs, st') \<and>
    total_requests st' = 0"
proof -
  have "\<exists>outs st'. serve_forking [Some ((sample_httpd, ''10.0.0.1'', ''GET / HTTP/1.0''), True)] start_state = Some (outs, st')"
    by (simp add: handleClient_def MaxRequestSize_def authorized_def AUTH_TOKEN_def read_request_line_def next_token_def isspace_c_def)
  then show ?thesis using fork_mode_statistics by blast
qed

end
