(* ===== verification/Legacy_Modes.thy ===== *)
theory Legacy_Modes
imports Legacy_Httpd
begin

text \<open>
  The modes of the legacy server (\<open>src/legacy/myhttpd.cc\<close>) beyond a single connection: the statistics over a run of the iterative
  mode, and the two threaded modes as step relations over interleavings. A step of a threaded mode is one access to what the
  threads share, the mutex, the listening socket and the variable \<open>clientAddr\<close>; a connection is its descriptor and the address of
  the client, and the model records the arguments of the calls of \<open>handleClient\<close>.
\<close>

section \<open>One thread per client\<close>

datatype client_thread =
    Thread_new nat bytes
  | Thread_serving nat
  | Thread_done

record thread_mode =
  tm_pending :: "(nat \<times> bytes) option list"
  tm_addr :: bytes
  tm_accepted :: "nat option"
  tm_threads :: "client_thread list"
  tm_calls :: "(nat \<times> bytes) list"
  tm_closed :: "nat list"
  tm_aborted :: bool

datatype thread_event =
    Acceptor
  | Acceptor_no_thread
  | Client_thread nat

definition thread_start :: "(nat \<times> bytes) option list \<Rightarrow> thread_mode" where
  "thread_start cs = \<lparr>tm_pending = cs, tm_addr = [], tm_accepted = None, tm_threads = [], tm_calls = [], tm_closed = [],
     tm_aborted = False\<rparr>"

text \<open>The main thread: a failing constructor of \<open>std::thread\<close> throws out of \<open>main\<close>.\<close>

definition thread_main :: "bool \<Rightarrow> thread_mode \<Rightarrow> thread_mode option" where
  "thread_main created s =
     (case tm_accepted s of
        None \<Rightarrow>
          (case tm_pending s of
             [] \<Rightarrow> None
           | None # q \<Rightarrow> Some (s\<lparr>tm_pending := q\<rparr>)
           | Some (clientFd, addr) # q \<Rightarrow> Some (s\<lparr>tm_pending := q, tm_addr := addr, tm_accepted := Some clientFd\<rparr>))
      | Some clientFd \<Rightarrow>
          if created then Some (s\<lparr>tm_accepted := None, tm_threads := tm_threads s @ [Thread_new clientFd (tm_addr s)]\<rparr>)
          else Some (s\<lparr>tm_aborted := True\<rparr>))"

definition thread_step :: "thread_event \<Rightarrow> thread_mode \<Rightarrow> thread_mode option" where
  "thread_step e s =
     (if tm_aborted s then None
      else case e of
          Acceptor \<Rightarrow> thread_main True s
        | Acceptor_no_thread \<Rightarrow> thread_main False s
        | Client_thread i \<Rightarrow>
            if i \<ge> length (tm_threads s) then None
            else (case tm_threads s ! i of
                Thread_new clientFd addr \<Rightarrow>
                  Some (s\<lparr>tm_threads := (tm_threads s)[i := Thread_serving clientFd], tm_calls := tm_calls s @ [(clientFd, addr)]\<rparr>)
              | Thread_serving clientFd \<Rightarrow>
                  Some (s\<lparr>tm_threads := (tm_threads s)[i := Thread_done], tm_closed := tm_closed s @ [clientFd]\<rparr>)
              | Thread_done \<Rightarrow> None))"

inductive thread_reach :: "thread_mode \<Rightarrow> thread_mode \<Rightarrow> bool" for s0 where
  thread_here: "thread_reach s0 s0"
| thread_next: "thread_reach s0 s \<Longrightarrow> thread_step e s = Some s' \<Longrightarrow> thread_reach s0 s'"

section \<open>The pool of threads\<close>

datatype pool_thread =
    Pool_idle
  | Pool_accepting
  | Pool_accepted nat
  | Pool_serving nat

record pool_mode =
  pm_pending :: "(nat \<times> bytes) option list"
  pm_addr :: bytes
  pm_mutex :: "nat option"
  pm_workers :: "pool_thread list"
  pm_calls :: "(nat \<times> bytes) list"
  pm_closed :: "nat list"

definition poolSize :: nat where
  "poolSize = 5"

definition pm_start :: "(nat \<times> bytes) option list \<Rightarrow> pool_mode" where
  "pm_start cs = \<lparr>pm_pending = cs, pm_addr = [], pm_mutex = None, pm_workers = replicate poolSize Pool_idle, pm_calls = [],
     pm_closed = []\<rparr>"

text \<open>
  A step of worker \<open>i\<close>; \<^const>\<open>None\<close> when it has to wait. The end of the block with the guard releases the mutex, also on the way
  through \<open>continue\<close>; the argument \<open>clientAddr\<close> of \<open>handleClient\<close> is copied after that. Whether \<open>handleClient\<close> returns is
  up to the client, since \<open>read\<close> and \<open>send\<close> have no timeout: the parameter \<open>ends\<close> says of which connections it does. A
  connection whose client is silent keeps its worker for ever.
\<close>

definition pm_step :: "(nat \<Rightarrow> bool) \<Rightarrow> nat \<Rightarrow> pool_mode \<Rightarrow> pool_mode option" where
  "pm_step ends i s =
     (if i \<ge> length (pm_workers s) then None
      else (case pm_workers s ! i of
          Pool_idle \<Rightarrow>
            if pm_mutex s = None then Some (s\<lparr>pm_mutex := Some i, pm_workers := (pm_workers s)[i := Pool_accepting]\<rparr>)
            else None
        | Pool_accepting \<Rightarrow>
            (case pm_pending s of
               [] \<Rightarrow> None
             | None # q \<Rightarrow> Some (s\<lparr>pm_pending := q, pm_mutex := None, pm_workers := (pm_workers s)[i := Pool_idle]\<rparr>)
             | Some (clientFd, addr) # q \<Rightarrow>
                 Some (s\<lparr>pm_pending := q, pm_addr := addr, pm_mutex := None,
                   pm_workers := (pm_workers s)[i := Pool_accepted clientFd]\<rparr>))
        | Pool_accepted clientFd \<Rightarrow>
            Some (s\<lparr>pm_calls := pm_calls s @ [(clientFd, pm_addr s)], pm_workers := (pm_workers s)[i := Pool_serving clientFd]\<rparr>)
        | Pool_serving clientFd \<Rightarrow>
            if ends clientFd then Some (s\<lparr>pm_closed := pm_closed s @ [clientFd], pm_workers := (pm_workers s)[i := Pool_idle]\<rparr>)
            else None))"

inductive pm_reach :: "(nat \<Rightarrow> bool) \<Rightarrow> pool_mode \<Rightarrow> pool_mode \<Rightarrow> bool" for ends s0 where
  pm_here: "pm_reach ends s0 s0"
| pm_next: "pm_reach ends s0 s \<Longrightarrow> pm_step ends i s = Some s' \<Longrightarrow> pm_reach ends s0 s'"

fun pm_run :: "(nat \<Rightarrow> bool) \<Rightarrow> nat list \<Rightarrow> pool_mode \<Rightarrow> pool_mode option" where
  "pm_run ends [] s = Some s"
| "pm_run ends (i # is) s = (case pm_step ends i s of None \<Rightarrow> None | Some s' \<Rightarrow> pm_run ends is s')"

section \<open>Correctness of the modes\<close>

subsection \<open>Statistics\<close>

text \<open>The values the statistics may have: a counter in the range of \<open>int\<close> and, once something is counted, an ordered pair of times.\<close>

definition stats_ok :: "httpd_state \<Rightarrow> bool" where
  "stats_ok st \<longleftrightarrow> 0 \<le> total_requests st \<and> total_requests st \<le> 2147483647 \<and>
     (if total_requests st = 0 then min_service st = - 1 \<and> max_service st = - 1 \<and> min_url st = [] \<and> max_url st = []
      else 0 \<le> min_service st \<and> min_service st \<le> max_service st)"

lemma stats_ok_log [simp]: "stats_ok (append_log env ip url st) = stats_ok st"
  by (simp add: stats_ok_def)

lemma stats_ok_update:
  assumes "update_stats t url st = Some st'" and "stats_ok st" and "0 \<le> t"
  shows "stats_ok st' \<and> total_requests st' = total_requests st + 1"
  using assms by (auto simp: update_stats_def stats_ok_def Let_def split: if_splits)

lemma dispatch_stats:
  assumes "dispatch env m url full st = Some (out, st')" and "stats_ok st" and "0 \<le> he_service_time env"
  shows "stats_ok st' \<and> total_requests st' \<in> {total_requests st, total_requests st + 1}"
proof -
  consider "st' = st" | u where "serve_document env u st = Some (out, st')"
    using assms(1) by (auto simp: dispatch_def Let_def split: if_splits option.splits)
  then show ?thesis
  proof cases
    case (2 u)
    then show ?thesis
      by (rule serve_document_cases) (use assms(2,3) stats_ok_update in \<open>fastforce split: if_splits\<close>)
  qed (use assms(2) in simp)
qed

lemma handleClient_stats:
  assumes "handleClient env ip input st = Some (out, st')" and "stats_ok st" and "0 \<le> he_service_time env"
  shows "stats_ok st' \<and> total_requests st' \<in> {total_requests st, total_requests st + 1}"
proof -
  obtain m url full where
    "st' \<in> {st, append_log env ip url st} \<or> dispatch env m url full (append_log env ip url st) = Some (out, st')"
    using assms(1) by (auto simp: handleClient_def Let_def split: if_splits prod.splits)
  then show ?thesis using dispatch_stats [of env m url full "append_log env ip url st" out st'] assms(2,3) by auto
qed

text \<open>
  C40. The statistics of the legacy server always have the form the page of statistics relies on: the counter is in the range of
  \<open>int\<close> and at most the number of connections served, and either nothing is counted and all values are the initial ones, or the
  least time is not negative and not above the greatest one.
\<close>

theorem legacy_statistics_form:
  assumes "serve_iterative cs st = Some (outs, st')" and "stats_ok st"
    and "list_all (\<lambda>c. case c of None \<Rightarrow> True | Some (env, ip, input) \<Rightarrow> 0 \<le> he_service_time env) cs"
  shows "stats_ok st' \<and> total_requests st \<le> total_requests st' \<and> total_requests st' \<le> total_requests st + int (length outs)"
  using assms
proof (induction cs st arbitrary: outs rule: serve_iterative.induct)
  case (3 env ip input cs st)
  then obtain out st1 outs' where h: "handleClient env ip input st = Some (out, st1)"
    "serve_iterative cs st1 = Some (outs', st')" "outs = out # outs'"
    by (auto split: option.splits)
  have "stats_ok st1 \<and> total_requests st1 \<in> {total_requests st, total_requests st + 1}"
    using handleClient_stats [OF h(1)] "3.prems" by simp
  moreover from this have "stats_ok st' \<and> total_requests st1 \<le> total_requests st' \<and>
      total_requests st' \<le> total_requests st1 + int (length outs')"
    using "3.IH" [OF h(1) refl h(2)] "3.prems" by simp
  ultimately show ?case using h(3) by auto
qed auto

theorem legacy_statistics_form_witness:
  "\<exists>outs st'. serve_iterative [Some (sample_httpd, ''10.0.0.1'', get_request ''/../../secret''), None] start_state = Some (outs, st') \<and>
     stats_ok st' \<and> total_requests st' \<le> 1"
proof -
  have ok: "stats_ok start_state" by (simp add: stats_ok_def start_state_def)
  obtain out st1 where h: "handleClient sample_httpd ''10.0.0.1'' (get_request ''/../../secret'') start_state = Some (out, st1)"
    using sample_served by blast
  then have run: "serve_iterative [Some (sample_httpd, ''10.0.0.1'', get_request ''/../../secret''), None] start_state =
      Some ([out], st1)"
    by simp
  then show ?thesis
    using legacy_statistics_form [OF run ok] by (simp add: sample_httpd_def start_state_def)
qed

subsection \<open>Threads\<close>

definition accepted_from :: "(nat \<times> bytes) option list \<Rightarrow> (nat \<times> bytes) list" where
  "accepted_from cs = map the (filter (\<lambda>c. c \<noteq> None) cs)"

lemma accepted_from_simps [simp]:
  "accepted_from [] = []" "accepted_from (None # q) = accepted_from q" "accepted_from (Some c # q) = c # accepted_from q"
  by (simp_all add: accepted_from_def)

lemma mset_concat_update:
  assumes "i < length xs"
  obtains M where "mset (concat (map f xs)) = M + mset (f (xs ! i))" "\<And>x. mset (concat (map f (xs[i := x]))) = M + mset (f x)"
proof
  show "mset (concat (map f xs)) = mset (concat (map f (take i xs @ drop (Suc i) xs))) + mset (f (xs ! i))"
    by (subst id_take_nth_drop [OF assms]) (simp add: ac_simps)
  show "mset (concat (map f (xs[i := x]))) = mset (concat (map f (take i xs @ drop (Suc i) xs))) + mset (f x)" for x
    using assms by (simp add: upd_conv_take_nth_drop ac_simps)
qed

fun to_call :: "client_thread \<Rightarrow> (nat \<times> bytes) list" where
  "to_call (Thread_new clientFd addr) = [(clientFd, addr)]"
| "to_call _ = []"

definition thread_uncalled :: "thread_mode \<Rightarrow> (nat \<times> bytes) multiset" where
  "thread_uncalled s = mset (accepted_from (tm_pending s)) +
     (case tm_accepted s of None \<Rightarrow> {#} | Some clientFd \<Rightarrow> {#(clientFd, tm_addr s)#}) + mset (concat (map to_call (tm_threads s)))"

lemma thread_step_calls:
  assumes "thread_step e s = Some s'"
  shows "mset (tm_calls s') + thread_uncalled s' = mset (tm_calls s) + thread_uncalled s"
proof (cases e)
  case (Client_thread i)
  then have i: "i < length (tm_threads s)" using assms by (auto simp: thread_step_def split: if_splits)
  obtain M where "mset (concat (map to_call (tm_threads s))) = M + mset (to_call (tm_threads s ! i))"
    "\<And>x. mset (concat (map to_call ((tm_threads s)[i := x]))) = M + mset (to_call x)"
    using mset_concat_update [OF i, of to_call] by blast
  then show ?thesis
    using assms Client_thread i
    by (cases "tm_threads s ! i"; cases "tm_accepted s") (auto simp: thread_step_def thread_uncalled_def split: if_splits)
qed (use assms in \<open>auto simp: thread_step_def thread_main_def thread_uncalled_def split: if_splits option.splits list.splits\<close>)

lemma thread_calls:
  assumes "thread_reach (thread_start cs) s"
  shows "mset (tm_calls s) + thread_uncalled s = mset (accepted_from cs)"
  using assms
proof induction
  case thread_here
  then show ?case by (simp add: thread_start_def thread_uncalled_def)
next
  case (thread_next s e s')
  then show ?case using thread_step_calls by simp
qed

subsection \<open>The pool\<close>

fun pm_held :: "pool_thread \<Rightarrow> nat list" where
  "pm_held (Pool_accepted clientFd) = [clientFd]"
| "pm_held (Pool_serving clientFd) = [clientFd]"
| "pm_held _ = []"

fun pm_called :: "pool_thread \<Rightarrow> nat list" where
  "pm_called (Pool_serving clientFd) = [clientFd]"
| "pm_called _ = []"

definition pm_inv :: "(nat \<times> bytes) option list \<Rightarrow> pool_mode \<Rightarrow> bool" where
  "pm_inv cs s \<longleftrightarrow> length (pm_workers s) = poolSize \<and>
     (\<forall>i < poolSize. pm_workers s ! i = Pool_accepting \<longleftrightarrow> pm_mutex s = Some i) \<and>
     (\<forall>i. pm_mutex s = Some i \<longrightarrow> i < poolSize) \<and>
     mset (map fst (accepted_from (pm_pending s))) + mset (concat (map pm_held (pm_workers s))) + mset (pm_closed s) =
       mset (map fst (accepted_from cs)) \<and>
     mset (map fst (pm_calls s)) = mset (concat (map pm_called (pm_workers s))) + mset (pm_closed s)"

lemma pm_inv_start: "pm_inv cs (pm_start cs)"
  by (auto simp: pm_inv_def pm_start_def map_replicate_const)

lemma pm_inv_mutex:
  assumes "pm_inv cs s" and "pm_step ends i s = Some s'"
  shows "length (pm_workers s') = poolSize \<and> (\<forall>j < poolSize. pm_workers s' ! j = Pool_accepting \<longleftrightarrow> pm_mutex s' = Some j) \<and>
    (\<forall>j. pm_mutex s' = Some j \<longrightarrow> j < poolSize)"
proof -
  have "i < poolSize" "pm_workers s ! i = Pool_accepting \<longleftrightarrow> pm_mutex s = Some i"
    using assms by (auto simp: pm_inv_def pm_step_def split: if_splits)
  then show ?thesis
    using assms unfolding pm_inv_def
    by (cases "pm_workers s ! i")
      (auto simp: pm_step_def nth_list_update split: if_splits list.splits option.splits)
qed

lemma pm_inv_step:
  assumes "pm_inv cs s" and "pm_step ends i s = Some s'"
  shows "pm_inv cs s'"
proof -
  have i: "i < length (pm_workers s)" using assms(2) by (auto simp: pm_step_def split: if_splits)
  obtain M where held: "mset (concat (map pm_held (pm_workers s))) = M + mset (pm_held (pm_workers s ! i))"
    "\<And>x. mset (concat (map pm_held ((pm_workers s)[i := x]))) = M + mset (pm_held x)"
    using mset_concat_update [OF i, of pm_held] by blast
  obtain N where called: "mset (concat (map pm_called (pm_workers s))) = N + mset (pm_called (pm_workers s ! i))"
    "\<And>x. mset (concat (map pm_called ((pm_workers s)[i := x]))) = N + mset (pm_called x)"
    using mset_concat_update [OF i, of pm_called] by blast
  have "mset (map fst (accepted_from (pm_pending s'))) + mset (concat (map pm_held (pm_workers s'))) + mset (pm_closed s') =
      mset (map fst (accepted_from (pm_pending s))) + mset (concat (map pm_held (pm_workers s))) + mset (pm_closed s)"
    using assms(2) i held
    by (auto simp: pm_step_def ac_simps split: if_splits pool_thread.splits list.splits option.splits)
  moreover have "mset (map fst (pm_calls s')) + mset (concat (map pm_called (pm_workers s))) + mset (pm_closed s) =
      mset (map fst (pm_calls s)) + mset (concat (map pm_called (pm_workers s'))) + mset (pm_closed s')"
    using assms(2) i called
    by (auto simp: pm_step_def ac_simps split: if_splits pool_thread.splits list.splits option.splits)
  ultimately show ?thesis
    using assms(1) pm_inv_mutex [OF assms] by (auto simp: pm_inv_def ac_simps)
qed

lemma pm_inv_reach: "pm_reach ends (pm_start cs) s \<Longrightarrow> pm_inv cs s"
  by (induction rule: pm_reach.induct) (auto intro: pm_inv_start pm_inv_step)

text \<open>Every step uses something up, so that runs are finite.\<close>

fun pm_weight :: "pool_thread \<Rightarrow> nat" where
  "pm_weight Pool_accepting = 0"
| "pm_weight Pool_idle = 1"
| "pm_weight (Pool_serving clientFd) = 2"
| "pm_weight (Pool_accepted clientFd) = 3"

definition pm_measure :: "pool_mode \<Rightarrow> nat" where
  "pm_measure s = 4 * length (pm_pending s) + sum_list (map pm_weight (pm_workers s))"

lemma pm_step_measure:
  assumes "pm_step ends i s = Some s'"
  shows "pm_measure s' < pm_measure s"
proof -
  have i: "i < length (pm_workers s)" using assms by (auto simp: pm_step_def split: if_splits)
  obtain M where "sum_list (map pm_weight (pm_workers s)) = M + pm_weight (pm_workers s ! i)"
    "\<And>x. sum_list (map pm_weight ((pm_workers s)[i := x])) = M + pm_weight x"
  proof
    show "sum_list (map pm_weight (pm_workers s)) =
        sum_list (map pm_weight (take i (pm_workers s) @ drop (Suc i) (pm_workers s))) + pm_weight (pm_workers s ! i)"
      by (subst id_take_nth_drop [OF i]) simp
    show "sum_list (map pm_weight ((pm_workers s)[i := x])) =
        sum_list (map pm_weight (take i (pm_workers s) @ drop (Suc i) (pm_workers s))) + pm_weight x" for x
      using i by (simp add: upd_conv_take_nth_drop)
  qed
  then show ?thesis
    using assms i
    by (auto simp: pm_step_def pm_measure_def split: if_splits pool_thread.splits list.splits option.splits)
qed

lemma pm_run_measure: "pm_run ends is s = Some s' \<Longrightarrow> length is + pm_measure s' \<le> pm_measure s"
proof (induction "is" arbitrary: s)
  case (Cons i "is")
  then obtain s1 where "pm_step ends i s = Some s1" "pm_run ends is s1 = Some s'" by (auto split: option.splits)
  then show ?case using Cons.IH [of s1] pm_step_measure [of ends i s s1] by simp
qed simp

lemma pm_run_length: "pm_run ends is (pm_start cs) = Some s \<Longrightarrow> length is \<le> 4 * length cs + poolSize"
  using pm_run_measure [of ends "is" "pm_start cs" s]
  by (simp add: pm_measure_def pm_start_def poolSize_def numeral_eq_Suc)

lemma pm_run_reach: "pm_run ends is s = Some s' \<Longrightarrow> pm_reach ends s0 s \<Longrightarrow> pm_reach ends s0 s'"
  by (induction "is" arbitrary: s) (auto split: option.splits intro: pm_next)

text \<open>A worker that cannot go on, and where a pool in which none can go on stands.\<close>

definition pm_blocked :: "(nat \<Rightarrow> bool) \<Rightarrow> pool_thread \<Rightarrow> bool" where
  "pm_blocked ends w \<longleftrightarrow> (case w of Pool_serving clientFd \<Rightarrow> \<not> ends clientFd | _ \<Rightarrow> False)"

lemma pm_stopped:
  assumes "pm_inv cs s" and "\<forall>i. pm_step ends i s = None"
  shows "list_all (pm_blocked ends) (pm_workers s) \<or>
    pm_pending s = [] \<and> list_all (\<lambda>w. w \<in> {Pool_idle, Pool_accepting} \<or> pm_blocked ends w) (pm_workers s)"
proof -
  have len: "length (pm_workers s) = poolSize" using assms(1) by (simp add: pm_inv_def)
  have stuck: "pm_workers s ! i = Pool_idle \<and> pm_mutex s \<noteq> None \<or> pm_workers s ! i = Pool_accepting \<and> pm_pending s = [] \<or>
      pm_blocked ends (pm_workers s ! i)" if "i < length (pm_workers s)" for i
    using assms(2) [THEN spec, of i] that
    by (cases "pm_workers s ! i") (auto simp: pm_step_def pm_blocked_def split: if_splits list.splits option.splits)
  show ?thesis
  proof (cases "pm_mutex s")
    case None
    then have "pm_workers s ! i \<noteq> Pool_accepting" if "i < length (pm_workers s)" for i
      using assms(1) that len by (simp add: pm_inv_def)
    then have "\<forall>i < length (pm_workers s). pm_blocked ends (pm_workers s ! i)" using stuck None by blast
    then show ?thesis unfolding list_all_length by blast
  next
    case (Some j)
    then have "j < length (pm_workers s)" "pm_workers s ! j = Pool_accepting" using assms(1) by (auto simp: pm_inv_def)
    then have "pm_pending s = []" using stuck [of j] by (auto simp: pm_blocked_def)
    then show ?thesis unfolding list_all_length using stuck by blast
  qed
qed

lemma pm_held_end:
  assumes "pm_inv cs s" and "list_all (\<lambda>c. ends (fst c)) (accepted_from cs)" and "w \<in> set (pm_workers s)"
  shows "\<not> pm_blocked ends w"
proof
  assume "pm_blocked ends w"
  then obtain f where f: "w = Pool_serving f" "\<not> ends f" by (cases w) (auto simp: pm_blocked_def)
  then have "f \<in># mset (concat (map pm_held (pm_workers s)))" using assms(3) by force
  then have "f \<in># mset (map fst (accepted_from cs))" using assms(1) by (metis pm_inv_def union_iff)
  then show False using f(2) assms(2) by (auto simp: list_all_iff)
qed

lemma pm_all_closed:
  assumes "pm_inv cs s" and "\<forall>i. pm_step ends i s = None" and "list_all (\<lambda>c. ends (fst c)) (accepted_from cs)"
  shows "pm_pending s = [] \<and> mset (pm_closed s) = mset (map fst (accepted_from cs))"
proof -
  have "pm_workers s \<noteq> []" using assms(1) by (auto simp: pm_inv_def poolSize_def)
  then obtain w where "w \<in> set (pm_workers s)" by (cases "pm_workers s") auto
  then have p: "pm_pending s = []" "\<forall>w \<in> set (pm_workers s). w \<in> {Pool_idle, Pool_accepting}"
    using pm_stopped [OF assms(1,2)] pm_held_end [OF assms(1,3)] by (auto simp: list_all_iff)
  from p(2) have "concat (map pm_held (pm_workers s)) = []" by auto
  then have "mset (concat (map pm_held (pm_workers s))) = {#}" by (simp only: mset.simps)
  then show ?thesis using assms(1) p(1) by (simp only: pm_inv_def accepted_from_simps list.map mset.simps add_0)
qed

text \<open>Five silent clients.\<close>

lemma pm_silent_run:
  assumes "length q = poolSize" and "list_all (\<lambda>c. \<not> ends (fst c)) q"
  shows "\<exists>is s. pm_run ends is (pm_start (map Some q @ cs)) = Some s \<and> pm_pending s = cs \<and>
    pm_workers s = map (\<lambda>c. Pool_serving (fst c)) q \<and> pm_calls s = q"
proof -
  obtain f1 a1 f2 a2 f3 a3 f4 a4 f5 a5 where q: "q = [(f1, a1), (f2, a2), (f3, a3), (f4, a4), (f5, a5)]"
    using assms(1) by (auto simp: poolSize_def numeral_eq_Suc length_Suc_conv)
  show ?thesis
    by (intro exI [of _ "[0, 0, 0, 1, 1, 1, 2, 2, 2, 3, 3, 3, 4, 4, 4]"])
       (simp add: q pm_start_def pm_step_def poolSize_def numeral_eq_Suc)
qed

lemma pm_silent_stop:
  assumes "length q = poolSize" and "list_all (\<lambda>c. \<not> ends (fst c)) q"
  shows "\<exists>s. pm_reach ends (pm_start (map Some q @ cs)) s \<and> pm_pending s = cs \<and> (\<forall>i. pm_step ends i s = None)"
proof -
  obtain "is" s where s: "pm_run ends is (pm_start (map Some q @ cs)) = Some s" "pm_pending s = cs"
    "pm_workers s = map (\<lambda>c. Pool_serving (fst c)) q"
    using pm_silent_run [OF assms] by blast
  have "pm_step ends i s = None" for i
    using s(3) assms(2) by (auto simp: pm_step_def list_all_length)
  then show ?thesis using s pm_run_reach [OF s(1) pm_here] by blast
qed

lemma pm_swapped:
  "\<exists>s. pm_run ends [0, 0, 1, 1, 0, 1] (pm_start [Some (f, a), Some (g, b)]) = Some s \<and> pm_calls s = [(f, b), (g, b)] \<and>
     pm_workers s = [Pool_serving f, Pool_serving g, Pool_idle, Pool_idle, Pool_idle]"
  by (simp add: pm_start_def pm_step_def poolSize_def numeral_eq_Suc)

text \<open>
  C38. The pool of the legacy server handles every accepted connection exactly once, as far as its clients let it. Whatever the
  interleaving, at most one worker is inside \<open>accept\<close>; the connections waiting, in the hands of a worker and closed are together
  those that arrive; \<open>handleClient\<close> is called once for each that is being served or closed; and a run has at most four steps per
  connection and one per worker. When no worker can go on, either each of the five is held by a silent client, or nothing
  waits and the workers are waiting for connections or held; if no client is silent, every connection has been closed. Five silent
  clients do stop the pool: whatever waits behind them is never accepted.
\<close>

theorem pool_mode_connections:
  assumes "pm_reach ends (pm_start cs) s"
  shows "(\<forall>i < poolSize. \<forall>j < poolSize. pm_workers s ! i = Pool_accepting \<and> pm_workers s ! j = Pool_accepting \<longrightarrow> i = j) \<and>
    mset (map fst (accepted_from (pm_pending s))) + mset (concat (map pm_held (pm_workers s))) + mset (pm_closed s) =
      mset (map fst (accepted_from cs)) \<and>
    mset (map fst (pm_calls s)) = mset (concat (map pm_called (pm_workers s))) + mset (pm_closed s) \<and>
    (\<forall>is s'. pm_run ends is (pm_start cs) = Some s' \<longrightarrow> length is \<le> 4 * length cs + poolSize) \<and>
    ((\<forall>i. pm_step ends i s = None) \<longrightarrow>
      (list_all (pm_blocked ends) (pm_workers s) \<or>
       pm_pending s = [] \<and> list_all (\<lambda>w. w \<in> {Pool_idle, Pool_accepting} \<or> pm_blocked ends w) (pm_workers s)) \<and>
      (list_all (\<lambda>c. ends (fst c)) (accepted_from cs) \<longrightarrow>
       pm_pending s = [] \<and> mset (pm_closed s) = mset (map fst (accepted_from cs)))) \<and>
    (\<forall>q. length q = poolSize \<and> list_all (\<lambda>c. \<not> ends (fst c)) q \<longrightarrow>
      (\<exists>s'. pm_reach ends (pm_start (map Some q @ cs)) s' \<and> pm_pending s' = cs \<and> (\<forall>i. pm_step ends i s' = None)))"
proof -
  have inv: "pm_inv cs s" using assms by (rule pm_inv_reach)
  then have "\<forall>i < poolSize. \<forall>j < poolSize. pm_workers s ! i = Pool_accepting \<and> pm_workers s ! j = Pool_accepting \<longrightarrow> i = j"
    by (auto simp: pm_inv_def)
  moreover have "mset (map fst (accepted_from (pm_pending s))) + mset (concat (map pm_held (pm_workers s))) + mset (pm_closed s) =
      mset (map fst (accepted_from cs))"
    "mset (map fst (pm_calls s)) = mset (concat (map pm_called (pm_workers s))) + mset (pm_closed s)"
    using inv by (simp_all add: pm_inv_def)
  ultimately show ?thesis
    using pm_stopped [OF inv] pm_all_closed [OF inv] pm_run_length [of ends _ cs] pm_silent_stop [of _ ends cs] by (intro conjI) blast+
qed

theorem pool_mode_connections_witness:
  "\<exists>s. pm_reach (\<lambda>c. c \<noteq> 4) (pm_start [Some (4, ''a''), Some (5, ''b'')]) s \<and> pm_calls s = [(4, ''b''), (5, ''b'')] \<and>
     mset (map fst (accepted_from (pm_pending s))) + mset (concat (map pm_held (pm_workers s))) + mset (pm_closed s) = {#4, 5#}"
proof -
  obtain s where s: "pm_run (\<lambda>c. c \<noteq> 4) [0, 0, 1, 1, 0, 1] (pm_start [Some (4, ''a''), Some (5, ''b'')]) = Some s"
    "pm_calls s = [(4, ''b''), (5, ''b'')]" using pm_swapped by blast
  have r: "pm_reach (\<lambda>c. c \<noteq> 4) (pm_start [Some (4, ''a''), Some (5, ''b'')]) s"
    using pm_run_reach [OF s(1) pm_here] .
  have "mset (map fst (accepted_from (pm_pending s))) + mset (concat (map pm_held (pm_workers s))) + mset (pm_closed s) = {#4, 5#}"
    using pool_mode_connections [OF r] by simp
  then show ?thesis using r s(2) by blast
qed

text \<open>
  C39. With a thread per client every call of \<open>handleClient\<close> gets the descriptor and the address of one accepted connection, each
  at most once, whatever the interleaving: the address is copied before the next \<open>accept\<close>. In the pool the address is read
  after the mutex is released, and there is an interleaving in which the request of one client is handled (and logged) with the
  address of another.
\<close>

theorem thread_modes_addresses:
  "(thread_reach (thread_start cs) s \<longrightarrow> mset (tm_calls s) \<subseteq># mset (accepted_from cs)) \<and>
   (\<exists>s. pm_reach ends (pm_start [Some (f, a), Some (g, b)]) s \<and> pm_calls s = [(f, b), (g, b)])"
proof -
  have "\<exists>s. pm_reach ends (pm_start [Some (f, a), Some (g, b)]) s \<and> pm_calls s = [(f, b), (g, b)]"
    using pm_swapped [of ends f a g b] pm_run_reach [OF _ pm_here] by blast
  moreover have "thread_reach (thread_start cs) s \<Longrightarrow> mset (tm_calls s) \<subseteq># mset (accepted_from cs)"
    using thread_calls [of cs s] by (metis mset_subset_eq_add_left)
  ultimately show ?thesis by blast
qed

theorem thread_modes_addresses_witness:
  "\<exists>s. thread_reach (thread_start [Some (4, ''a'')]) s \<and> tm_calls s = [(4, ''a'')] \<and> mset (tm_calls s) \<subseteq># {#(4, ''a'')#}"
proof -
  let ?s0 = "thread_start [Some (4, ''a'')]"
  obtain s1 s2 s3 where s: "thread_step Acceptor ?s0 = Some s1" "thread_step Acceptor s1 = Some s2"
    "thread_step (Client_thread 0) s2 = Some s3" "tm_calls s3 = [(4, ''a'')]"
    by (simp add: thread_start_def thread_step_def thread_main_def)
  have "thread_reach ?s0 s3" by (rule thread_next [OF thread_next [OF thread_next [OF thread_here s(1)] s(2)] s(3)])
  then show ?thesis using thread_modes_addresses [of "[Some (4, ''a'')]" s3] s(4) by auto
qed

end
