(* ===== verification/Spec2Isabelle.thy ===== *)
theory Spec2Isabelle
  imports Main_Program Fd Cgi_Phf Cgi_Passwd Cgi_Order Cgi_Imagemap Daytime Loader_Demo Legacy_Modes
begin

text \<open>
  This development verifies the HTTP/1.1 static file server of this repository: the C++ sources
  under \<open>src/src\<close> and \<open>src/include/http\<close>, and the server and CGI programs it replaces, under
  \<open>src/legacy\<close>. It is a shallow embedding: every function, class and thread is a HOL
  definition that follows the source, and the theorems are about those definitions.

  \<^bold>\<open>The program.\<close> \<open>main\<close> reads the command line, builds an \<open>HttpServer\<close>, installs a signal handler
  and calls \<open>serve_forever\<close>. The server's thread polls the listening socket and a notification pipe
  and dispatches accepted descriptors to a \<open>WorkerPool\<close>, whose threads take them from a
  \<open>BoundedQueue\<close> and run a \<open>Connection\<close> on each. A connection alternates between reading bytes into
  an \<open>HttpParser\<close>, parsing, and writing the serialised response that \<open>route_request\<close> obtains from
  the \<open>StaticFileHandler\<close>. On shutdown the queue is closed, the workers drain it, and \<open>main\<close> prints a
  JSON line of metrics.

  \<^bold>\<open>Theories and sources.\<close>
  \<^item> \<open>Http_Prelude\<close>: bytes, \<open>size_t\<close> as 64-bit words, \<open>string_view::find\<close>, \<open>from_chars\<close>, decimal
    output and character classes, with the lemmas every component shares.
  \<^item> \<open>Http_Parser\<close> models \<open>parser.hpp\<close>, \<open>request.hpp\<close> and \<open>parser.cpp\<close>: \<open>feed\<close>, \<open>parser_next\<close> and all
    helpers. \<open>Request_Grammar\<close> is the specification: well-formed requests, their printed form, header
    tables. \<open>Parser_Lemmas\<close> and \<open>Parser_Correctness\<close> show that printed requests are parsed back one
    after another, that what is returned is in the grammar and spelt by the bytes consumed
    (\<open>head_text\<close>), that later bytes change no answer, and
    which blocks near the header limit depend on fragmentation. The locale \<open>request_source\<close> states
    what the connection relies on and is interpreted by the parser.
  \<^item> \<open>Http_Response\<close> models \<open>response.hpp\<close> and \<open>response.cpp\<close>; the iteration order of the
    \<open>unordered_map\<close> of headers is a parameter that may be any permutation. Framing is shown by
    reading the serialised response back.
  \<^item> \<open>Static_File_Handler\<close> models \<open>static_file_handler.cpp\<close> over a record \<open>fs_env\<close> of the answers of
    \<open>std::filesystem\<close> and \<open>ifstream\<close>; \<open>Posix_Fs\<close> instantiates it with a tree of directories, files and
    symbolic links, with \<open>weakly_canonical\<close> as the standard library computes it, and shows where
    containment in the document root holds and where it fails. \<open>Router\<close> models \<open>router.cpp\<close>.
  \<^item> \<open>Run_System\<close> is the library of step functions: runs, and the locales \<open>traced_system\<close> (invariants
    over state and effects) and \<open>terminating_system\<close>.
  \<^item> \<open>Connection\<close> models \<open>connection.hpp\<close> and \<open>connection.cpp\<close>: \<open>conn_step\<close> is one pass of the loop of
    \<open>serve\<close> over one \<open>io_event\<close>, the answers of the clock, \<open>setsockopt\<close>, \<open>read\<close> and \<open>send\<close>.
    \<open>Connection_Invariants\<close> has its invariants and \<open>Connection_Correctness\<close> the refinement: the bytes
    sent are the answers to the requests received, in order; termination, deadlines, bounds and
    the end after malformed input.
  \<^item> \<open>Bounded_Queue\<close> models \<open>bounded_queue.hpp\<close>: the critical sections of \<open>push\<close>, \<open>pop\<close> and \<open>close\<close>, the
    locale \<open>bounded_fifo\<close> as the interface the pool uses, and \<open>mon_step\<close>, threads that wait on and
    notify the two condition variables.
  \<^item> \<open>Worker_Pool\<close> models \<open>worker_pool.hpp\<close> and \<open>worker_pool.cpp\<close> as \<open>pool_step\<close>, interleaved steps of
    dispatching threads and workers with the atomic counters.
  \<^item> \<open>Fd\<close> models \<open>fd.hpp\<close> and \<open>fd.cpp\<close>, \<open>Tcp_Listener\<close> models \<open>tcp_listener.hpp\<close> and \<open>tcp_listener.cpp\<close>.
  \<^item> \<open>Server\<close> models \<open>server.hpp\<close> and \<open>server.cpp\<close>: the constructor over the answers of the system
    calls, and \<open>server_step\<close>, the interleaving of the accepting thread, the pool, threads in
    \<open>request_shutdown\<close>, signals and the destructor.
  \<^item> \<open>Metrics\<close> models \<open>metrics.cpp\<close> and \<open>Main_Program\<close> models \<open>main.cpp\<close>.
  \<^item> \<open>Cgi_Util\<close> models \<open>cgi-src/util.c\<close>: string routines on arrays of bytes, where an access out of
    bounds is \<open>None\<close>. In-place url decoding is characterised on every string (\<open>lenient_decode\<close>, \<open>truncated_escape\<close>) and
    agrees with the decoder of the static file handler; escaped commands are read by \<open>shell_lines\<close>, a model of how a POSIX shell
    reads text outside of quotes that does not depend on the list of the program. \<open>Cgi_Query\<close> models \<open>query.c\<close> and \<open>post-query.c\<close>,
    \<open>Cgi_Phf\<close> models \<open>phf.c\<close> and \<open>Cgi_Passwd\<close> models \<open>change-passwd.c\<close>: what they print, run or write for an
    encoded form, and which inputs make them leave their arrays. \<open>Cgi_Order\<close> models \<open>jj.c\<close>: the order it mails or shows,
    and what it says is missing, is read off the pairs of the form by \<open>order_result\<close>.
  \<^item> \<open>Cgi_Imagemap\<close> models \<open>imagemap.c\<close>. The polygon test is the even-odd rule, and the program refines the meaning of a
    map file: the first region that holds the click, else the nearest point, else the default. Every operation on
    doubles rounds with a function that is a parameter.
  \<^item> \<open>Daytime\<close> models \<open>daytime-server.cc\<close> and \<open>Loader_Demo\<close> models \<open>hello.cc\<close> and \<open>use-dlopen.cc\<close>.
  \<^item> \<open>Legacy_Httpd\<close> models \<open>myhttpd.cc\<close> over a record of the answers of the system: authorization,
    directory listings, files, CGI, statistics and logs, and the iterative and forking loops. Its
    end-to-end property runs \<open>query\<close> behind the server. \<open>Legacy_Modes\<close> has the form of the statistics over a run and the
    two threaded modes, \<open>thread_step\<close> and \<open>pm_step\<close>, as interleavings of \<open>accept\<close> and the calls of \<open>handleClient\<close>;
    whether \<open>handleClient\<close> returns in the pool is up to the client of the connection, a parameter.
  \<^item> This theory has the properties that span the components.

  \<^bold>\<open>State and effects.\<close> Classes are records with the members of the source; exceptions are \<open>Inl\<close>
  values with the message; counters and sizes that the program computes with are words of their
  width, so wrap-around is part of the model. Descriptors are integers. What the operating system
  answers is an argument (a record of answers, or one event per pass of a loop), and theorems
  assume of it only documented behaviour: \<open>io_ok\<close> (\<open>read\<close> and \<open>send\<close> return at most what was
  asked for), \<open>wire_ok\<close>, a pipe that can hold a byte.

  \<^bold>\<open>Loops.\<close> \<open>serve\<close> runs over a finite list of events and returns \<open>None\<close> when they run out;
  \<open>serve_terminates\<close> shows that it returns on every infinite sequence of events. Threads are
  inductive step relations; \<open>pool_shutdown_ends\<close> and \<open>serve_forever_returns\<close> bound the number of steps
  after a shutdown and show that no thread is stuck before the end. Path resolution has the
  kernel's bound of forty links as fuel.

  \<^bold>\<open>Not modelled.\<close> The tests, the benchmark and qualification scripts, and the pages under \<open>www\<close>.
  The two threaded modes of the legacy
  server update its statistics without synchronisation, which is undefined: the model of these modes has the calls of
  \<open>handleClient\<close> but not the statistics. Logging to standard error by the
  workers has no effect on the state and is left out. Weak memory effects of relaxed atomic
  counters are not modelled: every update is one step, and \<open>record_result\<close> takes the updates after one connection together.
  In \<open>server_step\<close> the call of \<open>accept\<close> after \<open>poll\<close> has reported a connection returns, and so does the service of a connection, which
  \<open>serve_terminates\<close> shows for a socket whose timeouts work. Times of a connection are unbounded integers, where the
  program has 64-bit counts. A signal \<open>SIGPIPE\<close> for a write to a client that is gone ends the daytime server but not its model,
  and \<open>crypt\<close>, which may fail in \<open>change-passwd.c\<close>, is a total function. Names of signals and socket options
  are abstracted to whether the call succeeded.
\<close>

subsection \<open>From the socket to the file tree\<close>

text \<open>
  What a request may be answered with on a file tree: a regular file below the root \<open>rs\<close>, its contents for GET and its length
  for HEAD, or one of the four fixed error responses.
\<close>

definition root_answer :: "tree \<Rightarrow> bytes list \<Rightarrow> http_request \<Rightarrow> http_response \<Rightarrow> bool" where
  "root_answer t rs request response \<longleftrightarrow>
     (suppress_body response \<longleftrightarrow> req_method request = ''HEAD'') \<and>
     (if status_code response = 200
      then \<exists>ns content r. prefix rs ns \<and> t ns = Some (File content r) \<and> announced_length response = length content \<and>
        (req_method request = ''GET'' \<and> resp_body response = content \<or> req_method request = ''HEAD'')
      else response\<lparr>content_length := None, suppress_body := False\<rparr> \<in> {bad_request, forbidden, not_found, method_not_allowed})"

lemma handle_fixed:
  assumes "status_code (handle env h request) \<noteq> 200"
  shows "handle env h request \<in> {bad_request, forbidden, not_found}"
  using assms by (auto simp: handle_eq serve_file_def Let_def default_response_def split: option.splits if_splits)

lemma route_root_answer:
  assumes "root h = path_string rs" and "physical t rs"
    and "\<forall>ms p. prefix rs ms \<longrightarrow> t ms \<noteq> Some (Link p)"
  shows "root_answer t rs request (route_request (posix_env t) request h)"
proof -
  let ?r = "handle (posix_env t) h request"
  have fixed: "x\<lparr>content_length := None, suppress_body := False\<rparr> = x"
    if "x \<in> {bad_request, forbidden, not_found, method_not_allowed}" for x
    using that by (auto simp: fixed_responses method_not_allowed_def)
  consider (get) "req_method request = ''GET''" | (head) "req_method request = ''HEAD''"
    | (other) "req_method request \<noteq> ''GET''" "req_method request \<noteq> ''HEAD''" by blast
  then show ?thesis
  proof cases
    case get
    have r: "route_request (posix_env t) request h = ?r" "announced_length ?r = length (resp_body ?r)" "\<not> suppress_body ?r"
      using handle_non_head [of request] get by (simp_all add: route_request_def announced_length_def)
    show ?thesis
    proof (cases "status_code ?r = 200")
      case True
      then show ?thesis using no_links_contained [OF True _ assms] get r by (auto simp: root_answer_def)
    next
      case False
      then show ?thesis
        unfolding root_answer_def r(1) using handle_fixed [OF False] fixed [of ?r] get r(3) by auto
    qed
  next
    case head
    define n where "n = (if content_length ?r = None then Some (of_nat (length (resp_body ?r))) else content_length ?r)"
    have n: "route_request (posix_env t) request h = ?r\<lparr>content_length := n, suppress_body := True\<rparr>"
      using head by (simp add: route_request_def Let_def n_def)
    show ?thesis
    proof (cases "status_code ?r = 200")
      case True
      obtain c d where c: "candidate_of (posix_env t) h request = Some c" "posix_content t c = Some d"
        "announced_length ?r = length d" using posix.head_length_is_content [OF True head] by blast
      have "announced_length (route_request (posix_env t) request h) = length d"
        using n c(3) handle_length [of "posix_env t" h request]
        by (auto simp: announced_length_def n_def unat_of_nat take_bit_nat_eq_self split: option.splits)
      then show ?thesis
        using candidate_below_root [OF c(1,2) assms] True head n by (auto simp: root_answer_def)
    next
      case False
      then show ?thesis
        unfolding root_answer_def n using handle_fixed [OF False] fixed [of ?r] head by auto
    qed
  next
    case other
    then show ?thesis
      by (simp add: root_answer_def route_request_def method_not_allowed_def default_response_def)
  qed
qed

text \<open>
  C1. No file outside the document root reaches the network. Whatever well-formed requests a
  client sends over a connection, in whatever pieces they arrive and the answers leave, and on
  every file tree with no symbolic links below the document root: the bytes sent are a prefix of the serialised
  responses that the router gives to the requests, in order (and the fixed 408 answer), and each of these responses is the
  contents or, for HEAD, the length of a regular file below the document root, or one of four fixed error
  responses.
\<close>

theorem connection_sends_only_root_files:
  assumes "new_connection f cfg t1 t2 = Inr c" and "wf_client requests"
    and "run_ok (conn_step h) is_closed (wire_ok (posix_env t) order) evs c"
    and "serve h evs c = (res, c', effs)" and "prefix (received effs) (stream requests)"
    and "root h = path_string rs" and "physical t rs"
    and "\<forall>ms p. prefix rs ms \<longrightarrow> t ms \<noteq> Some (Link p)"
  shows "prefix (sent effs)
      (answers (posix_env t) order h (max_requests (limits cfg)) 0 (take (unat (requests_served (conn_result c'))) requests)
       @ timeout_answer order) \<and>
    list_all (\<lambda>request. root_answer t rs request (route_request (posix_env t) request h)) requests"
  using assms(1-5)
proof (cases rule: wire_serve)
  case (1 ss ts)
  then show ?thesis
    using wire_state_prefix [OF 1(4)] route_root_answer [OF assms(6-8)] by (simp add: list_all_iff)
qed

theorem connection_sends_only_root_files_witness:
  "\<exists>(c' :: connection) effs. sent effs = sample_answer \<and> sent effs \<noteq> [] \<and>
     prefix (sent effs)
       (answers site_env id site_handler 100 0 (take (unat (requests_served (conn_result c'))) [sample_get])
        @ timeout_answer id) \<and>
     root_answer plain_tree [''srv'', ''site''] sample_get (route_request site_env sample_get site_handler)"
proof -
  obtain effs where e: "serve site_handler sample_events sample_conn =
       (Some (conn_result (finish PeerClosed after_send)), finish PeerClosed after_send, effs)"
    "sent effs = sample_answer" "received effs = print_request sample_get" by (rule sample_serve)
  have n: "\<forall>ms p. prefix [''srv'', ''site''] ms \<longrightarrow> plain_tree ms \<noteq> Some (Link p)"
    by (simp add: plain_tree_def)
  have p: "prefix (received effs) (stream [sample_get])" using e(3) by simp
  have "sample_answer \<noteq> []" using sample_answer_pos by auto
  moreover have "max_requests (limits default_config) = 100" by (simp add: config_eval)
  moreover note connection_sends_only_root_files [OF sample_new sample_client sample_events_ok e(1) p
        site_root site_physical(1) n]
  ultimately show ?thesis
    using e(2) by (intro exI [of _ "finish PeerClosed after_send"] exI [of _ effs]) simp
qed

subsection \<open>From the counters to the report\<close>

text \<open>
  C7. The report accounts for every connection. When \<open>main\<close> prints the statistics of a server
  whose \<open>serve_forever\<close> returned, it exits with 0 and its last line is a JSON object in which
  no connection is active or queued, and the connections accepted are the ones completed,
  failed and refused, the last being at most one.
\<close>

theorem main_reports_every_connection:
  assumes "length argv \<le> 6" and "read_options argv = Inr opts" and "me_sigint_ok env" and "me_sigterm_ok env"
    and "new_server (me_server env) (opt_root opts) (opt_port opts) 128 (opt_address opts) default_config
      (opt_workers opts) (opt_capacity opts) = (Inr s0, calls)"
    and "0 < se_pipe_capacity (me_server env)"
    and "fs_canonical (se_fs (me_server env)) (opt_root opts) = Some root_path"
    and "server_run strerror s0 tr s" and "main_pc s = MReturned"
    and "me_serve env s0 = Inr (server_stats s, uptime)"
  shows "exit_code (main_program env argv) = 0 \<and>
    (\<exists>start line fields a c e r. std_out (main_program env argv) = start @ line @ [LF] \<and>
       read_object line = Some fields \<and>
       map_of fields ''active_connections'' = Some (JNumber 0) \<and>
       map_of fields ''queued_connections'' = Some (JNumber 0) \<and>
       map_of fields ''accepted_connections'' = Some (JNumber (uint (a :: size_t))) \<and>
       map_of fields ''completed_connections'' = Some (JNumber (uint c)) \<and>
       map_of fields ''worker_errors'' = Some (JNumber (uint e)) \<and>
       map_of fields ''rejected_dispatches'' = Some (JNumber (uint r)) \<and>
       a = c + e + r \<and> r \<le> 1)"
proof -
  let ?w = "stats_workers (server_stats s)"
  have b: "active_connections ?w = 0" "queued_connections ?w = 0"
    "stats_accepted (server_stats s) = completed_connections ?w + worker_errors ?w + rejected_dispatches ?w"
    "rejected_dispatches ?w \<le> 1"
    using server_books [OF assms(5,6,8)] assms(9) by auto
  have "exit_code (main_program env argv) = 0 \<and> std_out (main_program env argv) =
      banner opts s0 root_path @ format_shutdown_metrics (server_stats s) uptime @ [LF]"
    using assms(1-5,7,10) by (simp add: main_program_def install_shutdown_handler_def)
  moreover have "map_of (metrics_fields (server_stats s) uptime) ''active_connections'' = Some (JNumber 0)"
    "map_of (metrics_fields (server_stats s) uptime) ''queued_connections'' = Some (JNumber 0)"
    "map_of (metrics_fields (server_stats s) uptime) ''accepted_connections'' =
      Some (JNumber (uint (stats_accepted (server_stats s))))"
    "map_of (metrics_fields (server_stats s) uptime) ''completed_connections'' =
      Some (JNumber (uint (completed_connections ?w)))"
    "map_of (metrics_fields (server_stats s) uptime) ''worker_errors'' = Some (JNumber (uint (worker_errors ?w)))"
    "map_of (metrics_fields (server_stats s) uptime) ''rejected_dispatches'' =
      Some (JNumber (uint (rejected_dispatches ?w)))"
    using b by (simp_all add: metrics_fields_def Let_def)
  ultimately show ?thesis using b(3,4) metrics_read by blast
qed

definition returned_server :: http_server where
  "returned_server = stopped_server
     \<lparr>srv_pool := set_worker 0 WExited (pool_request_shutdown sample_pool), main_pc := MReturned\<rparr>"

lemma sample_server_returns:
  "\<exists>tr. server_run strerror sample_server tr returned_server"
proof -
  let ?a = "stopped_server\<lparr>main_pc := MShutdown Returning\<rparr>"
  let ?b = "(close_pool ?a)\<lparr>main_pc := MJoin Returning\<rparr>"
  let ?p = "pool_request_shutdown sample_pool"
  let ?c = "?b\<lparr>srv_pool := set_worker 0 WExited ?p\<rparr>"
  have p: "srv_pool ?b = ?p" "file_handler ?b = site_handler"
    by (simp_all add: stopped_server_def sample_server_def pool_request_shutdown_def close_def)
  have "pool_step site_handler ?p Exit (set_worker 0 WExited (?p\<lparr>pool_queue := pool_queue ?p\<rparr>))"
    by (rule worker_exit) (simp_all add: pool_request_shutdown_def sample_pool_def pop_def may_pop_def close_def)
  then have "pool_step (file_handler ?b) (srv_pool ?b) Exit (set_worker 0 WExited ?p)"
    unfolding p by simp
  then have 3: "server_step strerror ?b (Pool Exit) ?c"
    using server_step.worker [of Exit ?b _ strerror] by simp
  have 1: "server_step strerror stopped_server Main ?a"
    using server_step.loop_check [of stopped_server strerror] by (simp add: stopped_server_def sample_server_def)
  have 2: "server_step strerror ?a (Pool Shutdown) ?b"
    by (rule server_step.pool_shutdown) simp
  have "server_step strerror ?c Main (?c\<lparr>main_pc := ended Returning\<rparr>)"
    by (rule server_step.pool_joined) (simp_all add: set_worker_def pool_request_shutdown_def sample_pool_def)
  moreover have "?c\<lparr>main_pc := ended Returning\<rparr> = returned_server"
    by (simp add: returned_server_def close_pool_def)
  ultimately have 4: "server_step strerror ?c Main returned_server" by simp
  show ?thesis
    using server_run.step [OF server_run.step [OF server_run.step [OF server_run.step [OF sample_server_run 1] 2] 3] 4]
    by blast
qed

definition returning_env :: main_env where
  "returning_env = sample_main_env\<lparr>me_serve := (\<lambda>s. Inr (server_stats returned_server, 12))\<rparr>"

theorem main_reports_every_connection_witness:
  "exit_code (main_program returning_env
     [''http_server'', ''8080'', ''/srv/site'', ''127.0.0.1'', ''1'', ''2'']) = 0"
proof -
  obtain calls where n: "new_server (me_server returning_env) (opt_root sample_options) (opt_port sample_options) 128
      (opt_address sample_options) default_config (opt_workers sample_options) (opt_capacity sample_options) =
      (Inr sample_server, calls)"
    using sample_server_new by (auto simp: returning_env_def sample_main_env_def sample_options_def)
  obtain tr where r: "server_run (\<lambda>e. ''error'') sample_server tr returned_server"
    using sample_server_returns by blast
  show ?thesis
    using main_reports_every_connection [OF _ sample_read_options _ _ n _ _ r, of "''/srv/site''" 12]
    by (simp add: returning_env_def sample_main_env_def sample_server_env_def sample_options_def returned_server_def)
qed

end
